(* ===== verification/Xtd_Prelude.thy ===== *)
theory Xtd_Prelude
  imports Main "HOL-Library.Word"
begin

text \<open>
  Shared vocabulary of the development.

  \<^item> The machine types of the code: \<open>std::byte\<close> is an 8-bit word and \<open>std::size_t\<close> a 64-bit word,
    so every addition and subtraction on sizes wraps exactly as in C++.
  \<^item> Exceptions are values of \<open>cpp_exception\<close>; an operation that may throw returns
    \<open>cpp_exception + 'a\<close> with \<open>Inl\<close> for the exception.
  \<^item> A \<open>std::span\<close> is the list of the elements it shows; \<open>span_size\<close> is its \<open>size()\<close>.
  \<^item> Labelled transition systems: reachability under an allowed set of labels and the locale
    \<open>inductive_invariant\<close>, through which every concurrent component proves its invariants.
  \<^item> The lemmas on lists and words the component theories share, in the collections
    \<open>size_arith\<close> (moving sizes from words to naturals) and \<open>span_simps\<close>.
\<close>

section \<open>Machine types and exceptions\<close>

type_synonym byte = "8 word"
type_synonym size_t = "64 word"

datatype cpp_exception =
    std_out_of_range string
  | std_logic_error string
  | std_invalid_argument string
  | std_runtime_error string

type_synonym 'a throws = "cpp_exception + 'a"

named_theorems size_arith
named_theorems span_simps

section \<open>Spans\<close>

definition span_size :: "'a list \<Rightarrow> size_t" where
  "span_size xs = of_nat (length xs)"

definition subspan :: "'a list \<Rightarrow> size_t \<Rightarrow> size_t \<Rightarrow> 'a list" where
  "subspan xs offset count = take (unat count) (drop (unat offset) xs)"

definition subspan_from :: "'a list \<Rightarrow> size_t \<Rightarrow> 'a list" where
  "subspan_from xs offset = drop (unat offset) xs"

section \<open>Labelled transition systems\<close>

inductive reach :: "('s \<Rightarrow> bool) \<Rightarrow> ('s \<Rightarrow> 'l \<Rightarrow> 's \<Rightarrow> bool) \<Rightarrow> ('l \<Rightarrow> bool) \<Rightarrow> 's \<Rightarrow> bool"
  for init :: "'s \<Rightarrow> bool" and step :: "'s \<Rightarrow> 'l \<Rightarrow> 's \<Rightarrow> bool" and allowed :: "'l \<Rightarrow> bool"
where
  reach_init: "init s \<Longrightarrow> reach init step allowed s"
| reach_step: "reach init step allowed s \<Longrightarrow> step s l t \<Longrightarrow> allowed l \<Longrightarrow> reach init step allowed t"

text \<open>A run as a list of labels, for building concrete reachable states.\<close>

inductive run :: "('s \<Rightarrow> 'l \<Rightarrow> 's \<Rightarrow> bool) \<Rightarrow> 's \<Rightarrow> 'l list \<Rightarrow> 's \<Rightarrow> bool"
  for step :: "'s \<Rightarrow> 'l \<Rightarrow> 's \<Rightarrow> bool"
where
  run_nil: "run step s [] s"
| run_cons: "step s l t \<Longrightarrow> run step t ls u \<Longrightarrow> run step s (l # ls) u"

inductive_simps run_nil_iff [simp]: "run step s [] t"
inductive_simps run_cons_iff: "run step s (l # ls) t"

lemma reach_run:
  assumes "run step s ls t" and "reach init step allowed s" and "list_all allowed ls"
  shows "reach init step allowed t"
  using assms by (induction rule: run.induct) (auto intro: reach_step)

lemma reach_mono:
  assumes "reach init step allowed s" and "\<And>l. allowed l \<Longrightarrow> allowed' l"
  shows "reach init step allowed' s"
  using assms(1) by (induction rule: reach.induct) (auto intro: reach_init reach_step assms(2))

text \<open>
  The contract of an inductive invariant: the initial states have it and every allowed step keeps
  it.  Inside the locale it holds in every reachable state.
\<close>

locale inductive_invariant =
  fixes init :: "'s \<Rightarrow> bool"
    and step :: "'s \<Rightarrow> 'l \<Rightarrow> 's \<Rightarrow> bool"
    and allowed :: "'l \<Rightarrow> bool"
    and inv :: "'s \<Rightarrow> bool"
  assumes inv_init: "init s \<Longrightarrow> inv s"
    and inv_step: "inv s \<Longrightarrow> step s l t \<Longrightarrow> allowed l \<Longrightarrow> inv t"
begin

lemma reach_inv: "reach init step allowed s \<Longrightarrow> inv s"
  by (induction rule: reach.induct) (auto intro: inv_init inv_step)

lemma run_inv:
  assumes "run step s ls t" and "inv s" and "list_all allowed ls"
  shows "inv t"
  using assms by (induction rule: run.induct) (auto intro: inv_step)

end

text \<open>
  The contract of a system that comes to an end: outside the final states a step can be taken that is
  not noise (a spurious wake-up, say), such a step reduces the work that is left, and noise adds one
  unit at most.  Then the length of a run is bounded, and every run can be continued to the end.
\<close>

locale bounded_runs = inductive_invariant init step "\<lambda>_. True" inv
  for init :: "'s \<Rightarrow> bool" and step :: "'s \<Rightarrow> 'l \<Rightarrow> 's \<Rightarrow> bool" and inv :: "'s \<Rightarrow> bool" +
  fixes noise :: "'l \<Rightarrow> bool"
    and work :: "'s \<Rightarrow> nat"
    and final :: "'s \<Rightarrow> bool"
  assumes work_step: "inv s \<Longrightarrow> step s l t \<Longrightarrow> if noise l then work t \<le> Suc (work s) else work t < work s"
    and progress: "inv s \<Longrightarrow> \<not> final s \<Longrightarrow> \<exists>l t. step s l t \<and> \<not> noise l"
begin

lemma run_bound:
  assumes "run step s ls t" and "inv s"
  shows "length ls + work t \<le> work s + 2 * length (filter noise ls)"
  using assms
proof (induction rule: run.induct)
  case (run_cons s l t ls u)
  then have "inv t" using inv_step by blast
  then show ?case using run_cons work_step [OF run_cons(4,1)] by (auto split: if_splits)
qed simp

lemma run_ends:
  assumes "inv s"
  shows "\<exists>ls t. run step s ls t \<and> final t"
  using assms
proof (induction "work s" arbitrary: s rule: less_induct)
  case less
  show ?case
  proof (cases "final s")
    case False
    then obtain l t where t: "step s l t" "\<not> noise l" using progress [OF less.prems] by blast
    then have "work t < work s" "inv t" using work_step [OF less.prems t(1)] inv_step [OF less.prems t(1)] by auto
    then show ?thesis using less.hyps t(1) by (meson run_cons)
  qed (auto intro!: exI [of _ "[]"])
qed

end

section \<open>Sizes: from words to naturals\<close>

lemma unat_span_size [size_arith]: "length xs < 2 ^ 64 \<Longrightarrow> unat (span_size xs) = length xs"
  by (simp add: span_size_def unat_of_nat)

lemma unat_of_nat_size: "n < 2 ^ 64 \<Longrightarrow> unat (of_nat n :: size_t) = n"
  by (simp add: unat_of_nat)

lemma size_of_nat_unat: "unat (a :: size_t) = n \<Longrightarrow> a = of_nat n"
  by auto

lemma of_nat_size_eq_iff:
  "m < 2 ^ 64 \<Longrightarrow> n < 2 ^ 64 \<Longrightarrow> of_nat m = (of_nat n :: size_t) \<longleftrightarrow> m = n"
  by (metis unat_of_nat_size)

lemma span_size_Nil [simp]: "span_size [] = 0"
  by (simp add: span_size_def)

lemma span_size_eq_0_iff: "length xs < 2 ^ 64 \<Longrightarrow> span_size xs = 0 \<longleftrightarrow> xs = []"
  by (metis length_0_conv span_size_Nil unat_0 unat_span_size)

lemma unat_add_size [size_arith]: "unat (a :: size_t) + unat b < 2 ^ 64 \<Longrightarrow> unat (a + b) = unat a + unat b"
  by (simp add: unat_word_ariths)

lemma unat_sub_size [size_arith]: "(b :: size_t) \<le> a \<Longrightarrow> unat (a - b) = unat a - unat b"
  by (rule unat_sub)

lemma unat_size_bound: "unat (a :: size_t) < 18446744073709551616"
  using unsigned_less [of a, where ?'a = nat] by simp

lemma size_le_iff: "(a :: size_t) \<le> b \<longleftrightarrow> unat a \<le> unat b"
  by (rule word_le_nat_alt)

lemma size_less_iff: "(a :: size_t) < b \<longleftrightarrow> unat a < unat b"
  by (rule word_less_nat_alt)

lemma unat_min_size: "unat (min (a :: size_t) b) = min (unat a) (unat b)"
  by (simp add: min_def size_le_iff)

lemma unat_max_size: "unat (max (a :: size_t) b) = max (unat a) (unat b)"
  by (simp add: max_def size_le_iff)

lemma size_eq_iff: "(a :: size_t) = b \<longleftrightarrow> unat a = unat b"
  by (simp add: word_unat_eq_iff)

section \<open>Lists\<close>

lemma length_subspan [span_simps]:
  "length (subspan xs off n) = min (unat n) (length xs - unat off)"
  by (simp add: subspan_def)

text \<open>Counting the elements with a property is updated by one at a list update.\<close>

lemma count_list_update:
  assumes "i < length xs"
  shows "length (filter P (xs[i := x])) + (if P (xs ! i) then 1 else 0)
       = length (filter P xs) + (if P x then 1 else 0)"
proof -
  have "xs = take i xs @ xs ! i # drop (Suc i) xs"
    using assms by (rule id_take_nth_drop)
  then have "length (filter P xs) = length (filter P (take i xs @ xs ! i # drop (Suc i) xs))"
    by metis
  with assms show ?thesis
    by (simp add: upd_conv_take_nth_drop)
qed

lemma filter_length_pos_iff: "0 < length (filter P xs) \<longleftrightarrow> (\<exists>i < length xs. P (xs ! i))"
  by (auto simp: filter_empty_conv in_set_conv_nth) (metis nth_mem)

lemma length_concat_sum: "length (concat xss) = sum_list (map length xss)"
  by (simp add: length_concat)

end
