(* ===== verification/Memory_Resource.thy ===== *)
theory Memory_Resource
  imports Xtd_Prelude
begin

text \<open>
  \<open>pipeline/custom_allocators\<close>: the two memory resources a pipeline draws its segment buffers from,
  \<open>fixed_pool_resource\<close> (a stack of free buffers of one size, backed by \<open>operator new\<close>) and
  \<open>arena_pool_resource\<close> (one block cut into a ring of equal slots).

  A pointer is a block of the heap and a byte offset into it.  The heap records the size of every
  live block; \<open>operator new\<close> returns a block that was never used before.  Each operation returns
  \<open>None\<close> where an \<open>assert\<close> of the source fails or where the C++ is undefined (deleting a pointer that
  is not the start of a live block), so a theorem that an operation returns \<open>Some\<close> says that no
  assertion fires.  The statistics under \<open>PRINT_STATS\<close> are off in the source and not modelled.

  The interface a client relies on is the locale \<open>fifo_resource\<close>: as long as buffers are given back
  in the order they were taken and the resource has room, allocation succeeds, the new buffer
  overlaps no live one, and every buffer given back is accepted.  Both resources are interpreted
  on it.
\<close>

section \<open>The heap\<close>

type_synonym pointer = "nat \<times> size_t"

record heap =
  next_block :: nat
  blocks :: "nat \<Rightarrow> size_t option"

definition heap_empty :: heap where
  "heap_empty = \<lparr>next_block = 0, blocks = (\<lambda>_. None)\<rparr>"

definition operator_new :: "size_t \<Rightarrow> heap \<Rightarrow> pointer \<times> heap" where
  "operator_new bytes h =
     ((next_block h, 0),
      h\<lparr>next_block := Suc (next_block h), blocks := (blocks h)(next_block h \<mapsto> bytes)\<rparr>)"

definition operator_delete :: "pointer \<Rightarrow> heap \<Rightarrow> heap option" where
  "operator_delete p h =
     (if snd p = 0 \<and> blocks h (fst p) \<noteq> None
      then Some (h\<lparr>blocks := (blocks h)(fst p := None)\<rparr>) else None)"

definition heap_ok :: "heap \<Rightarrow> bool" where
  "heap_ok h \<longleftrightarrow> (\<forall>b. blocks h b \<noteq> None \<longrightarrow> b < next_block h)"

definition buffer_alignment :: size_t where
  "buffer_alignment = 1"

section \<open>\<open>fixed_pool_resource\<close>\<close>

record fixed_pool_resource =
  m_available_buffers :: "pointer list"
  m_pool_buffer_size :: size_t
  m_max_pool_size :: size_t

definition fixed_pool_make :: "size_t \<Rightarrow> size_t \<Rightarrow> fixed_pool_resource option" where
  "fixed_pool_make buffer_size max_pool_size =
     (if max_pool_size > 0 \<and> buffer_size > 0
      then Some \<lparr>m_available_buffers = [], m_pool_buffer_size = buffer_size,
                 m_max_pool_size = max_pool_size\<rparr>
      else None)"

definition fixed_do_allocate ::
  "size_t \<Rightarrow> size_t \<Rightarrow> fixed_pool_resource \<Rightarrow> heap \<Rightarrow> (pointer \<times> fixed_pool_resource \<times> heap) option"
where
  "fixed_do_allocate bytes alignment r h =
     (if bytes > 0 \<and> alignment = buffer_alignment then
        if m_available_buffers r = [] then
          (let (p, h') = operator_new bytes h in Some (p, r, h'))
        else
          (let buffer = last (m_available_buffers r) in
             Some (buffer, r\<lparr>m_available_buffers := butlast (m_available_buffers r)\<rparr>, h))
      else None)"

definition fixed_do_deallocate ::
  "pointer \<Rightarrow> size_t \<Rightarrow> size_t \<Rightarrow> fixed_pool_resource \<Rightarrow> heap \<Rightarrow> (fixed_pool_resource \<times> heap) option"
where
  "fixed_do_deallocate p bytes alignment r h =
     (if bytes = m_pool_buffer_size r \<and> alignment = buffer_alignment then
        if span_size (m_available_buffers r) < m_max_pool_size r then
          Some (r\<lparr>m_available_buffers := m_available_buffers r @ [p]\<rparr>, h)
        else map_option (\<lambda>h'. (r, h')) (operator_delete p h)
      else None)"

text \<open>The destructor gives every retained buffer back and clears the stack.\<close>

fun delete_all :: "pointer list \<Rightarrow> heap \<Rightarrow> heap option" where
  "delete_all [] h = Some h"
| "delete_all (p # ps) h = (case operator_delete p h of None \<Rightarrow> None | Some h' \<Rightarrow> delete_all ps h')"

definition fixed_pool_destroy :: "fixed_pool_resource \<Rightarrow> heap \<Rightarrow> (fixed_pool_resource \<times> heap) option" where
  "fixed_pool_destroy r h =
     map_option (\<lambda>h'. (r\<lparr>m_available_buffers := []\<rparr>, h')) (delete_all (m_available_buffers r) h)"

definition pool_size :: "fixed_pool_resource \<Rightarrow> size_t" where
  "pool_size r = span_size (m_available_buffers r)"

definition max_pool_size :: "fixed_pool_resource \<Rightarrow> size_t" where
  "max_pool_size r = m_max_pool_size r"

section \<open>\<open>arena_pool_resource\<close>\<close>

record arena_pool_resource =
  m_segment_size :: size_t
  m_arena_max_pool_size :: size_t
  m_total_size :: size_t
  m_storage :: pointer
  m_end :: pointer
  m_head :: pointer
  m_tail :: pointer
  m_active_buffers :: size_t

definition ptr_add :: "pointer \<Rightarrow> size_t \<Rightarrow> pointer" where
  "ptr_add p n = (fst p, snd p + n)"

definition calculate_total_size :: "size_t \<Rightarrow> size_t \<Rightarrow> size_t option" where
  "calculate_total_size buffer_size max_pool =
     (if buffer_size > 0 \<and> max_pool > 0 then Some (buffer_size * max_pool) else None)"

definition arena_make :: "size_t \<Rightarrow> size_t \<Rightarrow> heap \<Rightarrow> (arena_pool_resource \<times> heap) option" where
  "arena_make buffer_size max_pool h =
     (case calculate_total_size buffer_size max_pool of None \<Rightarrow> None
      | Some total_size \<Rightarrow>
          (let (storage, h') = operator_new total_size h in
             Some (\<lparr>m_segment_size = buffer_size, m_arena_max_pool_size = max_pool,
                    m_total_size = total_size, m_storage = storage, m_end = ptr_add storage total_size,
                    m_head = storage, m_tail = storage, m_active_buffers = 0\<rparr>, h')))"

definition arena_advance :: "arena_pool_resource \<Rightarrow> pointer \<Rightarrow> pointer" where
  "arena_advance r p =
     (let p' = ptr_add p (m_segment_size r) in if p' = m_end r then m_storage r else p')"

definition arena_do_allocate ::
  "size_t \<Rightarrow> size_t \<Rightarrow> arena_pool_resource \<Rightarrow> (pointer \<times> arena_pool_resource) option"
where
  "arena_do_allocate bytes alignment r =
     (if bytes = m_segment_size r \<and> alignment = buffer_alignment
         \<and> m_active_buffers r \<noteq> m_arena_max_pool_size r
      then Some (m_head r, r\<lparr>m_head := arena_advance r (m_head r),
                             m_active_buffers := m_active_buffers r + 1\<rparr>)
      else None)"

definition arena_do_deallocate ::
  "pointer \<Rightarrow> size_t \<Rightarrow> size_t \<Rightarrow> arena_pool_resource \<Rightarrow> arena_pool_resource option"
where
  "arena_do_deallocate p bytes alignment r =
     (if m_active_buffers r > 0
      then Some (r\<lparr>m_tail := arena_advance r (m_tail r),
                   m_active_buffers := m_active_buffers r - 1\<rparr>)
      else None)"

definition arena_destroy :: "arena_pool_resource \<Rightarrow> heap \<Rightarrow> heap option" where
  "arena_destroy r h =
     (if m_active_buffers r = 0 then operator_delete (m_storage r) h else None)"

section \<open>The interface: a resource used first-in first-out\<close>

definition disjoint_buffers :: "nat \<Rightarrow> pointer \<Rightarrow> pointer \<Rightarrow> bool" where
  "disjoint_buffers n p q \<longleftrightarrow>
     fst p \<noteq> fst q \<or> unat (snd p) + n \<le> unat (snd q) \<or> unat (snd q) + n \<le> unat (snd p)"

lemma disjoint_buffers_sym: "disjoint_buffers n p q \<longleftrightarrow> disjoint_buffers n q p"
  by (auto simp: disjoint_buffers_def)

text \<open>
  A client that takes buffers and gives the oldest one back.  \<open>True\<close> is a request to allocate,
  \<open>False\<close> one to deallocate the oldest live buffer.  A request list is feasible when it deallocates
  only what is live and allocates only while the resource has room.
\<close>

fun serve :: "('r \<Rightarrow> (pointer \<times> 'r) option) \<Rightarrow> (pointer \<Rightarrow> 'r \<Rightarrow> 'r option) \<Rightarrow>
    bool list \<Rightarrow> pointer list \<Rightarrow> 'r \<Rightarrow> (pointer list \<times> 'r) option" where
  "serve alloc dealloc [] ps r = Some (ps, r)"
| "serve alloc dealloc (True # ops) ps r =
     (case alloc r of None \<Rightarrow> None | Some (p, r') \<Rightarrow> serve alloc dealloc ops (ps @ [p]) r')"
| "serve alloc dealloc (False # ops) ps r =
     (case ps of [] \<Rightarrow> None
      | p # ps' \<Rightarrow> (case dealloc p r of None \<Rightarrow> None | Some r' \<Rightarrow> serve alloc dealloc ops ps' r'))"

fun feasible :: "bool list \<Rightarrow> nat \<Rightarrow> (nat \<Rightarrow> bool) \<Rightarrow> bool" where
  "feasible [] n rm = True"
| "feasible (True # ops) n rm = (rm n \<and> feasible ops (Suc n) rm)"
| "feasible (False # ops) n rm = (0 < n \<and> feasible ops (n - 1) rm)"

text \<open>
  \<open>owns r ps\<close> says that \<open>ps\<close> are the live buffers of the resource, oldest first.
\<close>

locale fifo_resource =
  fixes allocate :: "'r \<Rightarrow> (pointer \<times> 'r) option"
    and deallocate :: "pointer \<Rightarrow> 'r \<Rightarrow> 'r option"
    and owns :: "'r \<Rightarrow> pointer list \<Rightarrow> bool"
    and room :: "'r \<Rightarrow> nat \<Rightarrow> bool"
    and bytes :: "'r \<Rightarrow> nat"
  assumes allocate_ok: "owns r ps \<Longrightarrow> room r (length ps) \<Longrightarrow>
      \<exists>p r'. allocate r = Some (p, r') \<and> owns r' (ps @ [p]) \<and> room r' = room r \<and> bytes r' = bytes r
        \<and> (\<forall>q \<in> set ps. disjoint_buffers (bytes r) p q)"
    and deallocate_ok: "owns r (p # ps) \<Longrightarrow>
      \<exists>r'. deallocate p r = Some r' \<and> owns r' ps \<and> room r' = room r \<and> bytes r' = bytes r"
begin

lemma serve_feasible:
  assumes "owns r ps" and "feasible ops (length ps) (room r)"
    and "sorted_wrt (disjoint_buffers (bytes r)) ps"
  shows "\<exists>ps' r'. serve allocate deallocate ops ps r = Some (ps', r') \<and> owns r' ps'
           \<and> sorted_wrt (disjoint_buffers (bytes r)) ps'"
  using assms
proof (induction ops arbitrary: ps r)
  case Nil
  then show ?case by auto
next
  case (Cons x ops)
  show ?case
  proof (cases x)
    case True
    then obtain p r' where r': "allocate r = Some (p, r')" "owns r' (ps @ [p])" "room r' = room r"
        "bytes r' = bytes r" "\<forall>q \<in> set ps. disjoint_buffers (bytes r) p q"
      using allocate_ok [of r ps] Cons.prems by auto
    then have "sorted_wrt (disjoint_buffers (bytes r')) (ps @ [p])"
      using Cons.prems(3) by (simp add: sorted_wrt_append disjoint_buffers_sym)
    with Cons.IH [of r' "ps @ [p]"] Cons.prems True r' show ?thesis by auto
  next
    case False
    with Cons.prems obtain p ps' where ps: "ps = p # ps'" by (cases ps) auto
    then obtain r' where r': "deallocate p r = Some r'" "owns r' ps'" "room r' = room r"
        "bytes r' = bytes r"
      using deallocate_ok [of r p ps'] Cons.prems(1) by auto
    with Cons.IH [of r' ps'] Cons.prems ps False show ?thesis by auto
  qed
qed

end

section \<open>The fixed pool implements the interface\<close>

definition whole_blocks :: "heap \<Rightarrow> size_t \<Rightarrow> pointer list \<Rightarrow> bool" where
  "whole_blocks h n ps \<longleftrightarrow> distinct ps \<and> (\<forall>p \<in> set ps. snd p = 0 \<and> blocks h (fst p) = Some n)"

definition fixed_owns :: "fixed_pool_resource \<times> heap \<Rightarrow> pointer list \<Rightarrow> bool" where
  "fixed_owns rh ps \<longleftrightarrow>
     (let r = fst rh; h = snd rh in
        heap_ok h \<and> 0 < m_pool_buffer_size r
        \<and> length (m_available_buffers r) \<le> unat (m_max_pool_size r)
        \<and> whole_blocks h (m_pool_buffer_size r) (m_available_buffers r @ ps))"

definition fixed_allocate :: "fixed_pool_resource \<times> heap \<Rightarrow> (pointer \<times> fixed_pool_resource \<times> heap) option" where
  "fixed_allocate rh = fixed_do_allocate (m_pool_buffer_size (fst rh)) buffer_alignment (fst rh) (snd rh)"

definition fixed_deallocate :: "pointer \<Rightarrow> fixed_pool_resource \<times> heap \<Rightarrow> (fixed_pool_resource \<times> heap) option" where
  "fixed_deallocate p rh =
     fixed_do_deallocate p (m_pool_buffer_size (fst rh)) buffer_alignment (fst rh) (snd rh)"

lemma disjoint_blocks: "snd p = 0 \<Longrightarrow> snd q = 0 \<Longrightarrow> p \<noteq> q \<Longrightarrow> disjoint_buffers n p q"
  by (auto simp: disjoint_buffers_def prod_eq_iff)

lemma heap_ok_new: "heap_ok h \<Longrightarrow> heap_ok (snd (operator_new n h))"
  by (auto simp: heap_ok_def operator_new_def less_Suc_eq)

lemma whole_blocks_new:
  assumes "heap_ok h" and "whole_blocks h n ps"
  shows "whole_blocks (snd (operator_new n h)) n (ps @ [fst (operator_new n h)])"
proof -
  have "fst p \<noteq> next_block h" if "p \<in> set ps" for p
    using assms that by (metis heap_ok_def less_irrefl option.distinct(1) whole_blocks_def)
  then show ?thesis
    using assms(2) by (force simp: whole_blocks_def operator_new_def)
qed

lemma whole_blocks_delete:
  assumes "heap_ok h" and "whole_blocks h n (ps @ p # qs)"
  shows "\<exists>h'. operator_delete p h = Some h' \<and> heap_ok h' \<and> whole_blocks h' n (ps @ qs)"
proof -
  have "fst q \<noteq> fst p" if "q \<in> set (ps @ qs)" for q
  proof -
    from assms(2) that have "q \<noteq> p" "snd q = snd p" by (auto simp: whole_blocks_def)
    then show ?thesis by (metis prod_eqI)
  qed
  then show ?thesis
    using assms by (auto simp: operator_delete_def whole_blocks_def heap_ok_def)
qed

lemma whole_blocks_disjoint:
  "whole_blocks h n (ps @ [p]) \<Longrightarrow> q \<in> set ps \<Longrightarrow> disjoint_buffers m p q"
  by (auto simp: whole_blocks_def intro!: disjoint_blocks)

lemma whole_blocks_mset: "whole_blocks h n ps \<Longrightarrow> distinct qs \<Longrightarrow> set qs \<subseteq> set ps \<Longrightarrow> whole_blocks h n qs"
  by (auto simp: whole_blocks_def)

lemma fixed_allocate_ok:
  assumes "fixed_owns (r, h) ps"
  shows "\<exists>p r' h'. fixed_allocate (r, h) = Some (p, r', h') \<and> fixed_owns (r', h') (ps @ [p])
           \<and> m_pool_buffer_size r' = m_pool_buffer_size r
           \<and> (\<forall>q \<in> set ps. disjoint_buffers (unat (m_pool_buffer_size r)) p q)"
proof (cases "m_available_buffers r = []")
  case True
  let ?n = "operator_new (m_pool_buffer_size r) h"
  have "fixed_allocate (r, h) = Some (fst ?n, r, snd ?n)"
    using assms True
    by (simp add: fixed_allocate_def fixed_do_allocate_def fixed_owns_def split: prod.split)
  moreover have own: "whole_blocks (snd ?n) (m_pool_buffer_size r) (ps @ [fst ?n])"
    using assms True by (intro whole_blocks_new) (simp_all add: fixed_owns_def)
  moreover have "fixed_owns (r, snd ?n) (ps @ [fst ?n])"
    using assms True own by (simp add: fixed_owns_def heap_ok_new)
  ultimately show ?thesis using whole_blocks_disjoint by blast
next
  case False
  then obtain bs b where bs: "m_available_buffers r = bs @ [b]"
    by (metis append_butlast_last_id)
  let ?r = "r\<lparr>m_available_buffers := bs\<rparr>"
  have "fixed_allocate (r, h) = Some (b, ?r, h)"
    using assms bs by (simp add: fixed_allocate_def fixed_do_allocate_def fixed_owns_def)
  moreover have own: "whole_blocks h (m_pool_buffer_size r) (bs @ ps @ [b])"
    using assms bs by (auto simp: fixed_owns_def whole_blocks_def)
  then have "fixed_owns (?r, h) (ps @ [b])" and "whole_blocks h (m_pool_buffer_size r) (ps @ [b])"
    using assms bs by (auto simp: fixed_owns_def whole_blocks_def)
  ultimately show ?thesis using whole_blocks_disjoint by fastforce
qed

lemma fixed_deallocate_ok:
  assumes "fixed_owns (r, h) (p # ps)"
  shows "\<exists>r' h'. fixed_deallocate p (r, h) = Some (r', h') \<and> fixed_owns (r', h') ps
           \<and> m_pool_buffer_size r' = m_pool_buffer_size r"
proof (cases "span_size (m_available_buffers r) < m_max_pool_size r")
  case True
  from assms have "length (m_available_buffers r) < 2 ^ 64"
    using unat_size_bound [of "m_max_pool_size r"] by (simp add: fixed_owns_def)
  with assms True show ?thesis
    by (auto simp: fixed_deallocate_def fixed_do_deallocate_def fixed_owns_def whole_blocks_def
        size_less_iff unat_span_size)
next
  case False
  from assms obtain h' where "operator_delete p h = Some h'" "heap_ok h'"
      "whole_blocks h' (m_pool_buffer_size r) (m_available_buffers r @ ps)"
    using whole_blocks_delete [of h _ "m_available_buffers r" p ps] by (auto simp: fixed_owns_def)
  with assms False show ?thesis
    by (auto simp: fixed_deallocate_def fixed_do_deallocate_def fixed_owns_def)
qed

interpretation fixed: fifo_resource fixed_allocate fixed_deallocate fixed_owns
  "\<lambda>_ _. True" "\<lambda>rh. unat (m_pool_buffer_size (fst rh))"
proof unfold_locales
  fix rh ps
  assume "fixed_owns rh ps"
  then show "\<exists>p r'. fixed_allocate rh = Some (p, r') \<and> fixed_owns r' (ps @ [p])
      \<and> (\<lambda>_ :: nat. True) = (\<lambda>_. True)
      \<and> unat (m_pool_buffer_size (fst r')) = unat (m_pool_buffer_size (fst rh))
      \<and> (\<forall>q \<in> set ps. disjoint_buffers (unat (m_pool_buffer_size (fst rh))) p q)"
    using fixed_allocate_ok [of "fst rh" "snd rh" ps] by fastforce
next
  fix rh p ps
  assume "fixed_owns rh (p # ps)"
  then show "\<exists>r'. fixed_deallocate p rh = Some r' \<and> fixed_owns r' ps
      \<and> (\<lambda>_ :: nat. True) = (\<lambda>_. True)
      \<and> unat (m_pool_buffer_size (fst r')) = unat (m_pool_buffer_size (fst rh))"
    using fixed_deallocate_ok [of "fst rh" "snd rh" p ps] by fastforce
qed

section \<open>The arena implements the interface\<close>

text \<open>Slot \<open>k\<close> of the ring, counted from the start of the storage and taken modulo its length.\<close>

definition arena_slot :: "arena_pool_resource \<Rightarrow> nat \<Rightarrow> pointer" where
  "arena_slot r k =
     (fst (m_storage r), of_nat ((k mod unat (m_arena_max_pool_size r)) * unat (m_segment_size r)))"

definition arena_shape :: "arena_pool_resource \<Rightarrow> bool" where
  "arena_shape r \<longleftrightarrow>
     0 < m_segment_size r \<and> 0 < m_arena_max_pool_size r
     \<and> unat (m_arena_max_pool_size r) * unat (m_segment_size r) < 2 ^ 64
     \<and> snd (m_storage r) = 0
     \<and> m_end r = (fst (m_storage r),
                  of_nat (unat (m_arena_max_pool_size r) * unat (m_segment_size r)))"

definition arena_owns_from :: "nat \<Rightarrow> arena_pool_resource \<Rightarrow> pointer list \<Rightarrow> bool" where
  "arena_owns_from i r ps \<longleftrightarrow>
     arena_shape r \<and> length ps \<le> unat (m_arena_max_pool_size r)
     \<and> unat (m_active_buffers r) = length ps
     \<and> m_tail r = arena_slot r i \<and> m_head r = arena_slot r (i + length ps)
     \<and> ps = map (arena_slot r) [i..<i + length ps]"

definition arena_owns :: "arena_pool_resource \<Rightarrow> pointer list \<Rightarrow> bool" where
  "arena_owns r ps \<longleftrightarrow> (\<exists>i. arena_owns_from i r ps)"

definition arena_allocate :: "arena_pool_resource \<Rightarrow> (pointer \<times> arena_pool_resource) option" where
  "arena_allocate r = arena_do_allocate (m_segment_size r) buffer_alignment r"

definition arena_deallocate :: "pointer \<Rightarrow> arena_pool_resource \<Rightarrow> arena_pool_resource option" where
  "arena_deallocate p r = arena_do_deallocate p (m_segment_size r) buffer_alignment r"

lemma arena_slot_update [simp]:
  "arena_slot (r\<lparr>m_head := x, m_active_buffers := n\<rparr>) = arena_slot r"
  "arena_slot (r\<lparr>m_tail := x, m_active_buffers := n\<rparr>) = arena_slot r"
  by (simp_all add: arena_slot_def fun_eq_iff)

lemma arena_shape_update [simp]:
  "arena_shape (r\<lparr>m_head := x, m_active_buffers := n\<rparr>) = arena_shape r"
  "arena_shape (r\<lparr>m_tail := x, m_active_buffers := n\<rparr>) = arena_shape r"
  by (simp_all add: arena_shape_def)

lemma slot_offset_less:
  assumes "arena_shape r" and "j < unat (m_arena_max_pool_size r)"
  shows "j * unat (m_segment_size r) + unat (m_segment_size r) < 2 ^ 64"
proof -
  have "(j + 1) * unat (m_segment_size r) \<le> unat (m_arena_max_pool_size r) * unat (m_segment_size r)"
    using assms(2) by (intro mult_le_mono1) simp
  then show ?thesis using assms(1) by (simp add: arena_shape_def)
qed

lemma unat_slot:
  assumes "arena_shape r"
  shows "unat (snd (arena_slot r k)) = (k mod unat (m_arena_max_pool_size r)) * unat (m_segment_size r)"
proof -
  have "k mod unat (m_arena_max_pool_size r) < unat (m_arena_max_pool_size r)"
    using assms by (simp add: arena_shape_def word_less_nat_alt)
  from slot_offset_less [OF assms this] show ?thesis
    by (simp add: arena_slot_def unat_of_nat_size del: of_nat_mult)
qed

lemma arena_advance_slot:
  assumes "arena_shape r"
  shows "arena_advance r (arena_slot r k) = arena_slot r (Suc k)"
proof -
  let ?n = "unat (m_arena_max_pool_size r)" and ?g = "unat (m_segment_size r)"
  have n: "0 < ?n" and g: "0 < ?g" and small: "?n * ?g < 2 ^ 64"
    using assms by (simp_all add: arena_shape_def word_less_nat_alt)
  have step: "ptr_add (arena_slot r k) (m_segment_size r)
                = (fst (m_storage r), of_nat ((k mod ?n + 1) * ?g))"
    by (simp add: ptr_add_def arena_slot_def)
  show ?thesis
  proof (cases "k mod ?n + 1 = ?n")
    case True
    then have "Suc k mod ?n = 0" by (simp add: mod_Suc)
    moreover have "ptr_add (arena_slot r k) (m_segment_size r) = m_end r"
      using assms True step by (simp add: arena_shape_def)
    moreover have "m_storage r = (fst (m_storage r), 0)"
      using assms by (simp add: arena_shape_def prod_eq_iff)
    ultimately show ?thesis
      by (simp add: arena_advance_def arena_slot_def)
  next
    case False
    then have lt: "k mod ?n + 1 < ?n" using n by (metis Suc_eq_plus1 Suc_lessI mod_less_divisor)
    then have "(k mod ?n + 1) * ?g < ?n * ?g" using g by (metis mult_less_mono1)
    then have "of_nat ((k mod ?n + 1) * ?g) \<noteq> (of_nat (?n * ?g) :: size_t)"
      using small by (subst of_nat_size_eq_iff) auto
    then have "ptr_add (arena_slot r k) (m_segment_size r) \<noteq> m_end r"
      using assms step by (simp add: arena_shape_def)
    moreover have "Suc k mod ?n = k mod ?n + 1" using lt by (simp add: mod_Suc)
    ultimately show ?thesis
      using step by (simp add: arena_advance_def arena_slot_def)
  qed
qed

lemma slots_disjoint:
  assumes "arena_shape r" and "j mod unat (m_arena_max_pool_size r) < k mod unat (m_arena_max_pool_size r)"
  shows "disjoint_buffers (unat (m_segment_size r)) (arena_slot r j) (arena_slot r k)"
proof -
  let ?n = "unat (m_arena_max_pool_size r)" and ?g = "unat (m_segment_size r)"
  have "(j mod ?n + 1) * ?g \<le> (k mod ?n) * ?g"
    using assms(2) by (intro mult_le_mono1) simp
  then show ?thesis
    using assms(1) by (simp add: disjoint_buffers_def unat_slot)
qed

lemma slots_disjoint_mod:
  assumes "arena_shape r" and "j mod unat (m_arena_max_pool_size r) \<noteq> k mod unat (m_arena_max_pool_size r)"
  shows "disjoint_buffers (unat (m_segment_size r)) (arena_slot r j) (arena_slot r k)"
  using assms slots_disjoint by (metis disjoint_buffers_sym linorder_neqE_nat)

text \<open>Two indices less than a full turn apart are in different slots.\<close>

lemma mod_window_neq:
  assumes "i \<le> j" and "j < k" and "k < i + n"
  shows "j mod n \<noteq> k mod (n :: nat)"
proof
  assume "j mod n = k mod n"
  then have "n dvd k - j" using assms by (metis less_imp_le mod_eq_dvd_iff_nat)
  moreover have "0 < k - j" "k - j < n" using assms by auto
  ultimately show False by (auto dest: dvd_imp_le)
qed

lemma arena_allocate_ok:
  fixes r i ps
  defines "p \<equiv> arena_slot r (i + length ps)"
    and "r' \<equiv> r\<lparr>m_head := arena_slot r (Suc (i + length ps)),
                m_active_buffers := m_active_buffers r + 1\<rparr>"
  assumes owns: "arena_owns_from i r ps" and room: "length ps < unat (m_arena_max_pool_size r)"
  shows "arena_allocate r = Some (p, r')"
    and "arena_owns_from i r' (ps @ [p])"
    and "\<forall>q \<in> set ps. disjoint_buffers (unat (m_segment_size r)) p q"
proof -
  have shape: "arena_shape r" and act: "unat (m_active_buffers r) = length ps"
    and hd: "m_head r = p" and ps: "ps = map (arena_slot r) [i..<i + length ps]"
    using owns by (simp_all add: arena_owns_from_def p_def)
  have "m_active_buffers r \<noteq> m_arena_max_pool_size r" using act room by auto
  then show "arena_allocate r = Some (p, r')"
    using hd shape by (simp add: r'_def p_def arena_allocate_def arena_do_allocate_def arena_advance_slot)
  have "unat (m_active_buffers r + 1) = length ps + 1"
    using act room unat_size_bound [of "m_arena_max_pool_size r"]
    by (simp add: unat_add_size)
  moreover have "ps @ [p] = map (arena_slot r) [i..<i + length (ps @ [p])]"
    using ps by (simp add: p_def)
  ultimately show "arena_owns_from i r' (ps @ [p])"
    using owns room by (simp add: arena_owns_from_def r'_def p_def)
  show "\<forall>q \<in> set ps. disjoint_buffers (unat (m_segment_size r)) p q"
  proof
    fix q assume "q \<in> set ps"
    then have "q \<in> arena_slot r ` {i..<i + length ps}" using ps by (metis list.set_map set_upt)
    then obtain j where "q = arena_slot r j" "i \<le> j" "j < i + length ps" by auto
    moreover from this have "j mod unat (m_arena_max_pool_size r)
        \<noteq> (i + length ps) mod unat (m_arena_max_pool_size r)"
      using room by (intro mod_window_neq [of i]) auto
    ultimately show "disjoint_buffers (unat (m_segment_size r)) p q"
      using shape by (auto simp: p_def intro!: slots_disjoint_mod)
  qed
qed

lemma arena_deallocate_ok:
  fixes r i
  defines "r' \<equiv> r\<lparr>m_tail := arena_slot r (Suc i), m_active_buffers := m_active_buffers r - 1\<rparr>"
  assumes owns: "arena_owns_from i r (p # ps)"
  shows "arena_deallocate p r = Some r'"
    and "arena_owns_from (Suc i) r' ps"
proof -
  have shape: "arena_shape r" and act: "unat (m_active_buffers r) = Suc (length ps)"
    and tl: "m_tail r = arena_slot r i"
    and ps: "p # ps = map (arena_slot r) [i..<i + Suc (length ps)]"
    using owns by (simp_all add: arena_owns_from_def)
  have pos: "0 < m_active_buffers r" using act by (simp add: word_less_nat_alt)
  then show "arena_deallocate p r = Some r'"
    using tl shape by (simp add: r'_def arena_deallocate_def arena_do_deallocate_def arena_advance_slot)
  have "1 \<le> m_active_buffers r" using act by (simp add: size_le_iff)
  then have "unat (m_active_buffers r - 1) = length ps" using act by (simp add: unat_sub_size)
  moreover have "ps = map (arena_slot r) [Suc i..<Suc i + length ps]"
    using ps by (simp add: upt_conv_Cons del: upt_Suc)
  ultimately show "arena_owns_from (Suc i) r' ps"
    using owns by (simp add: arena_owns_from_def r'_def)
qed

interpretation arena: fifo_resource arena_allocate arena_deallocate arena_owns
  "\<lambda>r n. n < unat (m_arena_max_pool_size r)" "\<lambda>r. unat (m_segment_size r)"
proof unfold_locales
  fix r ps
  assume "arena_owns r ps" and room: "length ps < unat (m_arena_max_pool_size r)"
  then obtain i where "arena_owns_from i r ps" by (auto simp: arena_owns_def)
  from arena_allocate_ok [OF this room]
  show "\<exists>p r'. arena_allocate r = Some (p, r') \<and> arena_owns r' (ps @ [p])
      \<and> (\<lambda>n. n < unat (m_arena_max_pool_size r')) = (\<lambda>n. n < unat (m_arena_max_pool_size r))
      \<and> unat (m_segment_size r') = unat (m_segment_size r)
      \<and> (\<forall>q \<in> set ps. disjoint_buffers (unat (m_segment_size r)) p q)"
    by (auto simp: arena_owns_def)
next
  fix r p ps
  assume "arena_owns r (p # ps)"
  then obtain i where "arena_owns_from i r (p # ps)" by (auto simp: arena_owns_def)
  from arena_deallocate_ok [OF this]
  show "\<exists>r'. arena_deallocate p r = Some r' \<and> arena_owns r' ps
      \<and> (\<lambda>n. n < unat (m_arena_max_pool_size r')) = (\<lambda>n. n < unat (m_arena_max_pool_size r))
      \<and> unat (m_segment_size r') = unat (m_segment_size r)"
    by (auto simp: arena_owns_def)
qed

lemma arena_make_owns:
  assumes "0 < bs" and "0 < n" and "unat n * unat bs < 2 ^ 64"
  shows "\<exists>r h'. arena_make bs n h = Some (r, h') \<and> arena_owns r [] \<and> m_segment_size r = bs
           \<and> m_arena_max_pool_size r = n \<and> blocks h' (fst (m_storage r)) \<noteq> None"
proof -
  have "arena_owns_from 0 (fst (the (arena_make bs n h))) []"
    using assms
    by (simp add: arena_make_def calculate_total_size_def operator_new_def arena_owns_from_def
        arena_shape_def arena_slot_def ptr_add_def mult.commute)
  then show ?thesis
    using assms
    by (auto simp: arena_make_def calculate_total_size_def operator_new_def arena_owns_def)
qed

section \<open>Properties\<close>



text \<open>C25: The same client runs on a freshly constructed fixed pool without a failing assertion,
  with no bound on the number of live buffers; live buffers never overlap, each is a whole live
  block of exactly \<open>buffer_size\<close> bytes, and the pool never retains more than \<open>max_pool_size\<close> free
  buffers.\<close>

theorem fixed_pool_fifo_safe:
  assumes "fixed_pool_make bs n = Some r" and "heap_ok h" and "feasible ops 0 (\<lambda>_. True)"
  shows "\<exists>ps r' h'. serve fixed_allocate fixed_deallocate ops [] (r, h) = Some (ps, r', h')
           \<and> sorted_wrt (disjoint_buffers (unat bs)) ps
           \<and> (\<forall>p \<in> set ps. snd p = 0 \<and> blocks h' (fst p) = Some (m_pool_buffer_size r'))
           \<and> unat (pool_size r') \<le> unat (max_pool_size r')"
proof -
  have r: "fixed_owns (r, h) []" "m_pool_buffer_size r = bs"
    using assms(1,2) by (auto simp: fixed_pool_make_def fixed_owns_def whole_blocks_def split: if_splits)
  then obtain ps r' h' where run: "serve fixed_allocate fixed_deallocate ops [] (r, h) = Some (ps, r', h')"
      and own: "fixed_owns (r', h') ps" and dis: "sorted_wrt (disjoint_buffers (unat bs)) ps"
    using fixed.serve_feasible [of "(r, h)" "[]" ops] assms(3) by fastforce
  have len: "length (m_available_buffers r') \<le> unat (m_max_pool_size r')"
    using own by (simp add: fixed_owns_def)
  then have "unat (pool_size r') \<le> unat (max_pool_size r')"
    using unat_size_bound [of "m_max_pool_size r'"]
    by (simp add: pool_size_def max_pool_size_def unat_span_size)
  with run dis own show ?thesis by (auto simp: fixed_owns_def whole_blocks_def)
qed

lemma fixed_pool_fifo_safe_witness:
  "\<exists>ps r' h'. serve fixed_allocate fixed_deallocate [True, True, False, False, True] []
       (\<lparr>m_available_buffers = [], m_pool_buffer_size = 4, m_max_pool_size = 1\<rparr>, heap_empty)
         = Some (ps, r', h')
     \<and> sorted_wrt (disjoint_buffers (unat (4 :: size_t))) ps
     \<and> (\<forall>p \<in> set ps. snd p = 0 \<and> blocks h' (fst p) = Some (m_pool_buffer_size r'))
     \<and> unat (pool_size r') \<le> unat (max_pool_size r')"
  by (rule fixed_pool_fifo_safe [where n = 1])
    (simp_all add: fixed_pool_make_def heap_ok_def heap_empty_def)

lemma delete_all_whole_blocks:
  assumes "heap_ok h" and "whole_blocks h n ps"
  shows "\<exists>h'. delete_all ps h = Some h' \<and> blocks h' = (\<lambda>b. if b \<in> fst ` set ps then None else blocks h b)"
  using assms
proof (induction ps arbitrary: h)
  case Nil
  then show ?case by auto
next
  case (Cons p ps)
  then obtain h1 where h1: "operator_delete p h = Some h1" "heap_ok h1" "whole_blocks h1 n ps"
    using whole_blocks_delete [of h n "[]" p ps] by auto
  with Cons.IH [OF h1(2,3)] obtain h' where "delete_all ps h1 = Some h'"
      "blocks h' = (\<lambda>b. if b \<in> fst ` set ps then None else blocks h1 b)" by blast
  with h1(1) show ?case by (auto simp: operator_delete_def fun_eq_iff split: if_splits)
qed

text \<open>Destroying a fixed pool all of whose buffers were returned frees exactly the retained
  blocks: no retained buffer is deleted twice or leaked, and no other block is touched.\<close>

lemma fixed_pool_destroy_frees:
  assumes "fixed_owns (r, h) []"
  shows "\<exists>r' h'. fixed_pool_destroy r h = Some (r', h') \<and> pool_size r' = 0
           \<and> blocks h' = (\<lambda>b. if b \<in> fst ` set (m_available_buffers r) then None else blocks h b)"
proof -
  from assms have "heap_ok h" "whole_blocks h (m_pool_buffer_size r) (m_available_buffers r)"
    by (simp_all add: fixed_owns_def)
  from delete_all_whole_blocks [OF this] show ?thesis
    by (auto simp: fixed_pool_destroy_def pool_size_def)
qed

lemma fixed_pool_destroy_frees_witness:
  "\<exists>r' h'. fixed_pool_destroy
       \<lparr>m_available_buffers = [(0, 0)], m_pool_buffer_size = 4, m_max_pool_size = 1\<rparr>
       \<lparr>next_block = 1, blocks = [0 \<mapsto> 4]\<rparr> = Some (r', h')
     \<and> pool_size r' = 0
     \<and> blocks h' = (\<lambda>b. if b \<in> fst ` set (m_available_buffers
           \<lparr>m_available_buffers = [(0 :: nat, 0 :: size_t)], m_pool_buffer_size = 4, m_max_pool_size = 1\<rparr>)
         then None else blocks \<lparr>next_block = 1, blocks = [0 \<mapsto> 4]\<rparr> b)"
  by (rule fixed_pool_destroy_frees)
    (auto simp: fixed_owns_def whole_blocks_def heap_ok_def split: if_splits)

text \<open>A fixed pool with a free buffer hands that buffer out whatever size is asked for:
  \<open>do_allocate\<close> compares \<open>bytes\<close> with nothing but zero, so a request for more than \<open>buffer_size\<close>
  bytes is answered with a block of \<open>buffer_size\<close> bytes.\<close>

lemma fixed_pool_ignores_requested_size:
  assumes "fixed_owns (r, h) ps" and "m_available_buffers r \<noteq> []" and "m_pool_buffer_size r < bytes"
  shows "\<exists>p r' n. fixed_do_allocate bytes buffer_alignment r h = Some (p, r', h)
           \<and> blocks h (fst p) = Some n \<and> n < bytes"
proof -
  have "0 < bytes" using assms(3) by (rule le_less_trans [OF word_zero_le])
  moreover have "last (m_available_buffers r) \<in> set (m_available_buffers r @ ps)"
    using assms(2) by simp
  ultimately show ?thesis
    using assms by (auto simp: fixed_do_allocate_def fixed_owns_def whole_blocks_def Let_def)
qed

lemma fixed_pool_ignores_requested_size_witness:
  "\<exists>p r' n. fixed_do_allocate 100 buffer_alignment
       \<lparr>m_available_buffers = [(0, 0)], m_pool_buffer_size = 4, m_max_pool_size = 1\<rparr>
       \<lparr>next_block = 1, blocks = [0 \<mapsto> 4]\<rparr> = Some (p, r', \<lparr>next_block = 1, blocks = [0 \<mapsto> 4]\<rparr>)
     \<and> blocks \<lparr>next_block = 1, blocks = [0 \<mapsto> 4]\<rparr> (fst p) = Some n \<and> n < 100"
  by (rule fixed_pool_ignores_requested_size [where ps = "[]"])
    (auto simp: fixed_owns_def whole_blocks_def heap_ok_def split: if_splits)

end
