(* ===== verification/Data_Segment.thy ===== *)
theory Data_Segment
  imports Memory_Resource
begin

text \<open>
  \<open>pipeline/data_segment.h\<close>: one fixed-size buffer of the pipeline with a readable span followed by
  a writable span.  A span is an offset and a length into the segment's own buffer.  The memory of
  the buffer is a list of optional bytes, \<open>None\<close> where nothing was written since the allocation, so
  that reading uninitialised memory is visible in the model.  The calls to the memory resource that
  the constructor and destructor make are performed by the owner of the segments
  (theory \<open>Pipeline\<close>); the constructor here takes the pointer they returned.

  The locale \<open>byte_queue\<close> is the contract between a store of bytes and its users: appending keeps
  what is there and adds a prefix of the offered bytes, consuming removes from the front.
\<close>

section \<open>The structure and its operations\<close>

record buffer_span =
  span_data :: size_t
  span_len :: size_t

record data_segment =
  m_buffer :: pointer
  m_memory :: "byte option list"
  m_writable_span :: buffer_span
  m_readable_span :: buffer_span
  m_capacity :: size_t

definition data_segment_make :: "size_t \<Rightarrow> pointer \<Rightarrow> data_segment option" where
  "data_segment_make buffer_size p =
     (if buffer_size > 0 then
        Some \<lparr>m_buffer = p, m_memory = replicate (unat buffer_size) None,
              m_writable_span = \<lparr>span_data = 0, span_len = buffer_size\<rparr>,
              m_readable_span = \<lparr>span_data = 0, span_len = 0\<rparr>,
              m_capacity = buffer_size\<rparr>
      else None)"

definition capacity :: "data_segment \<Rightarrow> size_t" where
  "capacity s = m_capacity s"

definition readable_size :: "data_segment \<Rightarrow> size_t" where
  "readable_size s = span_len (m_readable_span s)"

definition readable_memory :: "data_segment \<Rightarrow> byte option list" where
  "readable_memory s = subspan (m_memory s) (span_data (m_readable_span s)) (span_len (m_readable_span s))"

definition readable_bytes :: "data_segment \<Rightarrow> byte list" where
  "readable_bytes s = map the (readable_memory s)"

definition writable_size :: "data_segment \<Rightarrow> size_t" where
  "writable_size s = span_len (m_writable_span s)"

definition writable_bytes :: "data_segment \<Rightarrow> byte option list" where
  "writable_bytes s = subspan (m_memory s) (span_data (m_writable_span s)) (span_len (m_writable_span s))"

definition buffer_subspan :: "buffer_span \<Rightarrow> size_t \<Rightarrow> buffer_span" where
  "buffer_subspan sp offset = \<lparr>span_data = span_data sp + offset, span_len = span_len sp - offset\<rparr>"

definition advance_read :: "size_t \<Rightarrow> data_segment \<Rightarrow> data_segment throws" where
  "advance_read n s =
     (if n > span_len (m_readable_span s)
      then Inl (std_out_of_range ''consume size exceeds readable size'')
      else Inr (s\<lparr>m_readable_span := buffer_subspan (m_readable_span s) n\<rparr>))"

definition seg_full :: "data_segment \<Rightarrow> bool" where
  "seg_full s \<longleftrightarrow> span_len (m_writable_span s) = 0"

text \<open>\<open>std::memcpy\<close> into the buffer: \<open>n\<close> bytes of the source from offset \<open>dst\<close> on.\<close>

definition memcpy :: "byte option list \<Rightarrow> nat \<Rightarrow> byte list \<Rightarrow> nat \<Rightarrow> byte option list" where
  "memcpy mem dst src n = take dst mem @ map Some (take n src) @ drop (dst + n) mem"

definition copy_from :: "byte list \<Rightarrow> size_t \<Rightarrow> data_segment \<Rightarrow> size_t \<times> data_segment" where
  "copy_from source n s =
     (let to_copy_size = min (span_len (m_writable_span s)) n in
        (to_copy_size,
         s\<lparr>m_memory := memcpy (m_memory s) (unat (span_data (m_writable_span s))) source (unat to_copy_size),
           m_readable_span := \<lparr>span_data = span_data (m_readable_span s),
                               span_len = span_len (m_readable_span s) + to_copy_size\<rparr>,
           m_writable_span := buffer_subspan (m_writable_span s) to_copy_size\<rparr>))"

section \<open>The contract of a store of bytes\<close>

datatype byte_op = Append "byte list" | Consume nat

text \<open>
  Running a list of operations, collecting the bytes that were accepted and the bytes that were
  consumed.  A failing consume leaves the store as it is.
\<close>

fun bq_run :: "('q \<Rightarrow> byte list) \<Rightarrow> (byte list \<Rightarrow> 'q \<Rightarrow> nat \<times> 'q) \<Rightarrow> (nat \<Rightarrow> 'q \<Rightarrow> 'q option) \<Rightarrow>
    byte_op list \<Rightarrow> 'q \<Rightarrow> byte list \<times> byte list \<times> 'q" where
  "bq_run cts app con [] q = ([], [], q)"
| "bq_run cts app con (Append bs # ops) q =
     (case app bs q of (n, q') \<Rightarrow>
        (case bq_run cts app con ops q' of (i, out, r) \<Rightarrow> (take n bs @ i, out, r)))"
| "bq_run cts app con (Consume k # ops) q =
     (case con k q of None \<Rightarrow> bq_run cts app con ops q
      | Some q' \<Rightarrow> (case bq_run cts app con ops q' of (i, out, r) \<Rightarrow> (i, take k (cts q) @ out, r)))"

locale byte_queue =
  fixes ok :: "'q \<Rightarrow> bool"
    and contents :: "'q \<Rightarrow> byte list"
    and append_bytes :: "byte list \<Rightarrow> 'q \<Rightarrow> nat \<times> 'q"
    and consume_bytes :: "nat \<Rightarrow> 'q \<Rightarrow> 'q option"
  assumes append_ok: "ok q \<Longrightarrow> append_bytes bs q = (n, q') \<Longrightarrow>
      ok q' \<and> n \<le> length bs \<and> contents q' = contents q @ take n bs"
    and consume_ok: "ok q \<Longrightarrow> k \<le> length (contents q) \<Longrightarrow>
      \<exists>q'. consume_bytes k q = Some q' \<and> ok q' \<and> contents q' = drop k (contents q)"
    and consume_too_much: "ok q \<Longrightarrow> length (contents q) < k \<Longrightarrow> consume_bytes k q = None"
begin

lemma bq_run_fifo:
  assumes "ok q" and "bq_run contents append_bytes consume_bytes ops q = (i, out, r)"
  shows "contents q @ i = out @ contents r \<and> ok r"
  using assms
proof (induction ops arbitrary: q i out r)
  case Nil
  then show ?case by simp
next
  case (Cons x ops)
  let ?run = "bq_run contents append_bytes consume_bytes"
  show ?case
  proof (cases x)
    case (Append bs)
    obtain n q' where ap: "append_bytes bs q = (n, q')" by fastforce
    obtain i' out' r' where rest: "?run ops q' = (i', out', r')" by (metis prod_cases3)
    have "ok q'" and q': "contents q' = contents q @ take n bs"
      using append_ok [OF Cons.prems(1) ap] by auto
    from Cons.IH [OF this(1) rest] Cons.prems(2) Append ap rest q' show ?thesis by auto
  next
    case (Consume k)
    show ?thesis
    proof (cases "consume_bytes k q")
      case None
      with Cons Consume show ?thesis by simp
    next
      case (Some q')
      obtain i' out' r' where rest: "?run ops q' = (i', out', r')" by (metis prod_cases3)
      have "k \<le> length (contents q)"
        using Some consume_too_much [OF Cons.prems(1)] by (metis linorder_not_less option.distinct(1))
      with consume_ok Cons.prems(1) Some have "ok q'" and q': "contents q' = drop k (contents q)"
        by force+
      from Cons.IH [OF this(1) rest] have "contents q' @ i' = out' @ contents r' \<and> ok r'" .
      with Cons.prems(2) Consume Some rest q' show ?thesis
        by auto (metis append.assoc append_take_drop_id)
    qed
  qed
qed

end

section \<open>Invariant and behaviour of a segment\<close>

definition seg_ok :: "data_segment \<Rightarrow> bool" where
  "seg_ok s \<longleftrightarrow>
     length (m_memory s) = unat (m_capacity s)
     \<and> unat (span_data (m_readable_span s)) + unat (span_len (m_readable_span s))
         = unat (span_data (m_writable_span s))
     \<and> unat (span_data (m_writable_span s)) + unat (span_len (m_writable_span s)) = unat (m_capacity s)
     \<and> None \<notin> set (readable_memory s)"

lemma seg_ok_capacity: "seg_ok s \<Longrightarrow> unat (m_capacity s) < 2 ^ 64"
  using unat_size_bound [of "m_capacity s"] by simp

lemma length_readable_bytes:
  assumes "seg_ok s"
  shows "length (readable_bytes s) = unat (readable_size s)"
proof -
  have "unat (span_data (m_readable_span s)) + unat (span_len (m_readable_span s)) \<le> length (m_memory s)"
    using assms by (simp add: seg_ok_def)
  then show ?thesis
    by (simp add: readable_bytes_def readable_memory_def readable_size_def subspan_def)
qed

lemma data_segment_make_ok:
  assumes "0 < n"
  shows "\<exists>s. data_segment_make n p = Some s \<and> seg_ok s \<and> readable_bytes s = [] \<and> writable_size s = n
           \<and> m_buffer s = p \<and> m_capacity s = n"
  using assms
  by (auto simp: data_segment_make_def seg_ok_def readable_bytes_def readable_memory_def subspan_def
      writable_size_def)

lemma take_drop_append_middle:
  assumes "a \<le> d" and "d + length ys \<le> length xs"
  shows "take (d - a + length ys) (drop a (take d xs @ ys @ drop (d + length ys) xs))
           = take (d - a) (drop a xs) @ ys"
  using assms by (simp add: drop_take)

lemma copy_from_ok:
  assumes ok: "seg_ok s" and len: "unat n \<le> length source" and cp: "copy_from source n s = (k, s')"
  shows "k = min (writable_size s) n"
    and "seg_ok s'"
    and "readable_memory s' = readable_memory s @ map Some (take (unat k) source)"
    and "readable_bytes s' = readable_bytes s @ take (unat k) source"
    and "unat (readable_size s') = unat (readable_size s) + unat k"
    and "unat (writable_size s') = unat (writable_size s) - unat k"
    and "m_buffer s' = m_buffer s" and "m_capacity s' = m_capacity s"
proof -
  let ?rd = "unat (span_data (m_readable_span s))" and ?rl = "unat (span_len (m_readable_span s))"
    and ?wd = "unat (span_data (m_writable_span s))" and ?wl = "unat (span_len (m_writable_span s))"
  have inv: "length (m_memory s) = unat (m_capacity s)" "?rd + ?rl = ?wd" "?wd + ?wl = unat (m_capacity s)"
    using ok by (simp_all add: seg_ok_def)
  note bound = unat_size_bound [of "m_capacity s"]
  show k: "k = min (writable_size s) n"
    using cp by (auto simp: copy_from_def writable_size_def Let_def)
  have s': "s' = snd (copy_from source n s)" using cp by simp
  have kw: "unat k \<le> ?wl" and kl: "unat k \<le> length source"
    using k len by (auto simp: writable_size_def unat_min_size)
  have kle: "k \<le> span_len (m_writable_span s)" using k by (simp add: writable_size_def)
  have rs': "m_readable_span s' = \<lparr>span_data = span_data (m_readable_span s),
               span_len = span_len (m_readable_span s) + k\<rparr>"
    and ws': "m_writable_span s' = buffer_subspan (m_writable_span s) k"
    and mem': "m_memory s' = memcpy (m_memory s) ?wd source (unat k)"
    and cap: "m_capacity s' = m_capacity s" "m_buffer s' = m_buffer s"
    using k by (simp_all add: s' copy_from_def Let_def writable_size_def)
  show "m_buffer s' = m_buffer s" "m_capacity s' = m_capacity s" by (rule cap)+
  have rl': "unat (span_len (m_readable_span s')) = ?rl + unat k"
    using rs' inv kw bound by (simp add: unat_add_size)
  have wd': "unat (span_data (m_writable_span s')) = ?wd + unat k"
    using ws' inv kw bound by (simp add: buffer_subspan_def unat_add_size)
  have wl': "unat (span_len (m_writable_span s')) = ?wl - unat k"
    using ws' kle by (simp add: buffer_subspan_def unat_sub_size)
  show "unat (readable_size s') = unat (readable_size s) + unat k"
    using rl' by (simp add: readable_size_def)
  show "unat (writable_size s') = unat (writable_size s) - unat k"
    using wl' by (simp add: writable_size_def)
  have diff: "?wd - ?rd = ?rl" using inv(2) by simp
  show mem: "readable_memory s' = readable_memory s @ map Some (take (unat k) source)"
    using take_drop_append_middle [of ?rd ?wd "map Some (take (unat k) source)" "m_memory s"] inv kw kl
    by (simp add: diff readable_memory_def subspan_def rs' rl' [unfolded rs', simplified] mem' memcpy_def)
  then show "readable_bytes s' = readable_bytes s @ take (unat k) source"
    by (simp add: readable_bytes_def comp_def)
  have "length (m_memory s') = length (m_memory s)"
    using inv kw kl by (simp add: mem' memcpy_def)
  then show "seg_ok s'"
    using ok inv kw rl' wd' wl' mem by (auto simp: seg_ok_def rs' cap)
qed

lemma advance_read_ok:
  assumes ok: "seg_ok s" and n: "n \<le> readable_size s"
  obtains s' where "advance_read n s = Inr s'" and "seg_ok s'"
    and "readable_bytes s' = drop (unat n) (readable_bytes s)"
    and "unat (readable_size s') = unat (readable_size s) - unat n"
    and "writable_size s' = writable_size s" and "m_buffer s' = m_buffer s"
    and "m_capacity s' = m_capacity s"
proof -
  let ?s = "s\<lparr>m_readable_span := buffer_subspan (m_readable_span s) n\<rparr>"
  let ?rd = "unat (span_data (m_readable_span s))" and ?rl = "unat (span_len (m_readable_span s))"
  have nle: "n \<le> span_len (m_readable_span s)" using n by (simp add: readable_size_def)
  then have nrl: "unat n \<le> ?rl" by (simp add: size_le_iff)
  have wd: "?rd + ?rl \<le> unat (m_capacity s)" using ok by (auto simp: seg_ok_def)
  have rd': "unat (span_data (m_readable_span s) + n) = ?rd + unat n"
    using wd nrl unat_size_bound [of "m_capacity s"] by (simp add: unat_add_size)
  have rl': "unat (span_len (m_readable_span s) - n) = ?rl - unat n"
    using nle by (simp add: unat_sub_size)
  have mem: "readable_memory ?s = drop (unat n) (readable_memory s)"
    by (simp add: readable_memory_def subspan_def buffer_subspan_def rd' rl' drop_take
        add.commute [of "unat n" ?rd])
  then have "seg_ok ?s"
    using ok nrl by (auto simp: seg_ok_def buffer_subspan_def rd' rl' dest: in_set_dropD)
  moreover have "readable_bytes ?s = drop (unat n) (readable_bytes s)"
    by (simp add: readable_bytes_def mem drop_map)
  moreover have "advance_read n s = Inr ?s" using nle by (simp add: advance_read_def)
  ultimately show thesis
    using rl' by (intro that [of ?s]) (simp_all add: readable_size_def writable_size_def buffer_subspan_def)
qed

lemma advance_read_error:
  "readable_size s < n \<Longrightarrow> advance_read n s = Inl (std_out_of_range ''consume size exceeds readable size'')"
  by (simp add: advance_read_def readable_size_def)

section \<open>A segment is a store of bytes\<close>

definition seg_append :: "byte list \<Rightarrow> data_segment \<Rightarrow> nat \<times> data_segment" where
  "seg_append bs s = (case copy_from bs (span_size bs) s of (k, s') \<Rightarrow> (unat k, s'))"

definition seg_consume :: "nat \<Rightarrow> data_segment \<Rightarrow> data_segment option" where
  "seg_consume k s =
     (if k < 2 ^ 64
      then case advance_read (of_nat k) s of Inl e \<Rightarrow> None | Inr s' \<Rightarrow> Some s'
      else None)"

lemma unat_span_size_le: "unat (span_size xs) \<le> length xs"
  by (simp add: span_size_def unat_of_nat)

interpretation seg: byte_queue seg_ok readable_bytes seg_append seg_consume
proof unfold_locales
  fix q bs n q'
  assume ok: "seg_ok q" and ap: "seg_append bs q = (n, q')"
  then obtain k where k: "copy_from bs (span_size bs) q = (k, q')" "n = unat k"
    by (auto simp: seg_append_def split: prod.splits)
  note cf = copy_from_ok [OF ok unat_span_size_le k(1)]
  have "unat k \<le> unat (span_size bs)" using cf(1) by (simp add: unat_min_size)
  then have "unat k \<le> length bs" using unat_span_size_le [of bs] by linarith
  then show "seg_ok q' \<and> n \<le> length bs \<and> readable_bytes q' = readable_bytes q @ take n bs"
    using cf k(2) by blast
next
  fix q k
  assume ok: "seg_ok q" and k: "k \<le> length (readable_bytes q)"
  have small: "k < 2 ^ 64"
    using k length_readable_bytes [OF ok] unat_size_bound [of "readable_size q"] by simp
  then have "of_nat k \<le> readable_size q"
    using k length_readable_bytes [OF ok] by (simp add: size_le_iff unat_of_nat_size)
  from advance_read_ok [OF ok this] small
  show "\<exists>q'. seg_consume k q = Some q' \<and> seg_ok q' \<and> readable_bytes q' = drop k (readable_bytes q)"
    by (metis (no_types, lifting) old.sum.simps(6) seg_consume_def unat_of_nat_size)
next
  fix q k
  assume ok: "seg_ok q" and k: "length (readable_bytes q) < k"
  then have "readable_size q < of_nat k" if "k < 2 ^ 64"
    using that length_readable_bytes [OF ok] by (simp add: size_less_iff unat_of_nat_size)
  then show "seg_consume k q = None"
    by (auto simp: seg_consume_def advance_read_error)
qed

section \<open>Properties\<close>

text \<open>A segment is a first-in first-out store: for every sequence of copies and reads on a fresh
  segment, the bytes accepted by \<open>copy_from\<close> are exactly the bytes consumed followed by the bytes
  still readable, no readable byte was never written, and the spans stay inside the buffer.\<close>

lemma data_segment_fifo:
  assumes "data_segment_make n p = Some s"
    and "bq_run readable_bytes seg_append seg_consume ops s = (accepted, consumed, s')"
  shows "accepted = consumed @ readable_bytes s' \<and> None \<notin> set (readable_memory s') \<and> seg_ok s'"
proof -
  have "0 < n" using assms(1) by (simp add: data_segment_make_def split: if_splits)
  from data_segment_make_ok [OF this, of p] assms(1) have "seg_ok s" "readable_bytes s = []" by auto
  then show ?thesis
    using seg.bq_run_fifo [OF _ assms(2)] by (auto simp: seg_ok_def)
qed

lemma data_segment_fifo_witness:
  "[1, 2, 3, 4] = [1, 2] @ readable_bytes (snd (snd (bq_run readable_bytes seg_append seg_consume
      [Append [1, 2, 3], Consume 2, Append [4, 5]] (the (data_segment_make 4 (0, 0))))))
   \<and> None \<notin> set (readable_memory (snd (snd (bq_run readable_bytes seg_append seg_consume
      [Append [1, 2, 3], Consume 2, Append [4, 5]] (the (data_segment_make 4 (0, 0)))))))
   \<and> seg_ok (snd (snd (bq_run readable_bytes seg_append seg_consume
      [Append [1, 2, 3], Consume 2, Append [4, 5]] (the (data_segment_make 4 (0, 0))))))"
proof (rule data_segment_fifo)
  show "data_segment_make 4 (0, 0) = Some (the (data_segment_make 4 (0, 0)))"
    by (simp add: data_segment_make_def)
  show "bq_run readable_bytes seg_append seg_consume [Append [1, 2, 3], Consume 2, Append [4, 5]]
      (the (data_segment_make 4 (0, 0))) = ([1, 2, 3, 4], [1, 2],
        snd (snd (bq_run readable_bytes seg_append seg_consume
      [Append [1, 2, 3], Consume 2, Append [4, 5]] (the (data_segment_make 4 (0, 0))))))"
    by (simp add: data_segment_make_def seg_append_def seg_consume_def copy_from_def advance_read_def
        Let_def readable_bytes_def readable_memory_def subspan_def memcpy_def buffer_subspan_def
        span_size_def min_def)
qed

end
