(* ===== verification/Position.thy ===== *)
theory Position
  imports Xtd_Prelude
begin

text \<open>
  \<open>pipeline/position.h\<close>: the cursor into a read snapshot.  A position is an absolute byte offset
  with a flag that says whether a search found it.  All arithmetic is \<open>std::size_t\<close> arithmetic and
  wraps; the comparison operators look at the offset only.  Post-increment and post-decrement
  return the previous value together with the updated object.
\<close>

section \<open>The structure and its operators\<close>

record position =
  m_offset :: size_t
  found :: bool

definition position_at :: "size_t \<Rightarrow> position" where
  "position_at offset = \<lparr>m_offset = offset, found = True\<rparr>"

definition position_none :: position where
  "position_none = \<lparr>m_offset = 0, found = False\<rparr>"

definition pos_call :: "position \<Rightarrow> bool" where
  "pos_call p = found p"

definition pos_bool :: "position \<Rightarrow> bool" where
  "pos_bool p = found p"

definition sequence_offset :: "position \<Rightarrow> size_t" where
  "sequence_offset p = m_offset p"

definition pos_plus :: "position \<Rightarrow> size_t \<Rightarrow> position" where
  "pos_plus p offset = position_at (m_offset p + offset)"

definition pos_minus :: "position \<Rightarrow> size_t \<Rightarrow> position" where
  "pos_minus p offset = position_at (m_offset p - offset)"

definition pos_add_assign :: "position \<Rightarrow> size_t \<Rightarrow> position" where
  "pos_add_assign p offset = p\<lparr>m_offset := m_offset p + offset\<rparr>"

definition pos_sub_assign :: "position \<Rightarrow> size_t \<Rightarrow> position" where
  "pos_sub_assign p offset = p\<lparr>m_offset := m_offset p - offset\<rparr>"

definition pos_pre_inc :: "position \<Rightarrow> position" where
  "pos_pre_inc p = p\<lparr>m_offset := m_offset p + 1\<rparr>"

definition pos_pre_dec :: "position \<Rightarrow> position" where
  "pos_pre_dec p = p\<lparr>m_offset := m_offset p - 1\<rparr>"

definition pos_post_inc :: "position \<Rightarrow> position \<times> position" where
  "pos_post_inc p = (let previous = p in (previous, pos_pre_inc p))"

definition pos_post_dec :: "position \<Rightarrow> position \<times> position" where
  "pos_post_dec p = (let previous = p in (previous, pos_pre_dec p))"

definition pos_eq :: "position \<Rightarrow> position \<Rightarrow> bool" where
  "pos_eq p q \<longleftrightarrow> m_offset p = m_offset q"

definition pos_ne :: "position \<Rightarrow> position \<Rightarrow> bool" where
  "pos_ne p q \<longleftrightarrow> \<not> pos_eq p q"

definition pos_gt :: "position \<Rightarrow> position \<Rightarrow> bool" where
  "pos_gt p q \<longleftrightarrow> m_offset p > m_offset q"

definition pos_lt :: "position \<Rightarrow> position \<Rightarrow> bool" where
  "pos_lt p q \<longleftrightarrow> m_offset p < m_offset q"

definition pos_ge :: "position \<Rightarrow> position \<Rightarrow> bool" where
  "pos_ge p q \<longleftrightarrow> m_offset p \<ge> m_offset q"

definition pos_le :: "position \<Rightarrow> position \<Rightarrow> bool" where
  "pos_le p q \<longleftrightarrow> m_offset p \<le> m_offset q"

lemmas position_defs =
  position_at_def position_none_def pos_call_def pos_bool_def sequence_offset_def pos_plus_def
  pos_minus_def pos_add_assign_def pos_sub_assign_def pos_pre_inc_def pos_pre_dec_def
  pos_post_inc_def pos_post_dec_def pos_eq_def pos_ne_def pos_gt_def pos_lt_def pos_ge_def
  pos_le_def

section \<open>Cursor arithmetic\<close>

text \<open>
  What a client of a cursor type may rely on: moving by an amount and back is the identity on the
  order the cursor is compared by, and that order is total.
\<close>

locale cursor =
  fixes fwd :: "'c \<Rightarrow> size_t \<Rightarrow> 'c"
    and bwd :: "'c \<Rightarrow> size_t \<Rightarrow> 'c"
    and same :: "'c \<Rightarrow> 'c \<Rightarrow> bool"
    and below :: "'c \<Rightarrow> 'c \<Rightarrow> bool"
    and offset_of :: "'c \<Rightarrow> size_t"
  assumes offset_fwd: "offset_of (fwd c k) = offset_of c + k"
    and offset_bwd: "offset_of (bwd c k) = offset_of c - k"
    and same_iff: "same c d \<longleftrightarrow> offset_of c = offset_of d"
    and below_iff: "below c d \<longleftrightarrow> offset_of c < offset_of d"
begin

lemma fwd_bwd: "same (bwd (fwd c k) k) c"
  by (simp add: same_iff offset_fwd offset_bwd)

lemma bwd_fwd: "same (fwd (bwd c k) k) c"
  by (simp add: same_iff offset_fwd offset_bwd)

lemma fwd_fwd: "same (fwd (fwd c j) k) (fwd c (j + k))"
  by (simp add: same_iff offset_fwd add.assoc)

lemma trichotomy: "below c d \<or> same c d \<or> below d c"
  by (auto simp: below_iff same_iff)

text \<open>Moving forward moves up in the order exactly when the addition does not wrap.\<close>

lemma fwd_below_iff:
  assumes "0 < k"
  shows "below c (fwd c k) \<longleftrightarrow> unat (offset_of c) + unat k < 2 ^ 64"
proof -
  have "0 < unat k" using assms by (simp add: word_less_nat_alt)
  then show ?thesis
    using unat_size_bound [of "offset_of c"] unat_size_bound [of k]
    by (auto simp: below_iff offset_fwd size_less_iff unat_plus_if')
qed

end

interpretation pos: cursor pos_plus pos_minus pos_eq pos_lt sequence_offset
  by unfold_locales (auto simp: position_defs)

interpretation pos_assign: cursor pos_add_assign pos_sub_assign pos_eq pos_lt sequence_offset
  by unfold_locales (auto simp: position_defs)

section \<open>Properties\<close>

text \<open>Position arithmetic is exact modulo \<open>2\<^sup>6\<^sup>4\<close>: stepping forward and back by the same amount
  gives an equal position, and a forward step gives a greater position exactly when it is not zero
  and does not wrap.  \<open>operator+\<close> and \<open>operator-\<close> always return a found position, even from one that
  was not found, while \<open>+=\<close> and \<open>-=\<close> keep the flag.\<close>

lemma position_arithmetic:
  "pos_eq (pos_minus (pos_plus p k) k) p \<and> pos_eq (pos_plus (pos_minus p k) k) p
   \<and> (pos_lt p (pos_plus p k) \<longleftrightarrow> k \<noteq> 0 \<and> unat (sequence_offset p) + unat k < 2 ^ 64)
   \<and> pos_bool (pos_plus p k) \<and> pos_bool (pos_minus p k)
   \<and> pos_bool (pos_add_assign p k) = pos_bool p \<and> pos_bool (pos_sub_assign p k) = pos_bool p"
proof -
  have "pos_lt p (pos_plus p k) \<longleftrightarrow> k \<noteq> 0 \<and> unat (sequence_offset p) + unat k < 2 ^ 64"
  proof (cases "k = 0")
    case True
    then show ?thesis by (simp add: position_defs)
  next
    case False
    then have "0 < k" by (simp add: word_neq_0_conv)
    from pos.fwd_below_iff [OF this] False show ?thesis by blast
  qed
  then show ?thesis
    using pos.fwd_bwd [of p k] pos.bwd_fwd [of p k] by (simp add: position_defs)
qed

end
