(* ===== verification/Segmented_Byte_View.thy ===== *)
theory Segmented_Byte_View
  imports Position
begin

text \<open>
  \<open>pipeline/segmented_byte_view.h\<close>: a logical byte sequence over several spans.  A view is the list
  of its spans, the absolute offset of its first byte and its size.  Positions given to a view are
  absolute; plain offsets are relative to its beginning.

  Overloads of one C++ name get a suffix for their parameter types.  An operation that can reach
  \<open>std::unreachable()\<close> or call \<open>front()\<close> on an empty vector returns an option with \<open>None\<close> there; the
  properties show that a well-formed view never does.  A string is the list of its bytes.

  The reference for every operation is the flat byte list \<open>view_bytes\<close>, the concatenation of the
  spans.  The locale \<open>byte_sequence\<close> is what a parser relies on; it is interpreted on the view.
\<close>

section \<open>Standard library searches\<close>

fun find_index :: "('a \<Rightarrow> bool) \<Rightarrow> 'a list \<Rightarrow> nat option" where
  "find_index P [] = None"
| "find_index P (x # xs) = (if P x then Some 0 else map_option Suc (find_index P xs))"

text \<open>\<open>std::ranges::search\<close>: the first index at which the pattern occurs.\<close>

fun search :: "'a list \<Rightarrow> 'a list \<Rightarrow> nat option" where
  "search [] pat = (if pat = [] then Some 0 else None)"
| "search (x # xs) pat =
     (if take (length pat) (x # xs) = pat then Some 0 else map_option Suc (search xs pat))"

section \<open>The structure and its operations\<close>

record segmented_byte_view =
  m_segments :: "byte list list"
  m_begin_offset :: size_t
  m_size :: size_t

record slice_range =
  range_begin :: size_t
  range_end :: size_t

definition view_make :: "byte list list \<Rightarrow> size_t \<Rightarrow> segmented_byte_view" where
  "view_make segments sz = \<lparr>m_segments = segments, m_begin_offset = 0, m_size = sz\<rparr>"

definition view_empty :: segmented_byte_view where
  "view_empty = \<lparr>m_segments = [], m_begin_offset = 0, m_size = 0\<rparr>"

definition end_offset :: "segmented_byte_view \<Rightarrow> size_t" where
  "end_offset v = m_begin_offset v + m_size v"

definition validate_slice_range :: "size_t \<Rightarrow> size_t \<Rightarrow> segmented_byte_view \<Rightarrow> unit throws" where
  "validate_slice_range slice_begin slice_end v =
     (if slice_begin > slice_end then Inl (std_out_of_range ''slice begin must be <= slice end'')
      else if \<not> (slice_begin \<ge> m_begin_offset v \<and> slice_begin \<le> end_offset v)
        then Inl (std_out_of_range ''slice begin is out of range'')
      else if \<not> (slice_end \<ge> m_begin_offset v \<and> slice_end \<le> end_offset v)
        then Inl (std_out_of_range ''slice end is out of range'')
      else Inr ())"

definition validate_relative_slice :: "size_t \<Rightarrow> size_t \<Rightarrow> segmented_byte_view \<Rightarrow> unit throws" where
  "validate_relative_slice begin_offset sz v =
     (if begin_offset > m_size v then Inl (std_out_of_range ''slice begin offset is out of range'')
      else if sz > m_size v - begin_offset then Inl (std_out_of_range ''slice size is out of range'')
      else Inr ())"

definition resolve_slice_range_end :: "position \<Rightarrow> segmented_byte_view \<Rightarrow> slice_range throws" where
  "resolve_slice_range_end e v =
     Inr \<lparr>range_begin = m_begin_offset v, range_end = sequence_offset e\<rparr>"

definition resolve_slice_range_pos :: "position \<Rightarrow> position \<Rightarrow> segmented_byte_view \<Rightarrow> slice_range throws" where
  "resolve_slice_range_pos b e v =
     Inr \<lparr>range_begin = sequence_offset b, range_end = sequence_offset e\<rparr>"

definition resolve_slice_range_off_pos :: "size_t \<Rightarrow> position \<Rightarrow> segmented_byte_view \<Rightarrow> slice_range throws" where
  "resolve_slice_range_off_pos begin_offset e v =
     (if begin_offset > m_size v then Inl (std_out_of_range ''slice begin offset is out of range'')
      else Inr \<lparr>range_begin = m_begin_offset v + begin_offset, range_end = sequence_offset e\<rparr>)"

definition resolve_slice_range_off :: "size_t \<Rightarrow> size_t \<Rightarrow> segmented_byte_view \<Rightarrow> slice_range throws" where
  "resolve_slice_range_off begin_offset sz v =
     (case validate_relative_slice begin_offset sz v of
        Inl e \<Rightarrow> Inl e
      | Inr _ \<Rightarrow>
          (let absolute_begin = m_begin_offset v + begin_offset in
             Inr \<lparr>range_begin = absolute_begin, range_end = absolute_begin + sz\<rparr>))"

fun slice_loop :: "size_t \<Rightarrow> size_t \<Rightarrow> size_t \<Rightarrow> byte list list \<Rightarrow> byte list list" where
  "slice_loop slice_begin slice_end segment_begin [] = []"
| "slice_loop slice_begin slice_end segment_begin (segment # rest) =
     (let segment_end = segment_begin + span_size segment in
      if segment_end \<le> slice_begin then slice_loop slice_begin slice_end segment_end rest
      else if segment_begin \<ge> slice_end then []
      else
        (let overlap_begin = max segment_begin slice_begin;
             overlap_end = min segment_end slice_end
         in subspan segment (overlap_begin - segment_begin) (overlap_end - overlap_begin)
            # slice_loop slice_begin slice_end segment_end rest))"

definition make_slice_segments :: "size_t \<Rightarrow> size_t \<Rightarrow> segmented_byte_view \<Rightarrow> byte list list throws" where
  "make_slice_segments slice_begin slice_end v =
     (case validate_slice_range slice_begin slice_end v of
        Inl e \<Rightarrow> Inl e
      | Inr _ \<Rightarrow>
          Inr (if slice_begin = slice_end then []
               else slice_loop slice_begin slice_end (m_begin_offset v) (m_segments v)))"

text \<open>The constructor from a source view and a range, and the in-place variant, which assigns the
  same three fields.\<close>

definition view_slice :: "segmented_byte_view \<Rightarrow> slice_range \<Rightarrow> segmented_byte_view throws" where
  "view_slice source rng =
     (case make_slice_segments (range_begin rng) (range_end rng) source of
        Inl e \<Rightarrow> Inl e
      | Inr segs \<Rightarrow>
          Inr \<lparr>m_segments = segs, m_begin_offset = range_begin rng,
               m_size = range_end rng - range_begin rng\<rparr>)"

definition slice_in_place_absolute :: "slice_range \<Rightarrow> segmented_byte_view \<Rightarrow> segmented_byte_view throws" where
  "slice_in_place_absolute rng v =
     (case make_slice_segments (range_begin rng) (range_end rng) v of
        Inl e \<Rightarrow> Inl e
      | Inr segs \<Rightarrow>
          Inr (v\<lparr>m_segments := segs, m_begin_offset := range_begin rng,
                 m_size := range_end rng - range_begin rng\<rparr>))"

definition view_begin :: "segmented_byte_view \<Rightarrow> position" where
  "view_begin v = position_at (m_begin_offset v)"

definition view_end :: "segmented_byte_view \<Rightarrow> position" where
  "view_end v = position_at (end_offset v)"

definition is_single_segment :: "segmented_byte_view \<Rightarrow> bool" where
  "is_single_segment v \<longleftrightarrow> span_size (m_segments v) = 1"

definition view_size :: "segmented_byte_view \<Rightarrow> size_t" where
  "view_size v = m_size v"

definition view_is_empty :: "segmented_byte_view \<Rightarrow> bool" where
  "view_is_empty v \<longleftrightarrow> m_size v = 0"

definition segment_count :: "segmented_byte_view \<Rightarrow> size_t" where
  "segment_count v = span_size (m_segments v)"

definition view_segments :: "segmented_byte_view \<Rightarrow> byte list list" where
  "view_segments v = m_segments v"

definition bind_range :: "slice_range throws \<Rightarrow> (slice_range \<Rightarrow> 'a throws) \<Rightarrow> 'a throws" where
  "bind_range r f = (case r of Inl e \<Rightarrow> Inl e | Inr rg \<Rightarrow> f rg)"

definition slice_end :: "position \<Rightarrow> segmented_byte_view \<Rightarrow> segmented_byte_view throws" where
  "slice_end e v = bind_range (resolve_slice_range_end e v) (view_slice v)"

definition slice_pos :: "position \<Rightarrow> position \<Rightarrow> segmented_byte_view \<Rightarrow> segmented_byte_view throws" where
  "slice_pos b e v = bind_range (resolve_slice_range_pos b e v) (view_slice v)"

definition slice_off_pos :: "size_t \<Rightarrow> position \<Rightarrow> segmented_byte_view \<Rightarrow> segmented_byte_view throws" where
  "slice_off_pos begin_offset e v = bind_range (resolve_slice_range_off_pos begin_offset e v) (view_slice v)"

definition slice_off :: "size_t \<Rightarrow> size_t \<Rightarrow> segmented_byte_view \<Rightarrow> segmented_byte_view throws" where
  "slice_off begin_offset sz v = bind_range (resolve_slice_range_off begin_offset sz v) (view_slice v)"

definition slice_in_place_end :: "position \<Rightarrow> segmented_byte_view \<Rightarrow> segmented_byte_view throws" where
  "slice_in_place_end e v =
     bind_range (resolve_slice_range_end e v) (\<lambda>r. slice_in_place_absolute r v)"

definition slice_in_place_pos :: "position \<Rightarrow> position \<Rightarrow> segmented_byte_view \<Rightarrow> segmented_byte_view throws" where
  "slice_in_place_pos b e v =
     bind_range (resolve_slice_range_pos b e v) (\<lambda>r. slice_in_place_absolute r v)"

definition slice_in_place_off_pos :: "size_t \<Rightarrow> position \<Rightarrow> segmented_byte_view \<Rightarrow> segmented_byte_view throws" where
  "slice_in_place_off_pos begin_offset e v =
     bind_range (resolve_slice_range_off_pos begin_offset e v) (\<lambda>r. slice_in_place_absolute r v)"

definition slice_in_place_off :: "size_t \<Rightarrow> size_t \<Rightarrow> segmented_byte_view \<Rightarrow> segmented_byte_view throws" where
  "slice_in_place_off begin_offset sz v =
     bind_range (resolve_slice_range_off begin_offset sz v) (\<lambda>r. slice_in_place_absolute r v)"

subsection \<open>Indexing\<close>

definition span_at :: "byte list \<Rightarrow> size_t \<Rightarrow> byte option" where
  "span_at xs i = (if unat i < length xs then Some (xs ! unat i) else None)"

text \<open>The loop of \<open>operator[](from_end)\<close> over the segments in reverse order.\<close>

fun from_end_loop :: "size_t \<Rightarrow> byte list list \<Rightarrow> byte option" where
  "from_end_loop remaining [] = None"
| "from_end_loop remaining (segment # rest) =
     (if remaining < span_size segment then span_at segment (span_size segment - 1 - remaining)
      else from_end_loop (remaining - span_size segment) rest)"

definition index_from_end :: "size_t \<Rightarrow> segmented_byte_view \<Rightarrow> byte throws option" where
  "index_from_end offset v =
     (if \<not> (offset > 0 \<and> offset \<le> m_size v)
      then Some (Inl (std_out_of_range ''from_end offset is out of range''))
      else map_option Inr (from_end_loop (offset - 1) (rev (m_segments v))))"

fun index_loop :: "size_t \<Rightarrow> size_t \<Rightarrow> byte list list \<Rightarrow> byte option" where
  "index_loop index segment_begin [] = None"
| "index_loop index segment_begin (segment # rest) =
     (let segment_end = segment_begin + span_size segment in
      if index < segment_end then span_at segment (index - segment_begin)
      else index_loop index segment_end rest)"

definition index_at :: "size_t \<Rightarrow> segmented_byte_view \<Rightarrow> byte throws option" where
  "index_at index v =
     (if index \<ge> m_size v then Some (Inl (std_out_of_range ''index is out of range''))
      else map_option Inr (index_loop index 0 (m_segments v)))"

definition index_position :: "position \<Rightarrow> segmented_byte_view \<Rightarrow> byte throws option" where
  "index_position pos v =
     (let absolute_offset = sequence_offset pos in
      if \<not> (absolute_offset \<ge> m_begin_offset v \<and> absolute_offset < end_offset v)
      then Some (Inl (std_out_of_range ''position is out of range''))
      else index_at (absolute_offset - m_begin_offset v) v)"

subsection \<open>Searching\<close>

text \<open>The per-segment loop shared by \<open>position_of\<close> (with \<open>memchr\<close>) and \<open>position_of_any\<close> (with
  \<open>find_first_of\<close>); both add the sizes of the segments passed to the running offset.\<close>

fun find_loop :: "(byte \<Rightarrow> bool) \<Rightarrow> size_t \<Rightarrow> byte list list \<Rightarrow> position" where
  "find_loop P offset [] = position_none"
| "find_loop P offset (segment # rest) =
     (case find_index P segment of
        Some i \<Rightarrow> position_at (offset + of_nat i)
      | None \<Rightarrow> find_loop P (offset + span_size segment) rest)"

definition position_of :: "byte \<Rightarrow> segmented_byte_view \<Rightarrow> position" where
  "position_of value v =
     (if m_size v = 0 then position_none
      else find_loop (\<lambda>b. b = value) (m_begin_offset v) (m_segments v))"

definition byte_of_char :: "char \<Rightarrow> byte" where
  "byte_of_char c = of_char c"

definition position_of_char :: "char \<Rightarrow> segmented_byte_view \<Rightarrow> position" where
  "position_of_char value v = position_of (byte_of_char value) v"

definition position_of_any :: "byte list \<Rightarrow> segmented_byte_view \<Rightarrow> position" where
  "position_of_any values v =
     (case values of
        [] \<Rightarrow> position_none
      | [value] \<Rightarrow> position_of value v
      | _ \<Rightarrow> find_loop (\<lambda>b. b \<in> set values) (m_begin_offset v) (m_segments v))"

definition position_of_any_chars :: "string \<Rightarrow> segmented_byte_view \<Rightarrow> position" where
  "position_of_any_chars values v = position_of_any (map byte_of_char values) v"

fun sequence_loop :: "byte list \<Rightarrow> byte list \<Rightarrow> bool \<Rightarrow> size_t \<Rightarrow> size_t \<Rightarrow> byte list list \<Rightarrow> position" where
  "sequence_loop sequence joined single begin_off segment_offset [] = position_none"
| "sequence_loop sequence joined single begin_off segment_offset (segment # rest) =
     (case search segment sequence of
        Some i \<Rightarrow> position_at (begin_off + segment_offset + of_nat i)
      | None \<Rightarrow>
          if single then position_none
          else
            (let tail_size = min (span_size segment) (span_size sequence - 1);
                 boundary_offset = segment_offset + span_size segment - tail_size;
                 boundary_size = tail_size + span_size sequence - 1;
                 boundary = take (unat boundary_size) (drop (unat boundary_offset) joined)
             in case (if tail_size \<noteq> 0 then search boundary sequence else None) of
                  Some j \<Rightarrow> position_at (begin_off + boundary_offset + of_nat j)
                | None \<Rightarrow>
                    sequence_loop sequence joined single begin_off
                      (segment_offset + span_size segment) rest))"

definition position_of_sequence :: "byte list \<Rightarrow> segmented_byte_view \<Rightarrow> position" where
  "position_of_sequence sequence v =
     (if sequence = [] \<or> span_size sequence > m_size v then position_none
      else if span_size sequence = 1 then position_of (hd sequence) v
      else sequence_loop sequence (concat (m_segments v)) (is_single_segment v)
             (m_begin_offset v) 0 (m_segments v))"

definition position_of_sequence_chars :: "string \<Rightarrow> segmented_byte_view \<Rightarrow> position" where
  "position_of_sequence_chars sequence v = position_of_sequence (map byte_of_char sequence) v"

subsection \<open>Copying\<close>

text \<open>\<open>std::ranges::copy\<close> of a span to a destination from an index on.\<close>

definition copy_at :: "byte list \<Rightarrow> nat \<Rightarrow> byte list \<Rightarrow> byte list" where
  "copy_at src at destination = take at destination @ src @ drop (at + length src) destination"

fun copy_loop :: "size_t \<Rightarrow> size_t \<Rightarrow> byte list list \<Rightarrow> byte list \<Rightarrow> size_t \<times> byte list" where
  "copy_loop target_len copied [] destination = (copied, destination)"
| "copy_loop target_len copied (segment # rest) destination =
     (if copied = target_len then (copied, destination)
      else
        (let chunk_size = min (span_size segment) (target_len - copied) in
           copy_loop target_len (copied + chunk_size) rest
             (copy_at (subspan segment 0 chunk_size) (unat copied) destination)))"

definition copy_to :: "byte list \<Rightarrow> segmented_byte_view \<Rightarrow> size_t \<times> byte list" where
  "copy_to destination v =
     (let target_len = min (span_size destination) (m_size v) in
      if target_len = 0 then (0, destination)
      else if is_single_segment v
        then (target_len, copy_at (subspan (hd (m_segments v)) 0 target_len) 0 destination)
      else copy_loop target_len 0 (m_segments v) destination)"

text \<open>The pointer overload: \<open>None\<close> is the null pointer, \<open>Some mem\<close> the memory it points to.\<close>

definition copy_to_pointer ::
  "byte list option \<Rightarrow> size_t \<Rightarrow> segmented_byte_view \<Rightarrow> (size_t \<times> byte list option) throws"
where
  "copy_to_pointer destination destination_size v =
     (if \<not> (destination \<noteq> None \<or> destination_size = 0)
      then Inl (std_invalid_argument ''destination must not be null when destination_size > 0'')
      else
        (case destination of
           None \<Rightarrow> Inr (fst (copy_to [] v), None)
         | Some mem \<Rightarrow>
             (case copy_to (take (unat destination_size) mem) v of (n, d) \<Rightarrow>
                Inr (n, Some (d @ drop (unat destination_size) mem)))))"

definition copy_to_vector :: "byte list \<Rightarrow> segmented_byte_view \<Rightarrow> size_t \<times> byte list" where
  "copy_to_vector destination v = copy_to destination v"

text \<open>The typed overload, given the object representation of the destination.\<close>

definition copy_to_object :: "byte list \<Rightarrow> segmented_byte_view \<Rightarrow> (bool \<times> byte list) throws" where
  "copy_to_object destination v =
     (if span_size destination > m_size v
      then Inl (std_out_of_range ''buffer size is smaller than the size of the destination type'')
      else (case copy_to destination v of (n, d) \<Rightarrow> Inr (n = span_size destination, d)))"

definition first_segment :: "segmented_byte_view \<Rightarrow> byte list option" where
  "first_segment v = (case m_segments v of [] \<Rightarrow> None | s # _ \<Rightarrow> Some s)"

definition as_string_view :: "segmented_byte_view \<Rightarrow> byte list throws" where
  "as_string_view v =
     (if \<not> is_single_segment v
      then Inl (std_logic_error ''buffer must be a single segment to convert to string_view'')
      else Inr (take (unat (m_size v)) (hd (m_segments v))))"

definition to_string :: "segmented_byte_view \<Rightarrow> byte list" where
  "to_string v =
     (if view_is_empty v then []
      else if is_single_segment v then take (unat (m_size v)) (hd (m_segments v))
      else fold (\<lambda>segment result. result @ segment) (m_segments v) [])"

section \<open>Searches on flat lists\<close>

lemma find_index_None_iff: "find_index P xs = None \<longleftrightarrow> (\<forall>x \<in> set xs. \<not> P x)"
  by (induction xs) auto

lemma find_index_Some:
  "find_index P xs = Some i \<Longrightarrow> i < length xs \<and> P (xs ! i) \<and> (\<forall>j < i. \<not> P (xs ! j))"
proof (induction xs arbitrary: i)
  case (Cons x xs)
  then show ?case
    by (cases i) (auto simp: nth_Cons less_Suc_eq_0_disj split: if_splits nat.splits)
qed simp

lemma find_index_append:
  "find_index P (xs @ ys) =
     (case find_index P xs of Some i \<Rightarrow> Some i
      | None \<Rightarrow> map_option (\<lambda>j. length xs + j) (find_index P ys))"
  by (induction xs; cases "find_index P ys") (auto split: option.splits)

definition match_at :: "'a list \<Rightarrow> 'a list \<Rightarrow> nat \<Rightarrow> bool" where
  "match_at xs pat i \<longleftrightarrow> i + length pat \<le> length xs \<and> take (length pat) (drop i xs) = pat"

lemma match_at_Nil: "pat \<noteq> [] \<Longrightarrow> \<not> match_at [] pat i"
  by (simp add: match_at_def)

lemma match_at_0: "match_at xs pat 0 \<longleftrightarrow> take (length pat) xs = pat"
  unfolding match_at_def by (metis add_0 append_take_drop_id drop0 le_add1 length_append)

lemma match_at_Suc [simp]: "match_at (x # xs) pat (Suc i) \<longleftrightarrow> match_at xs pat i"
  by (simp add: match_at_def)

lemma search_None_iff:
  assumes "pat \<noteq> []"
  shows "search xs pat = None \<longleftrightarrow> (\<forall>i. \<not> match_at xs pat i)"
proof (induction xs)
  case Nil
  then show ?case using assms by (simp add: match_at_Nil)
next
  case (Cons x xs)
  have "(\<forall>i. \<not> match_at (x # xs) pat i)
      \<longleftrightarrow> \<not> match_at (x # xs) pat 0 \<and> (\<forall>i. \<not> match_at xs pat i)"
    by (metis match_at_Suc not0_implies_Suc)
  with Cons.IH show ?case by (simp add: match_at_0)
qed

lemma search_Some_iff:
  assumes "pat \<noteq> []"
  shows "search xs pat = Some i \<longleftrightarrow> match_at xs pat i \<and> (\<forall>j < i. \<not> match_at xs pat j)"
proof (induction xs arbitrary: i)
  case Nil
  then show ?case using assms by (simp add: match_at_Nil)
next
  case (Cons x xs)
  show ?case
  proof (cases "match_at (x # xs) pat 0")
    case True
    then show ?thesis by (cases i) (auto simp: match_at_0)
  next
    case False
    show ?thesis
    proof (cases i)
      case 0
      with False show ?thesis by (simp add: match_at_0)
    next
      case (Suc k)
      have "(\<forall>j < Suc k. \<not> match_at (x # xs) pat j) \<longleftrightarrow> (\<forall>j < k. \<not> match_at xs pat j)"
        using False by (auto simp: less_Suc_eq_0_disj)
      with Suc False Cons.IH [of k] show ?thesis by (simp add: match_at_0)
    qed
  qed
qed

lemma match_at_take_drop:
  assumes "pat \<noteq> []"
  shows "match_at (take m (drop a xs)) pat j \<longleftrightarrow> match_at xs pat (a + j) \<and> j + length pat \<le> m"
proof -
  obtain n where n: "length pat = Suc n" using assms by (cases pat) auto
  then show ?thesis
    by (auto simp: match_at_def drop_take min_def add.commute [of j a] split: if_splits)
qed

lemma match_at_append_left:
  "i + length pat \<le> length xs \<Longrightarrow> match_at (xs @ ys) pat i \<longleftrightarrow> match_at xs pat i"
  by (simp add: match_at_def)

lemma match_at_append_right: "match_at (xs @ ys) pat (length xs + i) \<longleftrightarrow> match_at ys pat i"
  by (simp add: match_at_def)

text \<open>A match inside the left part is the first match of the whole.\<close>

lemma search_append_Some:
  assumes "pat \<noteq> []" and "search xs pat = Some i"
  shows "search (xs @ ys) pat = Some i"
proof -
  have i: "match_at xs pat i" "\<forall>j < i. \<not> match_at xs pat j"
    using assms by (simp_all add: search_Some_iff)
  then have "i + length pat \<le> length xs" by (simp add: match_at_def)
  then show ?thesis
    using i assms(1) by (auto simp: search_Some_iff match_at_append_left)
qed

text \<open>
  With no match inside the left part, the first match of the whole either starts in its last
  \<open>length pat - 1\<close> bytes, where the boundary window of the code sees it, or lies in the right part.
\<close>

lemma search_append_boundary:
  assumes n: "2 \<le> length pat" and none: "search xs pat = None" and t: "t = min (length xs) (length pat - 1)"
  shows "search (xs @ ys) pat =
     (case search (take (t + length pat - 1) (drop (length xs - t) (xs @ ys))) pat of
        Some j \<Rightarrow> Some (length xs - t + j)
      | None \<Rightarrow> map_option (\<lambda>j. length xs + j) (search ys pat))"
proof -
  let ?n = "length pat" and ?a = "length xs - t"
  let ?B = "take (t + ?n - 1) (drop ?a (xs @ ys))"
  have ne: "pat \<noteq> []" using n by auto
  have noleft: "\<not> match_at (xs @ ys) pat i" if "i < ?a" for i
  proof -
    have "i + ?n \<le> length xs" using that t n by auto
    with none ne show ?thesis by (simp add: match_at_append_left search_None_iff)
  qed
  have B: "match_at ?B pat j \<longleftrightarrow> match_at (xs @ ys) pat (?a + j) \<and> j < t" for j
    using n ne by (subst match_at_take_drop) auto
  show ?thesis
  proof (cases "search ?B pat")
    case (Some j)
    then have "match_at (xs @ ys) pat (?a + j)" "\<forall>k < j. \<not> match_at (xs @ ys) pat (?a + k)"
      using ne B by (auto simp: search_Some_iff)
    moreover have "\<not> match_at (xs @ ys) pat k" if "k < ?a + j" for k
      using calculation(2) noleft that by (metis add_less_cancel_left le_add_diff_inverse not_less)
    ultimately have "search (xs @ ys) pat = Some (?a + j)" using ne by (simp add: search_Some_iff)
    with Some show ?thesis by (simp only: option.case)
  next
    case None
    have left: "\<not> match_at (xs @ ys) pat i" if "i < length xs" for i
    proof (cases "i < ?a")
      case False
      then have "i = ?a + (i - ?a)" "i - ?a < t" using that t by auto
      with None ne B show ?thesis by (metis search_None_iff)
    qed (rule noleft)
    show ?thesis
    proof (cases "search ys pat")
      case None2: None
      have "\<not> match_at (xs @ ys) pat i" for i
        using left None2 ne match_at_append_right [of xs ys pat]
        by (metis le_add_diff_inverse not_less search_None_iff)
      then have "search (xs @ ys) pat = None" using ne by (simp add: search_None_iff)
      with None None2 show ?thesis by (simp only: option.case option.map)
    next
      case (Some j)
      then have "match_at (xs @ ys) pat (length xs + j)" "\<forall>k < j. \<not> match_at (xs @ ys) pat (length xs + k)"
        using ne by (auto simp: search_Some_iff match_at_append_right)
      moreover have "\<not> match_at (xs @ ys) pat k" if "k < length xs + j" for k
        using calculation(2) left that by (metis add_less_cancel_left le_add_diff_inverse not_less)
      ultimately have "search (xs @ ys) pat = Some (length xs + j)"
        using ne by (simp add: search_Some_iff)
      with None Some show ?thesis by (simp only: option.case option.map)
    qed
  qed
qed

section \<open>Well-formed views\<close>

definition view_bytes :: "segmented_byte_view \<Rightarrow> byte list" where
  "view_bytes v = concat (m_segments v)"

definition view_ok :: "segmented_byte_view \<Rightarrow> bool" where
  "view_ok v \<longleftrightarrow>
     length (view_bytes v) = unat (m_size v)
     \<and> unat (m_begin_offset v) + unat (m_size v) < 2 ^ 64
     \<and> length (m_segments v) < 2 ^ 64"

lemma view_ok_length: "view_ok v \<Longrightarrow> length (view_bytes v) = unat (m_size v)"
  by (simp add: view_ok_def)

lemma unat_end_offset: "view_ok v \<Longrightarrow> unat (end_offset v) = unat (m_begin_offset v) + unat (m_size v)"
  by (simp add: view_ok_def end_offset_def unat_add_size)

lemma view_make_ok:
  "length (concat segs) = unat sz \<Longrightarrow> length segs < 2 ^ 64 \<Longrightarrow> view_ok (view_make segs sz)"
  using unat_size_bound [of sz] by (simp add: view_ok_def view_make_def view_bytes_def)

lemma view_empty_ok: "view_ok view_empty"
  by (simp add: view_ok_def view_empty_def view_bytes_def)

lemma single_segment_bytes:
  assumes "view_ok v" and "is_single_segment v"
  shows "m_segments v = [view_bytes v]"
proof -
  have "unat (span_size (m_segments v)) = length (m_segments v)"
    using assms(1) by (simp add: view_ok_def unat_span_size)
  then have "length (m_segments v) = 1" using assms(2) by (simp add: is_single_segment_def)
  then show ?thesis by (cases "m_segments v") (auto simp: view_bytes_def)
qed

subsection \<open>Slicing\<close>

lemma concat_slice_loop:
  assumes "unat sb + length (concat segs) < 2 ^ 64" and be: "b \<le> e"
  shows "concat (slice_loop b e sb segs)
       = take (unat e - max (unat b) (unat sb)) (drop (unat b - unat sb) (concat segs))"
  using assms(1)
proof (induction segs arbitrary: sb)
  case Nil
  then show ?case by simp
next
  case (Cons seg rest)
  have se: "unat (sb + span_size seg) = unat sb + length seg"
    using Cons.prems by (simp add: unat_add_size unat_span_size)
  have IH: "concat (slice_loop b e (sb + span_size seg) rest)
      = take (unat e - max (unat b) (unat sb + length seg)) (drop (unat b - (unat sb + length seg)) (concat rest))"
    using Cons.IH [of "sb + span_size seg"] Cons.prems se by simp
  consider (before) "sb + span_size seg \<le> b"
    | (after) "\<not> sb + span_size seg \<le> b" "e \<le> sb"
    | (overlap) "\<not> sb + span_size seg \<le> b" "\<not> e \<le> sb" by blast
  then show ?case
  proof cases
    case before
    then have "unat sb + length seg \<le> unat b" by (simp add: size_le_iff se)
    then show ?thesis
      using before IH by (cases "unat b = unat sb") (auto simp: Let_def max_def)
  next
    case after
    then show ?thesis by (simp add: Let_def size_le_iff)
  next
    case overlap
    then have lt: "unat b < unat sb + length seg" "unat sb < unat e"
      by (simp_all add: size_le_iff se)
    let ?ob = "max sb b" and ?oe = "min (sb + span_size seg) e"
    have ob: "unat ?ob = max (unat sb) (unat b)" by (simp add: unat_max_size)
    have oe: "unat ?oe = min (unat sb + length seg) (unat e)" by (simp add: unat_min_size se)
    have o1: "unat (?ob - sb) = max (unat sb) (unat b) - unat sb"
      using ob by (subst unat_sub_size) (auto simp: size_le_iff)
    have True: "unat b \<le> unat e" using be by (simp add: size_le_iff)
    then have "?ob \<le> ?oe" using lt ob oe by (simp add: size_le_iff)
    then have o2: "unat (?oe - ?ob) = min (unat sb + length seg) (unat e) - max (unat sb) (unat b)"
      using ob oe by (simp add: unat_sub_size)
    show ?thesis
      using overlap lt True
      by (simp add: Let_def subspan_def o1 o2 IH se)
        (cases "unat sb \<le> unat b"; cases "unat sb + length seg \<le> unat e"; simp add: max_def min_def)
  qed
qed

lemma length_slice_loop: "length (slice_loop b e sb segs) \<le> length segs"
  by (induction b e sb segs rule: slice_loop.induct) (auto simp: Let_def)

text \<open>The range check accepts exactly the ranges inside the view.\<close>

definition in_view :: "size_t \<Rightarrow> size_t \<Rightarrow> segmented_byte_view \<Rightarrow> bool" where
  "in_view b e v \<longleftrightarrow>
     unat (m_begin_offset v) \<le> unat b \<and> unat b \<le> unat e
     \<and> unat e \<le> unat (m_begin_offset v) + unat (m_size v)"

lemma validate_slice_range_iff:
  "view_ok v \<Longrightarrow> validate_slice_range b e v = Inr () \<longleftrightarrow> in_view b e v"
  by (auto simp: validate_slice_range_def in_view_def size_le_iff size_less_iff unat_end_offset)

lemma validate_slice_range_error:
  "view_ok v \<Longrightarrow> \<not> in_view b e v \<Longrightarrow> \<exists>msg. validate_slice_range b e v = Inl (std_out_of_range msg)"
  by (auto simp: validate_slice_range_def in_view_def size_le_iff size_less_iff unat_end_offset)

lemma slice_in_place_eq_slice: "slice_in_place_absolute rng v = view_slice v rng"
  by (auto simp: slice_in_place_absolute_def view_slice_def split: sum.splits)

lemma view_slice_ok:
  assumes ok: "view_ok v" and rng: "in_view b e v"
  obtains w where "view_slice v \<lparr>range_begin = b, range_end = e\<rparr> = Inr w" and "view_ok w"
    and "m_begin_offset w = b" and "m_size w = e - b"
    and "view_bytes w = take (unat e - unat b) (drop (unat b - unat (m_begin_offset v)) (view_bytes v))"
proof -
  let ?segs = "if b = e then [] else slice_loop b e (m_begin_offset v) (m_segments v)"
  let ?w = "\<lparr>m_segments = ?segs, m_begin_offset = b, m_size = e - b\<rparr>"
  have le: "b \<le> e" and bb: "unat (m_begin_offset v) \<le> unat b"
    and ee: "unat e \<le> unat (m_begin_offset v) + unat (m_size v)"
    using rng by (simp_all add: in_view_def size_le_iff)
  have sz: "unat (e - b) = unat e - unat b" using le by (simp add: unat_sub_size)
  have small: "unat (m_begin_offset v) + length (concat (m_segments v)) < 2 ^ 64"
    using ok by (simp add: view_ok_def view_bytes_def)
  have bytes: "concat ?segs = take (unat e - unat b) (drop (unat b - unat (m_begin_offset v)) (view_bytes v))"
    using concat_slice_loop [OF small le] bb by (simp add: view_bytes_def max_absorb1)
  have "view_slice v \<lparr>range_begin = b, range_end = e\<rparr> = Inr ?w"
    using validate_slice_range_iff [OF ok, THEN iffD2, OF rng]
    by (simp add: view_slice_def make_slice_segments_def)
  moreover have "view_ok ?w"
    unfolding view_ok_def view_bytes_def
  proof (intro conjI)
    show "length (concat (m_segments ?w)) = unat (m_size ?w)"
      using bytes sz bb ee view_ok_length [OF ok] by simp
    show "unat (m_begin_offset ?w) + unat (m_size ?w) < 2 ^ 64"
      using sz le unat_size_bound [of e] by (simp add: size_le_iff)
    show "length (m_segments ?w) < 2 ^ 64"
      using ok length_slice_loop [of b e "m_begin_offset v" "m_segments v"] by (simp add: view_ok_def)
  qed
  ultimately show thesis using bytes by (intro that [of ?w]) (simp_all add: view_bytes_def)
qed

lemma view_slice_error:
  assumes "view_ok v" and "\<not> in_view b e v"
  shows "\<exists>msg. view_slice v \<lparr>range_begin = b, range_end = e\<rparr> = Inl (std_out_of_range msg)"
  using validate_slice_range_error [OF assms] by (auto simp: view_slice_def make_slice_segments_def)

subsection \<open>Indexing\<close>

lemma span_at_Some: "unat i < length xs \<Longrightarrow> span_at xs i = Some (xs ! unat i)"
  by (simp add: span_at_def)

lemma index_loop_nth:
  assumes "unat sb + length (concat segs) < 2 ^ 64" and "sb \<le> i" and "unat i < unat sb + length (concat segs)"
  shows "index_loop i sb segs = Some (concat segs ! (unat i - unat sb))"
  using assms
proof (induction segs arbitrary: sb)
  case Nil
  then show ?case by (simp add: size_le_iff)
next
  case (Cons seg rest)
  have se: "unat (sb + span_size seg) = unat sb + length seg"
    using Cons.prems(1) by (simp add: unat_add_size unat_span_size)
  have d: "unat (i - sb) = unat i - unat sb" using Cons.prems(2) by (rule unat_sub_size)
  show ?case
  proof (cases "i < sb + span_size seg")
    case True
    then have "unat i - unat sb < length seg"
      using Cons.prems(2) by (simp add: size_less_iff size_le_iff se)
    then show ?thesis using True d by (simp add: Let_def span_at_def nth_append)
  next
    case False
    then have "unat sb + length seg \<le> unat i" by (simp add: size_less_iff se)
    moreover from this have "\<not> unat i - unat sb < length seg" by simp
    ultimately show ?thesis
      using False Cons.prems se Cons.IH [of "sb + span_size seg"]
      by (simp add: Let_def size_le_iff nth_append diff_diff_left)
  qed
qed

lemma index_at_ok:
  "view_ok v \<Longrightarrow> i < m_size v \<Longrightarrow> index_at i v = Some (Inr (view_bytes v ! unat i))"
  using index_loop_nth [of 0 "m_segments v" i] unat_size_bound [of "m_size v"]
  by (simp add: index_at_def view_ok_def view_bytes_def size_less_iff linorder_not_le)

lemma index_at_error:
  "\<not> i < m_size v \<Longrightarrow> index_at i v = Some (Inl (std_out_of_range ''index is out of range''))"
  by (simp add: index_at_def)

lemma rev_nth_append_end:
  assumes "r < length ys"
  shows "(xs @ ys) ! (length (xs @ ys) - 1 - r) = ys ! (length ys - 1 - r)"
proof -
  have "length (xs @ ys) - 1 - r = length xs + (length ys - 1 - r)" using assms by simp
  then show ?thesis by (simp only: nth_append_length_plus)
qed

lemma from_end_loop_nth:
  assumes "length (concat segs) < 2 ^ 64" and "unat r < length (concat segs)"
  shows "from_end_loop r (rev segs) = Some (concat segs ! (length (concat segs) - 1 - unat r))"
  using assms
proof (induction segs arbitrary: r rule: rev_induct)
  case Nil
  then show ?case by simp
next
  case (snoc seg segs)
  have ss: "unat (span_size seg) = length seg" using snoc.prems by (simp add: unat_span_size)
  show ?case
  proof (cases "r < span_size seg")
    case True
    then have r: "unat r < length seg" by (simp add: size_less_iff ss)
    have "(1 :: size_t) \<le> span_size seg" using r ss by (simp add: size_le_iff)
    then have u1: "unat (span_size seg - 1) = length seg - 1" by (simp add: unat_sub_size ss)
    moreover have "r \<le> span_size seg - 1" using r u1 by (simp add: size_le_iff)
    ultimately have "unat (span_size seg - 1 - r) = length seg - 1 - unat r" by (simp add: unat_sub_size)
    then show ?thesis
      using True r rev_nth_append_end [OF r, of "concat segs"] by (simp add: span_at_def)
  next
    case False
    then have r: "length seg \<le> unat r" by (simp add: size_less_iff ss)
    then have "unat (r - span_size seg) = unat r - length seg"
      using False by (simp add: unat_sub_size ss)
    then have "from_end_loop (r - span_size seg) (rev segs)
        = Some (concat segs ! (length (concat segs) - 1 - (unat r - length seg)))"
      using r snoc.prems snoc.IH [of "r - span_size seg"] by simp
    moreover have "length (concat segs) - 1 - (unat r - length seg)
        = length (concat (segs @ [seg])) - 1 - unat r" using r by simp
    moreover have "length (concat (segs @ [seg])) - 1 - unat r < length (concat segs)"
      using r snoc.prems(2) by simp
    ultimately show ?thesis using False by (simp add: nth_append)
  qed
qed

lemma index_from_end_ok:
  assumes ok: "view_ok v" and "0 < k" and "k \<le> m_size v"
  shows "index_from_end k v = Some (Inr (view_bytes v ! (unat (m_size v) - unat k)))"
proof -
  have k: "0 < unat k" "unat k \<le> unat (m_size v)"
    using assms(2,3) by (simp_all add: size_le_iff word_less_nat_alt)
  have "(1 :: size_t) \<le> k" using k by (simp add: size_le_iff)
  then have k1: "unat (k - 1) = unat k - 1" by (simp add: unat_sub_size)
  have "from_end_loop (k - 1) (rev (m_segments v))
      = Some (concat (m_segments v) ! (length (concat (m_segments v)) - 1 - unat (k - 1)))"
    using k k1 ok unat_size_bound [of "m_size v"]
    by (intro from_end_loop_nth) (simp_all add: view_ok_def view_bytes_def)
  then show ?thesis
    using assms k k1 view_ok_length [OF ok] by (simp add: index_from_end_def view_bytes_def)
qed

subsection \<open>Searching\<close>

text \<open>The position a search on the flat bytes denotes.\<close>

definition found_at :: "segmented_byte_view \<Rightarrow> nat option \<Rightarrow> position" where
  "found_at v r =
     (case r of None \<Rightarrow> position_none | Some i \<Rightarrow> position_at (m_begin_offset v + of_nat i))"

lemma find_loop_flat:
  "find_loop P off segs =
     (case find_index P (concat segs) of
        None \<Rightarrow> position_none | Some i \<Rightarrow> position_at (off + of_nat i))"
proof (induction segs arbitrary: off)
  case Nil
  then show ?case by simp
next
  case (Cons seg rest)
  then show ?case
    by (auto simp: find_index_append span_size_def add.assoc split: option.splits)
qed

lemma position_of_flat:
  assumes "view_ok v"
  shows "position_of b v = found_at v (find_index (\<lambda>x. x = b) (view_bytes v))"
proof (cases "m_size v = 0")
  case True
  then have "view_bytes v = []" using view_ok_length [OF assms] by simp
  with True show ?thesis by (simp add: position_of_def found_at_def)
next
  case False
  then show ?thesis by (simp add: position_of_def found_at_def find_loop_flat view_bytes_def)
qed

lemma position_of_any_flat:
  assumes "view_ok v"
  shows "position_of_any values v = found_at v (find_index (\<lambda>x. x \<in> set values) (view_bytes v))"
proof -
  have none: "find_index (\<lambda>_. False) xs = None" for xs :: "byte list"
    by (simp add: find_index_None_iff)
  show ?thesis
    using position_of_flat [OF assms]
    by (auto simp: position_of_any_def found_at_def find_loop_flat view_bytes_def none
        split: list.split)
qed

lemma search_too_long: "length xs < length pat \<Longrightarrow> search xs pat = None"
  by (subst search_None_iff) (auto simp: match_at_def)

text \<open>One turn of the search without a match inside the segment: the window over the boundary to the next
  segments is searched, then the loop goes on.\<close>

lemma sequence_loop_turn:
  fixes seg pat :: "byte list"
  assumes J: "joined = pre @ seg @ after" and small: "length joined < 2 ^ 64" and off: "unat off = length pre"
    and pat: "2 \<le> length pat" "length pat \<le> 2 ^ 63" and none: "search seg pat = None" and single: "\<not> single"
    and t: "t = min (length seg) (length pat - 1)"
  shows "sequence_loop pat joined single bo off (seg # rest) =
      (case search (take (t + length pat - 1) (drop (length seg - t) (seg @ after))) pat of
         Some j \<Rightarrow> position_at (bo + off + of_nat (length seg - t + j))
       | None \<Rightarrow> sequence_loop pat joined single bo (off + span_size seg) rest)"
    and "unat (off + span_size seg) = length pre + length seg"
proof -
  let ?w = "min (span_size seg) (span_size pat - 1)"
  have lens: "unat (span_size seg) = length seg" "unat (span_size pat) = length pat"
    using J small pat(2) by (simp_all add: unat_span_size)
  have "(1 :: size_t) \<le> span_size pat" using lens pat(1) by (simp add: size_le_iff)
  then have ut: "unat ?w = t" by (simp add: t unat_min_size lens unat_sub_size)
  then have wt: "?w = of_nat t" by (rule size_of_nat_unat)
  show se: "unat (off + span_size seg) = length pre + length seg" using J small off lens by (simp add: unat_add_size)
  then have "?w \<le> off + span_size seg" using ut t by (simp add: size_le_iff)
  then have bo: "unat (off + span_size seg - ?w) = length pre + (length seg - t)"
    using se ut t by (simp add: unat_sub_size)
  have tp: "unat (?w + span_size pat) = t + length pat" using pat ut lens t by (simp add: unat_add_size)
  then have "(1 :: size_t) \<le> ?w + span_size pat" using pat(1) by (simp add: size_le_iff)
  then have bs: "unat (?w + span_size pat - 1) = t + length pat - 1" by (simp add: unat_sub_size tp)
  let ?B = "take (t + length pat - 1) (drop (length seg - t) (seg @ after))"
  have window: "take (unat (?w + span_size pat - 1)) (drop (unat (off + span_size seg - ?w)) joined) = ?B"
    using J bs bo by simp
  have shift: "bo + (off + span_size seg - ?w) + of_nat j = bo + off + of_nat (length seg - t + j)" for j
    unfolding wt using t by (simp add: span_size_def of_nat_diff)
  have "t = 0 \<Longrightarrow> search ?B pat = None" using pat(1) by (intro search_too_long) simp
  moreover have "?w = 0 \<longleftrightarrow> t = 0" using ut by (metis unat_eq_0)
  ultimately have sel: "(if ?w \<noteq> 0 then search ?B pat else None) = search ?B pat" by metis
  have "sequence_loop pat joined single bo off (seg # rest) =
      (case (if ?w \<noteq> 0 then search ?B pat else None) of
         Some j \<Rightarrow> position_at (bo + (off + span_size seg - ?w) + of_nat j)
       | None \<Rightarrow> sequence_loop pat joined single bo (off + span_size seg) rest)"
    using none single by (simp only: sequence_loop.simps Let_def window option.case if_False)
  then show "sequence_loop pat joined single bo off (seg # rest) =
      (case search ?B pat of
         Some j \<Rightarrow> position_at (bo + off + of_nat (length seg - t + j))
       | None \<Rightarrow> sequence_loop pat joined single bo (off + span_size seg) rest)"
    unfolding sel shift .
qed

lemma sequence_loop_flat:
  assumes "joined = pre @ concat segs" and "length joined < 2 ^ 64" and "unat off = length pre"
    and "2 \<le> length pat" "length pat \<le> 2 ^ 63" and "single \<Longrightarrow> length segs \<le> 1"
  shows "sequence_loop pat joined single bo off segs =
     (case search (concat segs) pat of
        None \<Rightarrow> position_none
      | Some i \<Rightarrow> position_at (bo + off + of_nat i))"
  using assms
proof (induction segs arbitrary: pre off)
  case Nil
  then show ?case by auto
next
  case (Cons seg rest)
  have ne: "pat \<noteq> []" using Cons.prems(4) by auto
  consider (here) i where "search seg pat = Some i" | (only) "search seg pat = None" "single"
    | (more) "search seg pat = None" "\<not> single" by fastforce
  then show ?case
  proof cases
    case here
    then show ?thesis using search_append_Some [OF ne here] by simp
  next
    case only
    then show ?thesis using Cons.prems(6) by simp
  next
    case more
    have J: "joined = pre @ seg @ concat rest" using Cons.prems(1) by simp
    note turn = sequence_loop_turn [OF J Cons.prems(2-5) more refl]
    have IH: "sequence_loop pat joined single bo (off + span_size seg) rest =
        (case search (concat rest) pat of None \<Rightarrow> position_none
         | Some i \<Rightarrow> position_at (bo + (off + span_size seg) + of_nat i))"
      using Cons.prems turn(2) more(2) by (intro Cons.IH [of "pre @ seg"]) auto
    show ?thesis
      unfolding turn(1) IH using search_append_boundary [OF Cons.prems(4) more(1) refl, of "concat rest"]
      by (auto simp: span_size_def add.assoc split: option.splits)
  qed
qed

lemma find_index_hd_search: "search xs [b] = find_index (\<lambda>x. x = b) xs"
  by (induction xs) auto

lemma position_of_sequence_flat:
  assumes ok: "view_ok v" and pat: "length pat \<le> 2 ^ 63"
  shows "position_of_sequence pat v =
     (if pat = [] then position_none else found_at v (search (view_bytes v) pat))"
proof -
  have sp: "unat (span_size pat) = length pat" using pat by (simp add: unat_span_size)
  consider (nil) "pat = []" | (long) "pat \<noteq> []" "m_size v < span_size pat"
    | (one) b where "pat = [b]" "\<not> m_size v < span_size pat"
    | (many) "2 \<le> length pat" "\<not> m_size v < span_size pat"
    by (metis One_nat_def Suc_1 Suc_leI length_0_conv length_Suc_conv less_2_cases not_le)
  then show ?thesis
  proof cases
    case long
    then have "search (view_bytes v) pat = None"
      using sp view_ok_length [OF ok] by (intro search_too_long) (simp add: size_less_iff)
    with long show ?thesis by (simp add: position_of_sequence_def found_at_def)
  next
    case one
    then show ?thesis
      using position_of_flat [OF ok]
      by (simp add: position_of_sequence_def span_size_def find_index_hd_search)
  next
    case many
    have "span_size pat \<noteq> 1" using many(1) sp by auto
    moreover have "is_single_segment v \<Longrightarrow> length (m_segments v) \<le> 1"
      using single_segment_bytes [OF ok] by (metis One_nat_def le_refl length_Cons list.size(3))
    moreover have "length (view_bytes v) < 2 ^ 64"
      using view_ok_length [OF ok] unat_size_bound [of "m_size v"] by simp
    ultimately show ?thesis
      using many pat
        sequence_loop_flat [of "concat (m_segments v)" "[]" "m_segments v" 0 pat
          "is_single_segment v" "m_begin_offset v"]
      by (auto simp: position_of_sequence_def found_at_def view_bytes_def split: option.splits)
  qed (simp add: position_of_sequence_def)
qed

subsection \<open>Copying\<close>

lemma copy_loop_flat:
  assumes "unat c \<le> unat T" and "unat T \<le> length dest" and "unat T - unat c \<le> length (concat segs)"
    and "length (concat segs) < 2 ^ 64"
  shows "copy_loop T c segs dest =
     (T, take (unat c) dest @ take (unat T - unat c) (concat segs) @ drop (unat T) dest)"
  using assms
proof (induction segs arbitrary: c dest)
  case Nil
  then have "c = T" by (simp add: size_eq_iff)
  then show ?case by simp
next
  case (Cons seg rest)
  show ?case
  proof (cases "c = T")
    case True
    then show ?thesis by simp
  next
    case False
    have ss: "unat (span_size seg) = length seg" using Cons.prems(4) by (simp add: unat_span_size)
    have ct: "c \<le> T" using Cons.prems(1) by (simp add: size_le_iff)
    let ?k = "min (span_size seg) (T - c)"
    have k: "unat ?k = min (length seg) (unat T - unat c)"
      using ct by (simp add: unat_min_size ss unat_sub_size)
    have ck: "unat (c + ?k) = unat c + min (length seg) (unat T - unat c)"
      using k Cons.prems(1) unat_size_bound [of T] by (subst unat_add_size) auto
    let ?d = "copy_at (subspan seg 0 ?k) (unat c) dest"
    have d: "?d = take (unat c) dest @ take (unat T - unat c) seg
                @ drop (unat c + min (length seg) (unat T - unat c)) dest"
      by (simp add: copy_at_def subspan_def k min.commute) (simp add: min_def)
    have "copy_loop T (c + ?k) rest ?d =
       (T, take (unat (c + ?k)) ?d @ take (unat T - unat (c + ?k)) (concat rest) @ drop (unat T) ?d)"
      using Cons.prems ck d by (intro Cons.IH) auto
    also have "take (unat (c + ?k)) ?d = take (unat c) dest @ take (unat T - unat c) seg"
      using Cons.prems(1,2) ck d by (simp add: min_def)
    also have "drop (unat T) ?d = drop (unat T) dest"
      using Cons.prems(1,2) d by (simp add: min_def)
    finally show ?thesis
      using False ck Cons.prems(1) by (simp add: Let_def min_def)
  qed
qed

lemma copy_to_flat:
  assumes ok: "view_ok v" and dest: "length dest < 2 ^ 64"
  shows "copy_to dest v =
     (let n = min (length dest) (unat (m_size v))
      in (of_nat n, take n (view_bytes v) @ drop n dest))"
proof -
  let ?T = "min (span_size dest) (m_size v)" and ?n = "min (length dest) (unat (m_size v))"
  have T: "unat ?T = ?n" using dest by (simp add: unat_min_size unat_span_size)
  then have wT: "?T = of_nat ?n" by (rule size_of_nat_unat)
  have len: "length (view_bytes v) = unat (m_size v)" by (rule view_ok_length [OF ok])
  consider (zero) "?T = 0" | (single) "?T \<noteq> 0" "is_single_segment v"
    | (multi) "?T \<noteq> 0" "\<not> is_single_segment v" by blast
  then show ?thesis
  proof cases
    case zero
    then have "?n = 0" using T by simp
    with zero show ?thesis by (simp add: copy_to_def Let_def)
  next
    case single
    then show ?thesis
      using single_segment_bytes [OF ok] T wT len
      by (simp add: copy_to_def Let_def copy_at_def subspan_def)
  next
    case multi
    have "copy_loop ?T 0 (m_segments v) dest =
        (?T, take (unat (0 :: size_t)) dest @ take (unat ?T - unat (0 :: size_t)) (concat (m_segments v))
              @ drop (unat ?T) dest)"
      using T len unat_size_bound [of "m_size v"]
      by (intro copy_loop_flat) (auto simp: view_bytes_def)
    then show ?thesis using multi T wT by (simp add: copy_to_def Let_def view_bytes_def)
  qed
qed

lemma fold_append_concat: "fold (\<lambda>x acc. acc @ x) xss acc = acc @ concat xss"
  by (induction xss arbitrary: acc) auto

lemma to_string_flat:
  assumes "view_ok v"
  shows "to_string v = view_bytes v"
proof -
  consider (empty) "m_size v = 0" | (single) "m_size v \<noteq> 0" "is_single_segment v"
    | (multi) "m_size v \<noteq> 0" "\<not> is_single_segment v" by blast
  then show ?thesis
    using view_ok_length [OF assms] single_segment_bytes [OF assms]
    by cases (simp_all add: to_string_def view_is_empty_def fold_append_concat view_bytes_def [symmetric])
qed

lemma as_string_view_flat:
  "view_ok v \<Longrightarrow> is_single_segment v \<Longrightarrow> as_string_view v = Inr (view_bytes v)"
  using single_segment_bytes [of v] view_ok_length [of v] by (simp add: as_string_view_def)

section \<open>What a parser relies on\<close>

text \<open>
  The interface between a parser and the sequence it parses: a search for a byte, and cutting a
  range out.  Inside the locale the pattern every parser of the repository uses is proved once:
  find a delimiter, take what is before it, continue after it.
\<close>

locale byte_sequence =
  fixes ok :: "'v \<Rightarrow> bool"
    and bytes :: "'v \<Rightarrow> byte list"
    and start :: "'v \<Rightarrow> size_t"
    and find_byte :: "byte \<Rightarrow> 'v \<Rightarrow> position"
    and cut :: "position \<Rightarrow> position \<Rightarrow> 'v \<Rightarrow> 'v throws"
  assumes start_bound: "ok v \<Longrightarrow> unat (start v) + length (bytes v) < 2 ^ 64"
    and find_byte_ok: "ok v \<Longrightarrow> find_byte b v =
      (case find_index (\<lambda>x. x = b) (bytes v) of
         None \<Rightarrow> position_none | Some i \<Rightarrow> position_at (start v + of_nat i))"
    and cut_ok: "ok v \<Longrightarrow> unat (start v) \<le> unat i \<Longrightarrow> unat i \<le> unat j \<Longrightarrow>
      unat j \<le> unat (start v) + length (bytes v) \<Longrightarrow>
      \<exists>w. cut (position_at i) (position_at j) v = Inr w \<and> ok w \<and> start w = i
        \<and> bytes w = take (unat j - unat i) (drop (unat i - unat (start v)) (bytes v))"
begin

lemma split_at_first:
  assumes ok: "ok v" and b: "b \<in> set (bytes v)"
  shows "\<exists>line rest.
     cut (position_at (start v)) (find_byte b v) v = Inr line
     \<and> cut (pos_plus (find_byte b v) 1) (position_at (start v + of_nat (length (bytes v)))) v = Inr rest
     \<and> ok line \<and> ok rest \<and> bytes v = bytes line @ b # bytes rest \<and> b \<notin> set (bytes line)"
proof -
  obtain i where i: "find_index (\<lambda>x. x = b) (bytes v) = Some i"
    using b find_index_None_iff [of "\<lambda>x. x = b" "bytes v"] by auto
  have il: "i < length (bytes v)" and at: "bytes v ! i = b" and before: "\<forall>j < i. bytes v ! j \<noteq> b"
    using find_index_Some [OF i] by auto
  let ?p = "start v + of_nat i :: size_t" and ?e = "start v + of_nat (length (bytes v)) :: size_t"
  note bound = start_bound [OF ok]
  have p: "unat ?p = unat (start v) + i" and e: "unat ?e = unat (start v) + length (bytes v)"
    using bound il by (simp_all add: unat_add_size unat_of_nat_size)
  have p1: "unat (?p + 1) = unat (start v) + i + 1"
    using p bound il by (simp add: unat_add_size)
  obtain line where line: "cut (position_at (start v)) (position_at ?p) v = Inr line" "ok line"
      "bytes line = take i (bytes v)"
    using cut_ok [OF ok, of "start v" ?p] p il by auto
  obtain rest where rest: "cut (position_at (?p + 1)) (position_at ?e) v = Inr rest" "ok rest"
      "bytes rest = take (length (bytes v) - (i + 1)) (drop (i + 1) (bytes v))"
    using cut_ok [OF ok, of "?p + 1" ?e] p1 e il by auto
  have "bytes v = bytes line @ b # bytes rest"
    using id_take_nth_drop [OF il] line(3) rest(3) at by simp
  moreover have "b \<notin> set (bytes line)"
    using before il line(3) by (auto simp: in_set_conv_nth)
  moreover have "find_byte b v = position_at ?p" using find_byte_ok [OF ok] i by simp
  moreover have "pos_plus (position_at ?p) 1 = position_at (?p + 1)" by (simp add: position_defs)
  ultimately show ?thesis using line rest by auto
qed

end

lemma slice_pos_eq:
  "slice_pos (position_at b) (position_at e) v = view_slice v \<lparr>range_begin = b, range_end = e\<rparr>"
  "slice_in_place_pos (position_at b) (position_at e) v = view_slice v \<lparr>range_begin = b, range_end = e\<rparr>"
  "slice_end (position_at e) v = view_slice v \<lparr>range_begin = m_begin_offset v, range_end = e\<rparr>"
  by (simp_all add: slice_pos_def slice_in_place_pos_def slice_end_def bind_range_def
      resolve_slice_range_pos_def resolve_slice_range_end_def position_defs slice_in_place_eq_slice)

interpretation view: byte_sequence view_ok view_bytes m_begin_offset position_of slice_pos
proof unfold_locales
  fix v assume "view_ok v"
  then show "unat (m_begin_offset v) + length (view_bytes v) < 2 ^ 64"
    by (simp add: view_ok_def)
next
  fix v b assume "view_ok v"
  then show "position_of b v =
      (case find_index (\<lambda>x. x = b) (view_bytes v) of
         None \<Rightarrow> position_none | Some i \<Rightarrow> position_at (m_begin_offset v + of_nat i))"
    by (simp add: position_of_flat found_at_def)
next
  fix v and i j :: size_t
  assume ok: "view_ok v" and "unat (m_begin_offset v) \<le> unat i" "unat i \<le> unat j"
    "unat j \<le> unat (m_begin_offset v) + length (view_bytes v)"
  then have "in_view i j v" using view_ok_length [OF ok] by (simp add: in_view_def)
  from view_slice_ok [OF ok this]
  show "\<exists>w. slice_pos (position_at i) (position_at j) v = Inr w \<and> view_ok w \<and> m_begin_offset w = i
      \<and> view_bytes w = take (unat j - unat i) (drop (unat i - unat (m_begin_offset v)) (view_bytes v))"
    by (metis slice_pos_eq(1))
qed

section \<open>Properties\<close>

text \<open>A small view over three spans, one of them empty, that starts at offset 10.\<close>

definition sample_view :: segmented_byte_view where
  "sample_view = \<lparr>m_segments = [[1, 2, 3], [], [4, 5]], m_begin_offset = 10, m_size = 5\<rparr>"

lemma sample_view_ok: "view_ok sample_view"
  by (simp add: sample_view_def view_ok_def view_bytes_def)

text \<open>C23: \<open>position_of_sequence\<close> finds the first occurrence of the pattern in the bytes of the view,
  also where the occurrence crosses any number of segment boundaries, and a default position exactly
  when there is none or the pattern is empty.  (Patterns are limited to \<open>2\<^sup>6\<^sup>3\<close> bytes, so that the
  size of the boundary window does not wrap.)\<close>

theorem position_of_sequence_first:
  assumes ok: "view_ok v" and pat: "length pat \<le> 2 ^ 63"
  shows "(pos_bool (position_of_sequence pat v) \<longleftrightarrow> pat \<noteq> [] \<and> (\<exists>i. match_at (view_bytes v) pat i))
    \<and> (pos_bool (position_of_sequence pat v) \<longrightarrow>
        (\<exists>i. sequence_offset (position_of_sequence pat v) = m_begin_offset v + of_nat i
           \<and> match_at (view_bytes v) pat i \<and> (\<forall>j < i. \<not> match_at (view_bytes v) pat j)))"
proof (cases "pat = []")
  case True
  then show ?thesis by (simp add: position_of_sequence_def position_defs)
next
  case ne: False
  note flat = position_of_sequence_flat [OF ok pat]
  show ?thesis
  proof (cases "search (view_bytes v) pat")
    case None
    then have "\<forall>i. \<not> match_at (view_bytes v) pat i" using search_None_iff [OF ne] by blast
    with None ne flat show ?thesis by (simp add: found_at_def position_defs)
  next
    case (Some i)
    then have "match_at (view_bytes v) pat i" "\<forall>j < i. \<not> match_at (view_bytes v) pat j"
      using search_Some_iff [OF ne] by blast+
    with Some ne flat show ?thesis by (auto simp: found_at_def position_defs)
  qed
qed

lemma position_of_sequence_first_witness:
  "pos_bool (position_of_sequence [3, 4] sample_view)
    \<and> (\<exists>i. sequence_offset (position_of_sequence [3, 4] sample_view) = m_begin_offset sample_view + of_nat i
         \<and> match_at (view_bytes sample_view) [3, 4] i
         \<and> (\<forall>j < i. \<not> match_at (view_bytes sample_view) [3, 4] j))"
proof -
  have "match_at (view_bytes sample_view) [3, 4] 2"
    by (simp add: match_at_def sample_view_def view_bytes_def)
  with position_of_sequence_first [OF sample_view_ok, of "[3, 4]"] show ?thesis by auto
qed

text \<open>Slicing by absolute positions, in place or into a new view, returns exactly the bytes of the
  range when the range lies inside the view, keeps absolute offsets, and yields a well-formed view;
  any other range is rejected with \<open>std::out_of_range\<close> and the view is left as it was.\<close>

lemma slice_pos_correct:
  assumes ok: "view_ok v"
  shows "if in_view (sequence_offset b) (sequence_offset e) v
     then \<exists>w. slice_pos b e v = Inr w \<and> slice_in_place_pos b e v = Inr w \<and> view_ok w
        \<and> sequence_offset (view_begin w) = sequence_offset b
        \<and> sequence_offset (view_end w) = sequence_offset e
        \<and> view_bytes w = take (unat (sequence_offset e) - unat (sequence_offset b))
             (drop (unat (sequence_offset b) - unat (m_begin_offset v)) (view_bytes v))
     else \<exists>msg. slice_pos b e v = Inl (std_out_of_range msg)
        \<and> slice_in_place_pos b e v = Inl (std_out_of_range msg)"
proof -
  let ?b = "sequence_offset b" and ?e = "sequence_offset e"
  have eq: "slice_pos b e v = view_slice v \<lparr>range_begin = ?b, range_end = ?e\<rparr>"
    "slice_in_place_pos b e v = view_slice v \<lparr>range_begin = ?b, range_end = ?e\<rparr>"
    by (simp_all add: slice_pos_def slice_in_place_pos_def bind_range_def resolve_slice_range_pos_def
        slice_in_place_eq_slice)
  show ?thesis
  proof (cases "in_view ?b ?e v")
    case True
    from view_slice_ok [OF ok True] obtain w where
      "view_slice v \<lparr>range_begin = ?b, range_end = ?e\<rparr> = Inr w" "view_ok w"
      "m_begin_offset w = ?b" "m_size w = ?e - ?b"
      "view_bytes w = take (unat ?e - unat ?b) (drop (unat ?b - unat (m_begin_offset v)) (view_bytes v))"
      by blast
    with True show ?thesis
      by (auto simp: eq view_begin_def view_end_def end_offset_def position_at_def sequence_offset_def)
  next
    case False
    with view_slice_error [OF ok False] show ?thesis by (auto simp: eq)
  qed
qed

lemma slice_pos_correct_witness:
  "if in_view (sequence_offset (position_at 12)) (sequence_offset (position_at 14)) sample_view
   then \<exists>w. slice_pos (position_at 12) (position_at 14) sample_view = Inr w
        \<and> slice_in_place_pos (position_at 12) (position_at 14) sample_view = Inr w \<and> view_ok w
        \<and> sequence_offset (view_begin w) = sequence_offset (position_at 12)
        \<and> sequence_offset (view_end w) = sequence_offset (position_at 14)
        \<and> view_bytes w = take (unat (sequence_offset (position_at 14)) - unat (sequence_offset (position_at 12)))
             (drop (unat (sequence_offset (position_at 12)) - unat (m_begin_offset sample_view))
               (view_bytes sample_view))
   else \<exists>msg. slice_pos (position_at 12) (position_at 14) sample_view = Inl (std_out_of_range msg)
        \<and> slice_in_place_pos (position_at 12) (position_at 14) sample_view = Inl (std_out_of_range msg)"
  by (rule slice_pos_correct) (rule sample_view_ok)

text \<open>Slicing by a relative offset and size returns exactly those bytes when they lie inside the
  view and throws \<open>std::out_of_range\<close> otherwise, and the overload with an offset and an end position
  agrees with the absolute slice it denotes; no offset arithmetic wraps on an accepted slice.\<close>

lemma slice_off_correct:
  assumes ok: "view_ok v"
  shows "(if unat off + unat n \<le> unat (m_size v)
     then \<exists>w. slice_off off n v = Inr w \<and> slice_in_place_off off n v = Inr w \<and> view_ok w
        \<and> unat (m_begin_offset w) = unat (m_begin_offset v) + unat off \<and> m_size w = n
        \<and> view_bytes w = take (unat n) (drop (unat off) (view_bytes v))
     else \<exists>msg. slice_off off n v = Inl (std_out_of_range msg)
        \<and> slice_in_place_off off n v = Inl (std_out_of_range msg))
     \<and> (off \<le> m_size v \<longrightarrow>
          slice_off_pos off e v = slice_pos (pos_plus (view_begin v) off) e v)"
proof -
  have big: "off \<le> m_size v \<Longrightarrow> unat (m_size v - off) = unat (m_size v) - unat off"
    by (simp add: unat_sub_size)
  have pos: "off \<le> m_size v \<longrightarrow> slice_off_pos off e v = slice_pos (pos_plus (view_begin v) off) e v"
    by (simp add: slice_off_pos_def slice_pos_def resolve_slice_range_off_pos_def
        resolve_slice_range_pos_def view_begin_def position_defs linorder_not_less [symmetric])
  show ?thesis
  proof (cases "unat off + unat n \<le> unat (m_size v)")
    case True
    then have "off \<le> m_size v" by (simp add: size_le_iff)
    let ?b = "m_begin_offset v + off" and ?e = "m_begin_offset v + off + n"
    have b: "unat ?b = unat (m_begin_offset v) + unat off"
      and e: "unat ?e = unat (m_begin_offset v) + unat off + unat n"
      using ok True by (simp_all add: view_ok_def unat_add_size)
    have "validate_relative_slice off n v = Inr ()"
      using True \<open>off \<le> m_size v\<close> big by (simp add: validate_relative_slice_def size_less_iff size_le_iff)
    then have eq: "slice_off off n v = view_slice v \<lparr>range_begin = ?b, range_end = ?e\<rparr>"
      "slice_in_place_off off n v = view_slice v \<lparr>range_begin = ?b, range_end = ?e\<rparr>"
      by (simp_all add: slice_off_def slice_in_place_off_def bind_range_def resolve_slice_range_off_def
          slice_in_place_eq_slice Let_def)
    have "in_view ?b ?e v" using b e True by (simp add: in_view_def)
    from view_slice_ok [OF ok this] obtain w where
      "view_slice v \<lparr>range_begin = ?b, range_end = ?e\<rparr> = Inr w" "view_ok w" "m_begin_offset w = ?b"
      "m_size w = ?e - ?b"
      "view_bytes w = take (unat ?e - unat ?b) (drop (unat ?b - unat (m_begin_offset v)) (view_bytes v))"
      by blast
    with eq b e True pos show ?thesis by auto
  next
    case False
    then have "\<exists>msg. validate_relative_slice off n v = Inl (std_out_of_range msg)"
      using big by (auto simp: validate_relative_slice_def size_less_iff size_le_iff)
    with False pos show ?thesis
      by (auto simp: slice_off_def slice_in_place_off_def bind_range_def resolve_slice_range_off_def)
  qed
qed

lemma slice_off_correct_witness:
  "(\<exists>w. slice_off 1 3 sample_view = Inr w \<and> slice_in_place_off 1 3 sample_view = Inr w \<and> view_ok w
        \<and> unat (m_begin_offset w) = unat (m_begin_offset sample_view) + unat (1 :: size_t) \<and> m_size w = 3
        \<and> view_bytes w = take (unat (3 :: size_t)) (drop (unat (1 :: size_t)) (view_bytes sample_view)))
     \<and> slice_off_pos 1 (position_at 13) sample_view
        = slice_pos (pos_plus (view_begin sample_view) 1) (position_at 13) sample_view"
proof -
  have "unat (1 :: size_t) + unat (3 :: size_t) \<le> unat (m_size sample_view)" "1 \<le> m_size sample_view"
    by (simp_all add: sample_view_def size_le_iff)
  with slice_off_correct [OF sample_view_ok, of 1 3 "position_at 13"] show ?thesis by auto
qed

text \<open>The three index operators read the flat bytes: \<open>operator[](size_t)\<close> counts from the
  beginning, \<open>operator[](position)\<close> from the absolute offset, \<open>operator[](from_end)\<close> from the end with
  1 for the last byte.  Out-of-range arguments throw \<open>std::out_of_range\<close>, and no argument reaches the
  \<open>std::unreachable()\<close> at the end of their loops.\<close>

lemma index_operators_correct:
  assumes ok: "view_ok v"
  shows "(if unat i < length (view_bytes v) then index_at i v = Some (Inr (view_bytes v ! unat i))
          else \<exists>msg. index_at i v = Some (Inl (std_out_of_range msg)))
    \<and> (if unat (m_begin_offset v) \<le> unat (sequence_offset p)
          \<and> unat (sequence_offset p) < unat (m_begin_offset v) + length (view_bytes v)
        then index_position p v
               = Some (Inr (view_bytes v ! (unat (sequence_offset p) - unat (m_begin_offset v))))
        else \<exists>msg. index_position p v = Some (Inl (std_out_of_range msg)))
    \<and> (if 0 < unat k \<and> unat k \<le> length (view_bytes v)
        then index_from_end k v = Some (Inr (view_bytes v ! (length (view_bytes v) - unat k)))
        else \<exists>msg. index_from_end k v = Some (Inl (std_out_of_range msg)))"
proof (intro conjI)
  have len: "length (view_bytes v) = unat (m_size v)" by (rule view_ok_length [OF ok])
  show "if unat i < length (view_bytes v) then index_at i v = Some (Inr (view_bytes v ! unat i))
          else \<exists>msg. index_at i v = Some (Inl (std_out_of_range msg))"
    using index_at_ok [OF ok] index_at_error by (simp add: len size_less_iff)
  show "if unat (m_begin_offset v) \<le> unat (sequence_offset p)
          \<and> unat (sequence_offset p) < unat (m_begin_offset v) + length (view_bytes v)
        then index_position p v
               = Some (Inr (view_bytes v ! (unat (sequence_offset p) - unat (m_begin_offset v))))
        else \<exists>msg. index_position p v = Some (Inl (std_out_of_range msg))"
  proof -
    let ?o = "sequence_offset p"
    have "unat (?o - m_begin_offset v) = unat ?o - unat (m_begin_offset v)"
      if "unat (m_begin_offset v) \<le> unat ?o" using that by (simp add: unat_sub_size size_le_iff)
    then show ?thesis
      using index_at_ok [OF ok, of "?o - m_begin_offset v"] unat_end_offset [OF ok]
      by (auto simp: index_position_def len size_less_iff size_le_iff Let_def)
  qed
  show "if 0 < unat k \<and> unat k \<le> length (view_bytes v)
        then index_from_end k v = Some (Inr (view_bytes v ! (length (view_bytes v) - unat k)))
        else \<exists>msg. index_from_end k v = Some (Inl (std_out_of_range msg))"
  proof (cases "0 < unat k \<and> unat k \<le> length (view_bytes v)")
    case True
    then have "0 < k" "k \<le> m_size v" by (simp_all add: len size_le_iff word_less_nat_alt)
    with True index_from_end_ok [OF ok] show ?thesis by (simp add: len)
  next
    case False
    then have "\<not> (0 < k \<and> k \<le> m_size v)" by (auto simp: len size_le_iff word_less_nat_alt)
    then show ?thesis using False by (simp add: index_from_end_def)
  qed
qed

lemma index_operators_correct_witness:
  "(if unat (3 :: size_t) < length (view_bytes sample_view)
      then index_at 3 sample_view = Some (Inr (view_bytes sample_view ! unat (3 :: size_t)))
      else \<exists>msg. index_at 3 sample_view = Some (Inl (std_out_of_range msg)))
    \<and> (if unat (m_begin_offset sample_view) \<le> unat (sequence_offset (position_at 9))
          \<and> unat (sequence_offset (position_at 9)) < unat (m_begin_offset sample_view) + length (view_bytes sample_view)
        then index_position (position_at 9) sample_view
               = Some (Inr (view_bytes sample_view ! (unat (sequence_offset (position_at 9)) - unat (m_begin_offset sample_view))))
        else \<exists>msg. index_position (position_at 9) sample_view = Some (Inl (std_out_of_range msg)))
    \<and> (if 0 < unat (2 :: size_t) \<and> unat (2 :: size_t) \<le> length (view_bytes sample_view)
        then index_from_end 2 sample_view
          = Some (Inr (view_bytes sample_view ! (length (view_bytes sample_view) - unat (2 :: size_t))))
        else \<exists>msg. index_from_end 2 sample_view = Some (Inl (std_out_of_range msg)))"
  by (rule index_operators_correct) (rule sample_view_ok)

text \<open>\<open>position_of_any\<close> returns the first byte of the view that is one of the given values, at its
  absolute offset, and a default position exactly when there is none; for a single value it agrees
  with \<open>position_of\<close>.\<close>

lemma position_of_any_first:
  assumes ok: "view_ok v"
  shows "(pos_bool (position_of_any values v) \<longleftrightarrow> set values \<inter> set (view_bytes v) \<noteq> {})
    \<and> (pos_bool (position_of_any values v) \<longrightarrow>
        (\<exists>i < length (view_bytes v). sequence_offset (position_of_any values v) = m_begin_offset v + of_nat i
           \<and> view_bytes v ! i \<in> set values \<and> (\<forall>j < i. view_bytes v ! j \<notin> set values)))
    \<and> position_of_any [b] v = position_of b v"
proof (cases "find_index (\<lambda>x. x \<in> set values) (view_bytes v)")
  case None
  then have "set values \<inter> set (view_bytes v) = {}" by (auto simp: find_index_None_iff)
  with None show ?thesis
    using position_of_any_flat [OF ok, of "values"]
    by (simp add: found_at_def position_defs position_of_any_def [of "[b]"])
next
  case (Some i)
  note f = find_index_Some [OF Some]
  then have "set values \<inter> set (view_bytes v) \<noteq> {}" by (auto dest: nth_mem)
  with Some f show ?thesis
    using position_of_any_flat [OF ok, of "values"]
    by (auto simp: found_at_def position_defs position_of_any_def [of "[b]"])
qed

lemma position_of_any_first_witness:
  "pos_bool (position_of_any [5, 3] sample_view)
    \<and> (\<exists>i < length (view_bytes sample_view).
         sequence_offset (position_of_any [5, 3] sample_view) = m_begin_offset sample_view + of_nat i
         \<and> view_bytes sample_view ! i \<in> set [5, 3]
         \<and> (\<forall>j < i. view_bytes sample_view ! j \<notin> set [5, 3]))
    \<and> position_of_any [9] sample_view = position_of 9 sample_view"
proof -
  have "set [5, 3] \<inter> set (view_bytes sample_view) \<noteq> {}" by (simp add: sample_view_def view_bytes_def)
  with position_of_any_first [OF sample_view_ok, of "[5, 3]" 9] show ?thesis by blast
qed

text \<open>Splitting a view at the first delimiter, as every parser of the repository does, loses and
  duplicates nothing: the bytes are the line, the delimiter and the rest, and the line does not
  contain the delimiter.\<close>

lemma split_at_delimiter:
  assumes ok: "view_ok v" and b: "b \<in> set (view_bytes v)"
  shows "\<exists>line rest. slice_end (position_of b v) v = Inr line
     \<and> slice_in_place_pos (pos_plus (position_of b v) 1) (view_end v) v = Inr rest
     \<and> view_ok line \<and> view_ok rest
     \<and> view_bytes v = view_bytes line @ b # view_bytes rest \<and> b \<notin> set (view_bytes line)"
proof -
  have e: "view_end v = position_at (m_begin_offset v + of_nat (length (view_bytes v)))"
    using view_ok_length [OF ok] by (simp add: view_end_def end_offset_def)
  have se: "slice_end p v = slice_pos (position_at (m_begin_offset v)) p v" for p
    by (simp add: slice_end_def slice_pos_def resolve_slice_range_end_def resolve_slice_range_pos_def
        position_defs)
  have ip: "slice_in_place_pos p q v = slice_pos p q v" for p q
    by (simp add: slice_in_place_pos_def slice_pos_def slice_in_place_eq_slice)
  from view.split_at_first [OF ok b] show ?thesis by (simp only: e se ip)
qed

lemma split_at_delimiter_witness:
  "\<exists>line rest. slice_end (position_of 4 sample_view) sample_view = Inr line
     \<and> slice_in_place_pos (pos_plus (position_of 4 sample_view) 1) (view_end sample_view) sample_view = Inr rest
     \<and> view_ok line \<and> view_ok rest
     \<and> view_bytes sample_view = view_bytes line @ 4 # view_bytes rest \<and> 4 \<notin> set (view_bytes line)"
  by (rule split_at_delimiter [OF sample_view_ok]) (simp add: sample_view_def view_bytes_def)

text \<open>Copying out of a view writes the first \<open>min(destination, size)\<close> bytes of the view over the
  beginning of the destination and leaves the rest of it alone, whatever the segmentation;
  \<open>to_string\<close> returns all bytes, and so does \<open>as_string_view\<close> on a single segment, while it throws
  \<open>std::logic_error\<close> on any other view.\<close>

lemma copy_and_string_correct:
  assumes ok: "view_ok v" and dest: "length dest < 2 ^ 64"
  shows "copy_to dest v =
      (of_nat (min (length dest) (length (view_bytes v))),
       take (length dest) (view_bytes v) @ drop (length (view_bytes v)) dest)
    \<and> to_string v = view_bytes v
    \<and> as_string_view v =
        (if is_single_segment v then Inr (view_bytes v)
         else Inl (std_logic_error ''buffer must be a single segment to convert to string_view''))"
proof -
  have "copy_to dest v =
      (of_nat (min (length dest) (length (view_bytes v))),
       take (length dest) (view_bytes v) @ drop (length (view_bytes v)) dest)"
    using copy_to_flat [OF ok dest] view_ok_length [OF ok]
    by (cases "length dest \<le> length (view_bytes v)") (simp_all add: Let_def min_def)
  then show ?thesis
    using to_string_flat [OF ok] as_string_view_flat [OF ok] by (simp add: as_string_view_def)
qed

lemma copy_and_string_correct_witness:
  "copy_to [0, 0, 0, 0] sample_view =
      (of_nat (min (length [0, 0, 0, 0 :: byte]) (length (view_bytes sample_view))),
       take (length [0, 0, 0, 0 :: byte]) (view_bytes sample_view)
         @ drop (length (view_bytes sample_view)) [0, 0, 0, 0])
    \<and> to_string sample_view = view_bytes sample_view
    \<and> as_string_view sample_view =
        (if is_single_segment sample_view then Inr (view_bytes sample_view)
         else Inl (std_logic_error ''buffer must be a single segment to convert to string_view''))"
  by (rule copy_and_string_correct) (simp_all add: sample_view_ok)

text \<open>The range a slice denotes lies inside the view, or the slice throws.\<close>

lemma bind_view_slice:
  assumes ok: "view_ok v" and err: "\<And>x. rng = Inl x \<Longrightarrow> \<exists>msg. x = std_out_of_range msg"
  shows "(\<exists>w pre post. bind_range rng (view_slice v) = Inr w \<and> view_ok w \<and> view_bytes v = pre @ view_bytes w @ post
        \<and> sequence_offset (view_begin w) = m_begin_offset v + of_nat (length pre))
    \<or> (\<exists>msg. bind_range rng (view_slice v) = Inl (std_out_of_range msg))"
proof (cases rng)
  case (Inl x)
  then show ?thesis using err by (auto simp: bind_range_def)
next
  case (Inr r)
  obtain b e where r: "r = \<lparr>range_begin = b, range_end = e\<rparr>" by (cases r)
  show ?thesis
  proof (cases "in_view b e v")
    case True
    let ?k = "unat b - unat (m_begin_offset v)"
    obtain w where w: "view_slice v r = Inr w" "view_ok w" "m_begin_offset w = b"
        "view_bytes w = take (unat e - unat b) (drop ?k (view_bytes v))"
      using view_slice_ok [OF ok True] r by metis
    have "view_bytes v = take ?k (view_bytes v) @ view_bytes w @ drop (unat e - unat b) (drop ?k (view_bytes v))"
      unfolding w(4) by (simp del: drop_drop)
    moreover have "length (take ?k (view_bytes v)) = ?k"
      using True view_ok_length [OF ok] unfolding in_view_def by simp linarith
    moreover have "m_begin_offset v + of_nat ?k = b"
      using True by (simp add: in_view_def of_nat_diff)
    ultimately show ?thesis
      using w(1-3) Inr by (auto simp: bind_range_def view_begin_def sequence_offset_def position_at_def intro!: exI)
  next
    case False
    then show ?thesis using view_slice_error [OF ok False] Inr r by (auto simp: bind_range_def)
  qed
qed



end
