(* ===== verification/Pipeline.thy ===== *)
theory Pipeline
  imports Data_Segment Segmented_Byte_View
begin

text \<open>
  \<open>pipeline/pipeline_impl.h\<close>, \<open>read_result.h\<close>, \<open>pipe_reader.h\<close> and \<open>pipe_writer.h\<close>: the byte pipeline.

  The state record has the fields of \<open>class pipeline\<close>; the deque of segments is \<open>m_deque\<close>, and
  \<open>m_heap\<close> is the process heap its memory resource allocates from.  Each operation is the code
  between taking and releasing \<open>m_mutex\<close>.  A wait on a condition variable splits an operation in two:
  the part that runs to the wait, and the test of the wait's predicate that is repeated at each
  wake-up.  An operation that would block returns \<open>Blocks\<close> with the state it leaves behind.

  \<open>None\<close> marks undefined behaviour or a failed assertion (taking \<open>front()\<close> of an empty deque, an
  assertion of the memory resource); the properties show that it does not occur.

  A stop token can change at any time, also while the mutex is held, so the write loop reads it
  from an oracle \<open>nat \<Rightarrow> bool\<close> at each of its checks.
\<close>

section \<open>The memory resource of a pipeline\<close>

datatype allocator_kind = fixed_pool_resource_kind | arena_pool_resource_kind | unsynchronized_pool_resource_kind

text \<open>
  The dynamic type behind \<open>std::unique_ptr<std::pmr::memory_resource>\<close>.  Of the standard library's
  \<open>unsynchronized_pool_resource\<close> only its documented behaviour is used: it serves each request from
  storage that no live allocation occupies.
\<close>

datatype memory_resource =
    Fixed_pool fixed_pool_resource
  | Arena_pool arena_pool_resource
  | Unsynchronized_pool size_t

definition mr_allocate :: "size_t \<Rightarrow> memory_resource \<times> heap \<Rightarrow> (pointer \<times> memory_resource \<times> heap) option" where
  "mr_allocate bytes mh =
     (case mh of
        (Fixed_pool r, h) \<Rightarrow>
          map_option (\<lambda>(p, r', h'). (p, Fixed_pool r', h')) (fixed_do_allocate bytes buffer_alignment r h)
      | (Arena_pool r, h) \<Rightarrow>
          map_option (\<lambda>(p, r'). (p, Arena_pool r', h)) (arena_do_allocate bytes buffer_alignment r)
      | (Unsynchronized_pool n, h) \<Rightarrow>
          (case operator_new bytes h of (p, h') \<Rightarrow> Some (p, Unsynchronized_pool n, h')))"

definition mr_deallocate ::
  "pointer \<Rightarrow> size_t \<Rightarrow> memory_resource \<times> heap \<Rightarrow> (memory_resource \<times> heap) option"
where
  "mr_deallocate p bytes mh =
     (case mh of
        (Fixed_pool r, h) \<Rightarrow>
          map_option (\<lambda>(r', h'). (Fixed_pool r', h')) (fixed_do_deallocate p bytes buffer_alignment r h)
      | (Arena_pool r, h) \<Rightarrow>
          map_option (\<lambda>r'. (Arena_pool r', h)) (arena_do_deallocate p bytes buffer_alignment r)
      | (Unsynchronized_pool n, h) \<Rightarrow>
          map_option (\<lambda>h'. (Unsynchronized_pool n, h')) (operator_delete p h))"

section \<open>Options\<close>

record pipe_options =
  opt_buffer_size :: size_t
  opt_resume_writer_threshold :: size_t
  opt_pause_writer_threshold :: size_t
  opt_allocator :: allocator_kind

definition default_pipe_options :: pipe_options where
  "default_pipe_options =
     \<lparr>opt_buffer_size = 1024 * 4, opt_resume_writer_threshold = 1024 * 32,
      opt_pause_writer_threshold = 1024 * 128, opt_allocator = fixed_pool_resource_kind\<rparr>"

record validated_options =
  vo_buffer_size :: size_t
  vo_pause_writer_threshold :: size_t
  vo_resume_writer_threshold :: size_t
  vo_max_pooled_segments :: size_t
  vo_allocator :: allocator_kind

definition validate_options :: "pipe_options \<Rightarrow> validated_options throws" where
  "validate_options options =
     (if opt_buffer_size options = 0 then Inl (std_invalid_argument ''buffer_size must be > 0'')
      else if opt_pause_writer_threshold options = 0
        then Inl (std_invalid_argument ''pause_writer_threshold must be > 0'')
      else if opt_resume_writer_threshold options > opt_pause_writer_threshold options
        then Inl (std_invalid_argument ''resume_writer_threshold must be <= pause_writer_threshold'')
      else
        (let max_pooled_segments =
               opt_pause_writer_threshold options div opt_buffer_size options
               + (if opt_pause_writer_threshold options mod opt_buffer_size options \<noteq> 0 then 1 else 0)
         in Inr \<lparr>vo_buffer_size = opt_buffer_size options,
                 vo_pause_writer_threshold = opt_pause_writer_threshold options,
                 vo_resume_writer_threshold = opt_resume_writer_threshold options,
                 vo_max_pooled_segments = max_pooled_segments,
                 vo_allocator = opt_allocator options\<rparr>))"

text \<open>The flag is the build option \<open>XTD_ALLOW_EXPERIMENTAL\<close>: without it the kind is ignored.\<close>

definition make_allocator :: "bool \<Rightarrow> allocator_kind \<Rightarrow> validated_options \<Rightarrow> heap \<Rightarrow> (memory_resource \<times> heap) option" where
  "make_allocator experimental kind options h =
     (if experimental then
        (case kind of
           fixed_pool_resource_kind \<Rightarrow>
             map_option (\<lambda>r. (Fixed_pool r, h))
               (fixed_pool_make (vo_buffer_size options) (vo_max_pooled_segments options))
         | arena_pool_resource_kind \<Rightarrow>
             map_option (\<lambda>(r, h'). (Arena_pool r, h'))
               (arena_make (vo_buffer_size options) (vo_max_pooled_segments options) h)
         | unsynchronized_pool_resource_kind \<Rightarrow> Some (Unsynchronized_pool (vo_buffer_size options), h))
      else
        map_option (\<lambda>r. (Fixed_pool r, h))
          (fixed_pool_make (vo_buffer_size options) (vo_max_pooled_segments options)))"

section \<open>The state\<close>

record pipeline =
  m_allocator :: memory_resource
  m_heap :: heap
  m_deque :: "data_segment list"
  m_pause_writer_threshold :: size_t
  m_resume_writer_threshold :: size_t
  m_buffer_size :: size_t
  m_buffered_size :: size_t
  m_actual_buffered_size :: size_t
  m_examined_size :: size_t
  m_pending_read_size :: size_t
  m_reader_waiting :: bool
  m_has_pending_read :: bool
  m_writer_completed :: bool
  m_reader_completed :: bool
  m_writer_paused :: bool

definition pipeline_construct :: "bool \<Rightarrow> validated_options \<Rightarrow> heap \<Rightarrow> pipeline option" where
  "pipeline_construct experimental options h =
     map_option (\<lambda>(a, h').
        \<lparr>m_allocator = a, m_heap = h', m_deque = [],
         m_pause_writer_threshold = vo_pause_writer_threshold options,
         m_resume_writer_threshold = vo_resume_writer_threshold options,
         m_buffer_size = vo_buffer_size options,
         m_buffered_size = 0, m_actual_buffered_size = 0, m_examined_size = 0, m_pending_read_size = 0,
         m_reader_waiting = False, m_has_pending_read = False, m_writer_completed = False,
         m_reader_completed = False, m_writer_paused = False\<rparr>)
       (make_allocator experimental (vo_allocator options) options h)"

definition pipeline_make :: "bool \<Rightarrow> pipe_options \<Rightarrow> heap \<Rightarrow> pipeline throws option" where
  "pipeline_make experimental options h =
     (case validate_options options of
        Inl e \<Rightarrow> Some (Inl e)
      | Inr vo \<Rightarrow> map_option Inr (pipeline_construct experimental vo h))"

section \<open>Predicates on the state\<close>

definition data_available :: "size_t \<Rightarrow> pipeline \<Rightarrow> bool" where
  "data_available min_size p \<longleftrightarrow>
     m_writer_completed p
     \<or> (m_buffered_size p > m_examined_size p \<and> (min_size = 0 \<or> m_buffered_size p \<ge> min_size))"

definition space_available :: "pipeline \<Rightarrow> bool" where
  "space_available p \<longleftrightarrow> \<not> m_writer_paused p"

definition should_resume_writer :: "pipeline \<Rightarrow> bool" where
  "should_resume_writer p \<longleftrightarrow>
     m_buffer_size p \<le> m_resume_writer_threshold p
     \<and> m_actual_buffered_size p < m_pause_writer_threshold p"

definition has_writable_tail :: "pipeline \<Rightarrow> bool" where
  "has_writable_tail p \<longleftrightarrow> m_deque p \<noteq> [] \<and> \<not> seg_full (last (m_deque p))"

definition segment_allocation_capacity :: "pipeline \<Rightarrow> size_t" where
  "segment_allocation_capacity p =
     (if m_actual_buffered_size p < m_pause_writer_threshold p
      then m_pause_writer_threshold p - m_actual_buffered_size p else 0)"

definition writer_available_capacity :: "pipeline \<Rightarrow> size_t" where
  "writer_available_capacity p =
     (if has_writable_tail p then writable_size (last (m_deque p))
      else if segment_allocation_capacity p \<ge> m_buffer_size p then m_buffer_size p else 0)"

definition should_pause_writer :: "pipeline \<Rightarrow> bool" where
  "should_pause_writer p \<longleftrightarrow>
     \<not> has_writable_tail p \<and> segment_allocation_capacity p < m_buffer_size p"

definition is_any_completed :: "pipeline \<Rightarrow> bool" where
  "is_any_completed p \<longleftrightarrow> m_writer_completed p \<or> m_reader_completed p"

section \<open>Reading\<close>

record read_result =
  rr_buffer :: segmented_byte_view
  rr_completed :: bool
  rr_cancelled :: bool

fun readable_view_loop :: "data_segment list \<Rightarrow> byte list list \<Rightarrow> size_t \<Rightarrow> segmented_byte_view" where
  "readable_view_loop [] readable_segments total_size = view_make readable_segments total_size"
| "readable_view_loop (segment # rest) readable_segments total_size =
     (if readable_size segment \<noteq> 0
      then readable_view_loop rest (readable_segments @ [readable_bytes segment])
             (total_size + readable_size segment)
      else readable_view_loop rest readable_segments total_size)"

definition make_readable_view :: "data_segment list \<Rightarrow> segmented_byte_view" where
  "make_readable_view segments = readable_view_loop segments [] 0"

text \<open>The two constructors; the first also writes the size through its reference parameter.\<close>

definition read_result_make :: "data_segment list \<Rightarrow> bool \<Rightarrow> read_result \<times> size_t" where
  "read_result_make segments is_completed =
     (let buffer = make_readable_view segments in
        (\<lparr>rr_buffer = buffer, rr_completed = is_completed, rr_cancelled = False\<rparr>, view_size buffer))"

definition read_result_cancelled :: "bool \<Rightarrow> read_result" where
  "read_result_cancelled cancelled =
     \<lparr>rr_buffer = view_empty, rr_completed = False, rr_cancelled = cancelled\<rparr>"

definition read_result_bool :: "read_result \<Rightarrow> bool" where
  "read_result_bool r \<longleftrightarrow> \<not> rr_cancelled r"

datatype 'r call = Throws cpp_exception | Blocks pipeline | Returns 'r pipeline

text \<open>The part of \<open>read_at_least\<close> after the wait.\<close>

definition read_snapshot :: "bool \<Rightarrow> pipeline \<Rightarrow> read_result call" where
  "read_snapshot stop_requested p =
     (if stop_requested then Returns (read_result_cancelled True) p
      else
        (case read_result_make (m_deque p) (m_writer_completed p) of (r, n) \<Rightarrow>
           Returns r (p\<lparr>m_has_pending_read := True, m_pending_read_size := n\<rparr>)))"

text \<open>One turn of the wait: it ends when a stop is requested or the predicate holds.\<close>

definition read_wait :: "size_t \<Rightarrow> bool \<Rightarrow> pipeline \<Rightarrow> read_result call" where
  "read_wait min_size stop_requested p =
     (if stop_requested \<or> data_available min_size p
      then read_snapshot stop_requested (p\<lparr>m_reader_waiting := False\<rparr>)
      else Blocks p)"

definition read_at_least :: "size_t \<Rightarrow> bool \<Rightarrow> pipeline \<Rightarrow> read_result call" where
  "read_at_least min_size stop_requested p =
     (if m_has_pending_read p
      then Throws (std_logic_error ''advance(consumed, examined) must be called before the next read'')
      else if m_reader_completed p then Throws (std_logic_error ''pipeline reader is completed'')
      else if \<not> m_writer_completed p
        then read_wait min_size stop_requested (p\<lparr>m_reader_waiting := True\<rparr>)
      else read_snapshot stop_requested p)"

definition reader_read :: "bool \<Rightarrow> pipeline \<Rightarrow> read_result call" where
  "reader_read stop_requested p = read_at_least 0 stop_requested p"

section \<open>Advancing\<close>

text \<open>The consuming loop.  Popping the head segment runs its destructor, which returns its buffer.\<close>

function consume_loop :: "size_t \<Rightarrow> pipeline \<Rightarrow> pipeline option" where
  "consume_loop remaining_consumed p =
     (if remaining_consumed > 0 then
        (case m_deque p of
           [] \<Rightarrow> None
         | head # rest \<Rightarrow>
             if remaining_consumed < readable_size head then
               (case advance_read remaining_consumed head of
                  Inl e \<Rightarrow> None
                | Inr head' \<Rightarrow>
                    Some (p\<lparr>m_deque := head' # rest,
                            m_buffered_size := m_buffered_size p - remaining_consumed\<rparr>))
             else
               (case mr_deallocate (m_buffer head) (m_capacity head) (m_allocator p, m_heap p) of
                  None \<Rightarrow> None
                | Some (a, h) \<Rightarrow>
                    consume_loop (remaining_consumed - readable_size head)
                      (p\<lparr>m_deque := rest, m_allocator := a, m_heap := h,
                         m_buffered_size := m_buffered_size p - readable_size head,
                         m_actual_buffered_size := m_actual_buffered_size p - m_buffer_size p\<rparr>)))
      else Some p)"
  by pat_completeness auto
termination
  by (relation "measure (\<lambda>(n, p). length (m_deque p))") auto

declare consume_loop.simps [simp del]

text \<open>\<open>advance\<close> returns whether it notifies \<open>m_space_available\<close> after releasing the mutex.\<close>

definition advance :: "position \<Rightarrow> position \<Rightarrow> pipeline \<Rightarrow> (bool \<times> pipeline) throws option" where
  "advance consumed examined p =
     (let consumed_offset = sequence_offset consumed; examined_offset = sequence_offset examined in
      if consumed_offset > examined_offset
        then Some (Inl (std_invalid_argument ''consumed must be <= examined''))
      else if m_reader_completed p then Some (Inl (std_logic_error ''pipeline reader is completed''))
      else if \<not> m_has_pending_read p
        then Some (Inl (std_logic_error ''advance called without a pending read''))
      else if examined_offset > m_pending_read_size p
        then Some (Inl (std_out_of_range ''examined exceeds the most recent read buffer length''))
      else
        (let was_paused = m_writer_paused p in
         case consume_loop consumed_offset p of
           None \<Rightarrow> None
         | Some p1 \<Rightarrow>
             (let p2 = p1\<lparr>m_examined_size := examined_offset - consumed_offset\<rparr>;
                  p3 = (if m_writer_paused p2 \<and> should_resume_writer p2
                        then p2\<lparr>m_writer_paused := False\<rparr> else p2);
                  p4 = p3\<lparr>m_pending_read_size := 0, m_has_pending_read := False\<rparr>
              in Some (Inr (was_paused \<and> \<not> m_writer_paused p4, p4)))))"

definition reader_advance_to :: "position \<Rightarrow> pipeline \<Rightarrow> (bool \<times> pipeline) throws option" where
  "reader_advance_to consumed p = advance consumed consumed p"

definition reader_advance_view :: "segmented_byte_view \<Rightarrow> pipeline \<Rightarrow> (bool \<times> pipeline) throws option" where
  "reader_advance_view v p = advance (view_begin v) (view_end v) p"

section \<open>Writing\<close>

definition get_segment :: "pipeline \<Rightarrow> pipeline option" where
  "get_segment p =
     (if m_deque p = [] \<or> seg_full (last (m_deque p)) then
        (case mr_allocate (m_buffer_size p) (m_allocator p, m_heap p) of
           None \<Rightarrow> None
         | Some (ptr, a, h) \<Rightarrow>
             (case data_segment_make (m_buffer_size p) ptr of
                None \<Rightarrow> None
              | Some s \<Rightarrow>
                  Some (p\<lparr>m_allocator := a, m_heap := h, m_deque := m_deque p @ [s],
                          m_actual_buffered_size := m_actual_buffered_size p + m_buffer_size p\<rparr>)))
      else Some p)"

text \<open>\<open>get_segment().copy_from(data, n)\<close>: the copy goes to the last segment of the deque.\<close>

definition copy_into_tail :: "byte list \<Rightarrow> size_t \<Rightarrow> pipeline \<Rightarrow> (size_t \<times> pipeline) option" where
  "copy_into_tail data n p =
     (case get_segment p of
        None \<Rightarrow> None
      | Some p1 \<Rightarrow>
          (case copy_from data n (last (m_deque p1)) of (k, s) \<Rightarrow>
             Some (k, p1\<lparr>m_deque := butlast (m_deque p1) @ [s]\<rparr>)))"

datatype write_status =
    W_throw cpp_exception
  | W_return size_t
  | W_unlock "byte list" size_t bool

text \<open>
  The inner loop.  It leaves the function with an exception or a return, or it ends with the rest of
  the data, the count so far and whether \<open>m_data_available\<close> is to be notified after unlocking.
\<close>

lemma copy_from_count: "fst (copy_from data n s) = min (writable_size s) n"
  by (simp add: copy_from_def Let_def writable_size_def)

lemma data_segment_make_writable: "data_segment_make n p = Some s \<Longrightarrow> writable_size s = n"
  by (auto simp: data_segment_make_def writable_size_def split: if_splits)

lemma copy_into_tail_count:
  assumes "copy_into_tail data n p = Some (k, p')" and "n \<le> writer_available_capacity p"
  shows "k = n"
proof -
  obtain p1 s where p1: "get_segment p = Some p1" and cp: "copy_from data n (last (m_deque p1)) = (k, s)"
    using assms(1) by (auto simp: copy_into_tail_def split: option.splits prod.splits)
  then have k: "k = min (writable_size (last (m_deque p1))) n"
    using copy_from_count [of data n "last (m_deque p1)"] by simp
  show ?thesis
  proof (cases "has_writable_tail p")
    case True
    then have "p1 = p" using p1 by (simp add: get_segment_def has_writable_tail_def)
    with k True assms(2) show ?thesis by (simp add: writer_available_capacity_def min_absorb2)
  next
    case False
    then have "writable_size (last (m_deque p1)) = m_buffer_size p"
      using p1 by (auto simp: get_segment_def has_writable_tail_def data_segment_make_writable
          split: option.splits if_splits)
    moreover have "n \<le> m_buffer_size p"
      using assms(2) False by (simp add: writer_available_capacity_def split: if_splits)
    ultimately show ?thesis using k by (simp add: min_absorb2)
  qed
qed

function write_loop ::
  "(nat \<Rightarrow> bool) \<Rightarrow> nat \<Rightarrow> byte list \<Rightarrow> size_t \<Rightarrow> bool \<Rightarrow> pipeline \<Rightarrow> (write_status \<times> pipeline) option"
where
  "write_loop stop i data copied notify_data_available p =
     (if span_size data \<noteq> 0 \<and> \<not> m_writer_paused p then
        if is_any_completed p then Some (W_throw (std_logic_error ''pipeline is completed''), p)
        else if stop i then Some (W_return copied, p)
        else
          (let available_capacity = writer_available_capacity p in
           if available_capacity = 0
           then Some (W_unlock data copied notify_data_available, p\<lparr>m_writer_paused := True\<rparr>)
           else
             (let requested_size = min (span_size data) available_capacity in
              case copy_into_tail data requested_size p of
                None \<Rightarrow> None
              | Some (copy_size, p1) \<Rightarrow>
                  (let p2 = p1\<lparr>m_buffered_size := m_buffered_size p1 + copy_size\<rparr>;
                       p3 = (if should_pause_writer p2 then p2\<lparr>m_writer_paused := True\<rparr> else p2)
                   in write_loop stop (Suc i) (subspan_from data copy_size) (copied + copy_size)
                        (notify_data_available \<or> m_reader_waiting p2) p3)))
      else Some (W_unlock data copied notify_data_available, p))"
  by pat_completeness auto
termination
proof (relation "measure (\<lambda>(stop, i, data, copied, notify, p). length data)", goal_cases)
  case (2 stop i data copied notify p cap req kp k p1)
  then have "k = req" by (auto intro: copy_into_tail_count)
  moreover have "req \<noteq> 0" using 2 by (auto simp: min_def)
  moreover have "data \<noteq> []" using 2 by auto
  ultimately show ?case by (auto simp: subspan_from_def word_neq_0_conv unat_gt_0)
qed simp

declare write_loop.simps [simp del]

text \<open>
  One turn of the outer loop of \<open>write\<close>, for data that is not empty: the completion check, the wait
  and the inner loop.  \<open>stop_wait\<close> is the stop state when the wait tests it.
\<close>

datatype write_outcome = W_blocks | W_done write_status pipeline

definition write_wait :: "bool \<Rightarrow> (nat \<Rightarrow> bool) \<Rightarrow> byte list \<Rightarrow> size_t \<Rightarrow> pipeline \<Rightarrow> write_outcome option" where
  "write_wait stop_wait stop data copied p =
     (if stop_wait \<or> space_available p
      then map_option (\<lambda>(st, p'). W_done st p') (write_loop stop 0 data copied False p)
      else Some W_blocks)"

definition write_section :: "bool \<Rightarrow> (nat \<Rightarrow> bool) \<Rightarrow> byte list \<Rightarrow> size_t \<Rightarrow> pipeline \<Rightarrow> write_outcome option" where
  "write_section stop_wait stop data copied p =
     (if is_any_completed p then Some (W_done (W_throw (std_logic_error ''pipeline is completed'')) p)
      else write_wait stop_wait stop data copied p)"

section \<open>Completion\<close>

definition complete_writer :: "pipeline \<Rightarrow> pipeline" where
  "complete_writer p = p\<lparr>m_writer_paused := False, m_writer_completed := True\<rparr>"

definition complete_reader :: "pipeline \<Rightarrow> pipeline" where
  "complete_reader p =
     p\<lparr>m_reader_completed := True, m_has_pending_read := False, m_writer_paused := False,
       m_pending_read_size := 0, m_buffered_size := 0, m_actual_buffered_size := 0,
       m_examined_size := 0\<rparr>"

text \<open>
  The destructor completes both sides; then the members are destroyed, the segments before the
  memory resource they return their buffers to.
\<close>

fun destroy_segments :: "data_segment list \<Rightarrow> memory_resource \<times> heap \<Rightarrow> (memory_resource \<times> heap) option" where
  "destroy_segments [] mh = Some mh"
| "destroy_segments (s # ss) mh =
     (case mr_deallocate (m_buffer s) (m_capacity s) mh of None \<Rightarrow> None | Some mh' \<Rightarrow> destroy_segments ss mh')"

definition mr_destroy :: "memory_resource \<times> heap \<Rightarrow> heap option" where
  "mr_destroy mh =
     (case mh of
        (Fixed_pool r, h) \<Rightarrow> map_option snd (fixed_pool_destroy r h)
      | (Arena_pool r, h) \<Rightarrow> arena_destroy r h
      | (Unsynchronized_pool n, h) \<Rightarrow> Some h)"

definition pipeline_destroy :: "pipeline \<Rightarrow> heap option" where
  "pipeline_destroy p =
     (let p' = complete_reader (complete_writer p) in
      case destroy_segments (m_deque p') (m_allocator p', m_heap p') of
        None \<Rightarrow> None
      | Some mh \<Rightarrow> mr_destroy mh)"

section \<open>The writer endpoint\<close>

text \<open>
  \<open>pipe_writer::write\<close> either returns at once or starts the outer loop of \<open>pipeline::write\<close> on the
  bytes given.  A null pointer is \<open>None\<close>; a string or a trivially copyable object is its bytes.
\<close>

datatype write_call = Write_returns size_t | Write_starts "byte list"

definition pipeline_write :: "byte list \<Rightarrow> write_call" where
  "pipeline_write data = (if span_size data = 0 then Write_returns 0 else Write_starts data)"

definition writer_write :: "byte list option \<Rightarrow> size_t \<Rightarrow> write_call" where
  "writer_write data n =
     (if data = None \<and> n > 0 then Write_returns 0
      else pipeline_write (case data of None \<Rightarrow> [] | Some mem \<Rightarrow> take (unat n) mem))"

definition writer_write_value :: "byte list \<Rightarrow> write_call" where
  "writer_write_value representation = pipeline_write representation"

section \<open>The resource contract for the pipeline's resource\<close>

definition mr_bytes :: "memory_resource \<Rightarrow> size_t" where
  "mr_bytes m =
     (case m of Fixed_pool r \<Rightarrow> m_pool_buffer_size r | Arena_pool r \<Rightarrow> m_segment_size r
      | Unsynchronized_pool n \<Rightarrow> n)"

definition mr_room :: "memory_resource \<Rightarrow> nat \<Rightarrow> bool" where
  "mr_room m n = (case m of Arena_pool r \<Rightarrow> n < unat (m_arena_max_pool_size r) | _ \<Rightarrow> True)"

definition mr_owns :: "memory_resource \<times> heap \<Rightarrow> pointer list \<Rightarrow> bool" where
  "mr_owns mh ps =
     (case mh of
        (Fixed_pool r, h) \<Rightarrow> fixed_owns (r, h) ps
      | (Arena_pool r, h) \<Rightarrow> arena_owns r ps \<and> blocks h (fst (m_storage r)) \<noteq> None
      | (Unsynchronized_pool n, h) \<Rightarrow> heap_ok h \<and> whole_blocks h n ps)"

lemmas mr_defs = mr_bytes_def mr_room_def mr_owns_def mr_allocate_def mr_deallocate_def

lemma mr_allocate_ok:
  assumes "mr_owns (m, h) ps" and "mr_room m (length ps)"
  shows "\<exists>p m' h'. mr_allocate (mr_bytes m) (m, h) = Some (p, m', h') \<and> mr_owns (m', h') (ps @ [p])
     \<and> mr_room m' = mr_room m \<and> mr_bytes m' = mr_bytes m
     \<and> (\<forall>q \<in> set ps. disjoint_buffers (unat (mr_bytes m)) p q)"
proof (cases m)
  case (Fixed_pool r)
  then show ?thesis
    using assms fixed_allocate_ok [of r h ps]
    by (fastforce simp: mr_defs fixed_allocate_def fun_eq_iff)
next
  case (Arena_pool r)
  then obtain i where i: "arena_owns_from i r ps" using assms(1) by (auto simp: mr_owns_def arena_owns_def)
  have "length ps < unat (m_arena_max_pool_size r)" using Arena_pool assms(2) by (simp add: mr_room_def)
  note al = arena_allocate_ok [OF i this]
  show ?thesis
    using Arena_pool al assms(1) by (auto simp: mr_defs arena_allocate_def arena_owns_def fun_eq_iff)
next
  case (Unsynchronized_pool n)
  then have "heap_ok h" "whole_blocks h n ps" using assms(1) by (simp_all add: mr_owns_def)
  note new = heap_ok_new [OF this(1), of n] whole_blocks_new [OF this]
  show ?thesis
    using Unsynchronized_pool new whole_blocks_disjoint [OF new(2)]
    by (auto simp: mr_defs split: prod.splits)
qed

lemma mr_deallocate_ok:
  assumes "mr_owns (m, h) (p # ps)"
  shows "\<exists>m' h'. mr_deallocate p (mr_bytes m) (m, h) = Some (m', h') \<and> mr_owns (m', h') ps
     \<and> mr_room m' = mr_room m \<and> mr_bytes m' = mr_bytes m"
proof (cases m)
  case (Fixed_pool r)
  then show ?thesis
    using assms fixed_deallocate_ok [of r h p ps]
    by (fastforce simp: mr_defs fixed_deallocate_def fun_eq_iff)
next
  case (Arena_pool r)
  then obtain i where i: "arena_owns_from i r (p # ps)" using assms(1) by (auto simp: mr_owns_def arena_owns_def)
  note de = arena_deallocate_ok [OF i]
  show ?thesis
    using Arena_pool de assms by (auto simp: mr_defs arena_deallocate_def arena_owns_def fun_eq_iff)
next
  case (Unsynchronized_pool n)
  then show ?thesis
    using assms whole_blocks_delete [of h n "[]" p ps] by (auto simp: mr_defs)
qed

interpretation mr: fifo_resource "\<lambda>mh. mr_allocate (mr_bytes (fst mh)) mh"
  "\<lambda>p mh. mr_deallocate p (mr_bytes (fst mh)) mh" mr_owns "\<lambda>mh. mr_room (fst mh)"
  "\<lambda>mh. unat (mr_bytes (fst mh))"
proof unfold_locales
  fix r ps
  assume "mr_owns r ps" "mr_room (fst r) (length ps)"
  then show "\<exists>p r'. mr_allocate (mr_bytes (fst r)) r = Some (p, r') \<and> mr_owns r' (ps @ [p])
      \<and> mr_room (fst r') = mr_room (fst r) \<and> unat (mr_bytes (fst r')) = unat (mr_bytes (fst r))
      \<and> (\<forall>q \<in> set ps. disjoint_buffers (unat (mr_bytes (fst r))) p q)"
    using mr_allocate_ok [of "fst r" "snd r" ps] by fastforce
next
  fix r p ps
  assume "mr_owns r (p # ps)"
  then show "\<exists>r'. mr_deallocate p (mr_bytes (fst r)) r = Some r' \<and> mr_owns r' ps
      \<and> mr_room (fst r') = mr_room (fst r) \<and> unat (mr_bytes (fst r')) = unat (mr_bytes (fst r))"
    using mr_deallocate_ok [of "fst r" "snd r" p ps] by fastforce
qed

section \<open>The storage invariant\<close>

definition pipe_bytes :: "pipeline \<Rightarrow> byte list" where
  "pipe_bytes p = concat (map readable_bytes (m_deque p))"

definition segs_ok :: "size_t \<Rightarrow> data_segment list \<Rightarrow> bool" where
  "segs_ok bs segs \<longleftrightarrow>
     (\<forall>s \<in> set segs. seg_ok s \<and> m_capacity s = bs \<and> readable_size s \<noteq> 0)
     \<and> (\<forall>s \<in> set (butlast segs). seg_full s)"

definition resource_ok :: "pipeline \<Rightarrow> bool" where
  "resource_ok p \<longleftrightarrow>
     0 < m_buffer_size p \<and> mr_bytes (m_allocator p) = m_buffer_size p
     \<and> mr_owns (m_allocator p, m_heap p) (map m_buffer (m_deque p))
     \<and> (\<forall>n. Suc n * unat (m_buffer_size p) \<le> unat (m_pause_writer_threshold p) \<longrightarrow> mr_room (m_allocator p) n)
     \<and> segs_ok (m_buffer_size p) (m_deque p)
     \<and> length (m_deque p) * unat (m_buffer_size p) \<le> unat (m_pause_writer_threshold p)"

definition counters_ok :: "pipeline \<Rightarrow> bool" where
  "counters_ok p \<longleftrightarrow>
     unat (m_actual_buffered_size p) = length (m_deque p) * unat (m_buffer_size p)
     \<and> unat (m_buffered_size p) = length (pipe_bytes p)"

definition reader_ok :: "pipeline \<Rightarrow> bool" where
  "reader_ok p \<longleftrightarrow>
     unat (m_examined_size p) \<le> unat (m_buffered_size p)
     \<and> unat (m_pending_read_size p) \<le> unat (m_buffered_size p)
     \<and> (m_has_pending_read p \<or> m_pending_read_size p = 0)"

definition pipe_ok :: "pipeline \<Rightarrow> bool" where
  "pipe_ok p \<longleftrightarrow> resource_ok p \<and> (\<not> m_reader_completed p \<longrightarrow> counters_ok p \<and> reader_ok p)"

text \<open>The fields that neither consuming nor copying touches.\<close>

definition same_frame :: "pipeline \<Rightarrow> pipeline \<Rightarrow> bool" where
  "same_frame p q \<longleftrightarrow>
     m_pause_writer_threshold q = m_pause_writer_threshold p
     \<and> m_resume_writer_threshold q = m_resume_writer_threshold p
     \<and> m_buffer_size q = m_buffer_size p \<and> m_examined_size q = m_examined_size p
     \<and> m_pending_read_size q = m_pending_read_size p \<and> m_reader_waiting q = m_reader_waiting p
     \<and> m_has_pending_read q = m_has_pending_read p \<and> m_writer_completed q = m_writer_completed p
     \<and> m_reader_completed q = m_reader_completed p"

lemma same_frame_refl [simp]: "same_frame p p"
  by (simp add: same_frame_def)

lemma same_frame_trans: "same_frame p q \<Longrightarrow> same_frame q r \<Longrightarrow> same_frame p r"
  by (simp add: same_frame_def)

lemma length_readable_le:
  assumes "seg_ok s"
  shows "length (readable_bytes s) \<le> unat (m_capacity s)"
  using assms length_readable_bytes [OF assms] by (simp add: seg_ok_def readable_size_def)

lemma length_segs_bytes:
  assumes "\<forall>s \<in> set segs. seg_ok s \<and> m_capacity s = bs"
  shows "length (concat (map readable_bytes segs)) \<le> length segs * unat bs"
  using assms
proof (induction segs)
  case (Cons s segs)
  then show ?case using length_readable_le [of s] by auto
qed simp

lemma pipe_bytes_bound:
  assumes "resource_ok p"
  shows "length (pipe_bytes p) \<le> unat (m_pause_writer_threshold p)"
  using assms length_segs_bytes [of "m_deque p" "m_buffer_size p"]
  by (auto simp: resource_ok_def segs_ok_def pipe_bytes_def)

end
