(* ===== verification/Pipeline_Correct.thy ===== *)
theory Pipeline_Correct
  imports Pipeline
begin

text \<open>
  The correctness of the byte pipeline: the storage invariant \<open>pipe_ok\<close> is kept by every critical
  section, no assertion of a memory resource fires, a read shows exactly the buffered bytes, and the
  bytes leave in the order they were written.
\<close>

section \<open>Consuming\<close>

lemma segs_ok_Cons:
  "segs_ok bs (s # segs) \<longleftrightarrow>
     seg_ok s \<and> m_capacity s = bs \<and> readable_size s \<noteq> 0 \<and> (segs = [] \<or> seg_full s) \<and> segs_ok bs segs"
  by (auto simp: segs_ok_def)

lemma readable_head_le:
  assumes "segs_ok bs (s # segs)"
  shows "length (readable_bytes s) = unat (readable_size s)" and "0 < unat (readable_size s)"
  using assms by (auto simp: segs_ok_Cons length_readable_bytes unat_gt_0)

lemma pop_head_ok:
  assumes r: "resource_ok p" and c: "counters_ok p" and d: "m_deque p = s # rest"
  obtains a h p' where "mr_deallocate (m_buffer s) (m_capacity s) (m_allocator p, m_heap p) = Some (a, h)"
    and "p' = p\<lparr>m_deque := rest, m_allocator := a, m_heap := h,
                m_buffered_size := m_buffered_size p - readable_size s,
                m_actual_buffered_size := m_actual_buffered_size p - m_buffer_size p\<rparr>"
    and "resource_ok p'" and "counters_ok p'" and "pipe_bytes p = readable_bytes s @ pipe_bytes p'"
proof -
  have so: "segs_ok (m_buffer_size p) (s # rest)" using r d by (simp add: resource_ok_def)
  have "mr_owns (m_allocator p, m_heap p) (m_buffer s # map m_buffer rest)"
    using r d by (simp add: resource_ok_def)
  from mr_deallocate_ok [OF this] obtain a h where
      ah: "mr_deallocate (m_buffer s) (mr_bytes (m_allocator p)) (m_allocator p, m_heap p) = Some (a, h)"
      "mr_owns (a, h) (map m_buffer rest)" "mr_room a = mr_room (m_allocator p)"
      "mr_bytes a = mr_bytes (m_allocator p)" by blast
  let ?p = "p\<lparr>m_deque := rest, m_allocator := a, m_heap := h,
                m_buffered_size := m_buffered_size p - readable_size s,
                m_actual_buffered_size := m_actual_buffered_size p - m_buffer_size p\<rparr>"
  have cap: "m_capacity s = mr_bytes (m_allocator p)" using so r by (simp add: segs_ok_Cons resource_ok_def)
  have bytes: "pipe_bytes p = readable_bytes s @ pipe_bytes ?p" by (simp add: pipe_bytes_def d)
  have "resource_ok ?p"
    using r ah so d by (auto simp: resource_ok_def segs_ok_Cons)
  moreover have "readable_size s \<le> m_buffered_size p"
    using c bytes readable_head_le [OF so] by (simp add: counters_ok_def size_le_iff)
  moreover have "m_buffer_size p \<le> m_actual_buffered_size p"
    using c d by (simp add: counters_ok_def size_le_iff)
  ultimately have "counters_ok ?p"
    using c d bytes readable_head_le [OF so]
    by (simp add: counters_ok_def unat_sub_size)
  with \<open>resource_ok ?p\<close> ah cap bytes show thesis by (intro that) auto
qed

text \<open>Consuming a part of the first segment.\<close>

lemma advance_head_ok:
  assumes ok: "resource_ok p" "counters_ok p" and d: "m_deque p = s # rest" and n: "n < readable_size s"
  obtains s' where "advance_read n s = Inr s'"
    and "resource_ok (p\<lparr>m_deque := s' # rest, m_buffered_size := m_buffered_size p - n\<rparr>)"
    and "counters_ok (p\<lparr>m_deque := s' # rest, m_buffered_size := m_buffered_size p - n\<rparr>)"
    and "pipe_bytes (p\<lparr>m_deque := s' # rest, m_buffered_size := m_buffered_size p - n\<rparr>) = drop (unat n) (pipe_bytes p)"
proof -
  have so: "segs_ok (m_buffer_size p) (s # rest)" using ok(1) d by (simp add: resource_ok_def)
  obtain s' where s': "advance_read n s = Inr s'" "seg_ok s'"
      "readable_bytes s' = drop (unat n) (readable_bytes s)"
      "unat (readable_size s') = unat (readable_size s) - unat n"
      "writable_size s' = writable_size s" "m_buffer s' = m_buffer s" "m_capacity s' = m_capacity s"
    using so n by (auto simp: segs_ok_Cons intro: advance_read_ok [of s n])
  let ?p = "p\<lparr>m_deque := s' # rest, m_buffered_size := m_buffered_size p - n\<rparr>"
  have "unat (readable_size s') \<noteq> 0" using s'(4) n by (simp add: size_less_iff)
  then have "segs_ok (m_buffer_size p) (s' # rest)"
    using so s' by (auto simp: segs_ok_Cons seg_full_def writable_size_def)
  then have "resource_ok ?p" using ok(1) d s' by (auto simp: resource_ok_def)
  moreover have bytes: "pipe_bytes ?p = drop (unat n) (pipe_bytes p)"
    using s'(3) n readable_head_le [OF so] by (simp add: pipe_bytes_def d size_less_iff)
  moreover have "n \<le> m_buffered_size p"
    using ok(2) n readable_head_le [OF so] by (simp add: counters_ok_def size_le_iff size_less_iff pipe_bytes_def d)
  then have "counters_ok ?p" using ok(2) bytes d by (simp add: counters_ok_def unat_sub_size)
  ultimately show thesis using that s'(1) by blast
qed

lemma consume_loop_ok:
  assumes "resource_ok p" and "counters_ok p" and "unat n \<le> length (pipe_bytes p)"
  shows "\<exists>p'. consume_loop n p = Some p' \<and> resource_ok p' \<and> counters_ok p'
           \<and> pipe_bytes p' = drop (unat n) (pipe_bytes p) \<and> same_frame p p'
           \<and> m_writer_paused p' = m_writer_paused p"
  using assms
proof (induction n p rule: consume_loop.induct)
  case (1 n p)
  show ?case
  proof (cases "n = 0")
    case True
    with 1 show ?thesis by (subst consume_loop.simps) simp
  next
    case False
    then have npos: "0 < n" by (simp add: word_neq_0_conv)
    have "m_deque p \<noteq> []"
      using False 1(4) by (auto simp: pipe_bytes_def unat_eq_zero)
    then obtain s rest where d: "m_deque p = s # rest" by (cases "m_deque p") auto
    show ?thesis
    proof (cases "n < readable_size s")
      case True
      from advance_head_ok [OF 1(2,3) d True] obtain s' where s': "advance_read n s = Inr s'"
          "resource_ok (p\<lparr>m_deque := s' # rest, m_buffered_size := m_buffered_size p - n\<rparr>)"
          "counters_ok (p\<lparr>m_deque := s' # rest, m_buffered_size := m_buffered_size p - n\<rparr>)"
          "pipe_bytes (p\<lparr>m_deque := s' # rest, m_buffered_size := m_buffered_size p - n\<rparr>) = drop (unat n) (pipe_bytes p)" .
      moreover have "consume_loop n p = Some (p\<lparr>m_deque := s' # rest, m_buffered_size := m_buffered_size p - n\<rparr>)"
        using npos d True s'(1) by (subst consume_loop.simps) simp
      ultimately show ?thesis by (auto simp: same_frame_def)
    next
      case False
      have so: "segs_ok (m_buffer_size p) (s # rest)" using 1(2) d by (simp add: resource_ok_def)
      obtain a h p' where
          dealloc: "mr_deallocate (m_buffer s) (m_capacity s) (m_allocator p, m_heap p) = Some (a, h)"
        and p': "p' = p\<lparr>m_deque := rest, m_allocator := a, m_heap := h,
                m_buffered_size := m_buffered_size p - readable_size s,
                m_actual_buffered_size := m_actual_buffered_size p - m_buffer_size p\<rparr>"
        and ok: "resource_ok p'" "counters_ok p'" and bytes: "pipe_bytes p = readable_bytes s @ pipe_bytes p'"
        using pop_head_ok [OF 1(2,3) d] by metis
      have le: "readable_size s \<le> n" using False by simp
      then have un: "unat (n - readable_size s) = unat n - unat (readable_size s)" by (rule unat_sub_size)
      have "unat (n - readable_size s) \<le> length (pipe_bytes p')"
        using 1(4) bytes readable_head_le [OF so] un by simp
      from 1(1) [OF npos d False dealloc refl, folded p', OF ok this] obtain q where
          q: "consume_loop (n - readable_size s) p' = Some q" "resource_ok q" "counters_ok q"
          "pipe_bytes q = drop (unat (n - readable_size s)) (pipe_bytes p')" "same_frame p' q"
          "m_writer_paused q = m_writer_paused p'" by blast
      have "consume_loop n p = Some q"
        using npos d False dealloc q(1) p' by (subst consume_loop.simps) simp
      moreover have "pipe_bytes q = drop (unat n) (pipe_bytes p)"
        using q(4) bytes un readable_head_le [OF so] le by (simp add: size_le_iff)
      moreover have "same_frame p q \<and> m_writer_paused q = m_writer_paused p"
        using q(5,6) p' by (simp add: same_frame_def)
      ultimately show ?thesis using q(2,3) by blast
    qed
  qed
qed

section \<open>Writing\<close>

text \<open>The state between \<open>get_segment\<close> and the copy: the tail segment may still be empty.\<close>

definition tail_ready :: "pipeline \<Rightarrow> data_segment list \<Rightarrow> data_segment \<Rightarrow> bool" where
  "tail_ready p front s \<longleftrightarrow>
     m_deque p = front @ [s] \<and> 0 < m_buffer_size p \<and> mr_bytes (m_allocator p) = m_buffer_size p
     \<and> mr_owns (m_allocator p, m_heap p) (map m_buffer (m_deque p))
     \<and> (\<forall>n. Suc n * unat (m_buffer_size p) \<le> unat (m_pause_writer_threshold p) \<longrightarrow> mr_room (m_allocator p) n)
     \<and> segs_ok (m_buffer_size p) front \<and> (\<forall>s \<in> set front. seg_full s)
     \<and> seg_ok s \<and> m_capacity s = m_buffer_size p
     \<and> length (m_deque p) * unat (m_buffer_size p) \<le> unat (m_pause_writer_threshold p)
     \<and> counters_ok p"

text \<open>The bytes that still fit before the writer has to pause: the rest of the tail segment and whole
  new segments up to the pause threshold.\<close>

definition free_room :: "pipeline \<Rightarrow> nat" where
  "free_room p =
     (if m_deque p = [] then 0 else unat (writable_size (last (m_deque p))))
     + (unat (m_pause_writer_threshold p) - unat (m_actual_buffered_size p)) div unat (m_buffer_size p)
       * unat (m_buffer_size p)"

text \<open>The constants of a pipeline.\<close>

definition same_config :: "pipeline \<Rightarrow> pipeline \<Rightarrow> bool" where
  "same_config p q \<longleftrightarrow>
     m_pause_writer_threshold q = m_pause_writer_threshold p
     \<and> m_resume_writer_threshold q = m_resume_writer_threshold p \<and> m_buffer_size q = m_buffer_size p"

lemma segs_ok_snoc:
  "segs_ok bs (segs @ [s]) \<longleftrightarrow>
     segs_ok bs segs \<and> (\<forall>s \<in> set segs. seg_full s) \<and> seg_ok s \<and> m_capacity s = bs \<and> readable_size s \<noteq> 0"
  by (auto simp: segs_ok_def dest: in_set_butlastD)

lemma tail_ready_existing:
  assumes "resource_ok p" and "counters_ok p" and "has_writable_tail p"
  shows "tail_ready p (butlast (m_deque p)) (last (m_deque p))"
proof -
  have d: "m_deque p = butlast (m_deque p) @ [last (m_deque p)]"
    using assms(3) by (simp add: has_writable_tail_def)
  then have "segs_ok (m_buffer_size p) (butlast (m_deque p) @ [last (m_deque p)])"
    using assms(1) by (simp add: resource_ok_def)
  with assms d show ?thesis unfolding segs_ok_snoc by (simp add: tail_ready_def resource_ok_def)
qed

lemma get_segment_new:
  assumes r: "resource_ok p" and c: "counters_ok p" and t: "\<not> has_writable_tail p"
    and cap: "m_buffer_size p \<le> segment_allocation_capacity p"
  obtains p1 s where "get_segment p = Some p1" and "tail_ready p1 (m_deque p) s"
    and "writable_size s = m_buffer_size p" and "readable_bytes s = []"
    and "same_frame p p1" and "m_writer_paused p1 = m_writer_paused p" and "free_room p1 = free_room p"
proof -
  let ?bs = "unat (m_buffer_size p)" and ?pause = "unat (m_pause_writer_threshold p)"
  have pos: "0 < m_buffer_size p" using r by (simp add: resource_ok_def)
  have act: "unat (m_actual_buffered_size p) = length (m_deque p) * ?bs"
    using c by (simp add: counters_ok_def)
  have "m_actual_buffered_size p < m_pause_writer_threshold p"
      "m_buffer_size p \<le> m_pause_writer_threshold p - m_actual_buffered_size p"
    using cap pos by (auto simp: segment_allocation_capacity_def split: if_splits)
  then have fits: "Suc (length (m_deque p)) * ?bs \<le> ?pause"
    using act by (simp add: size_le_iff size_less_iff unat_sub_size)
  have "mr_room (m_allocator p) (length (map m_buffer (m_deque p)))"
    using r fits by (simp add: resource_ok_def)
  moreover have "mr_owns (m_allocator p, m_heap p) (map m_buffer (m_deque p))"
    using r by (simp add: resource_ok_def)
  ultimately obtain ptr a h where
      al: "mr_allocate (mr_bytes (m_allocator p)) (m_allocator p, m_heap p) = Some (ptr, a, h)"
      "mr_owns (a, h) (map m_buffer (m_deque p) @ [ptr])" "mr_room a = mr_room (m_allocator p)"
      "mr_bytes a = mr_bytes (m_allocator p)"
    using mr_allocate_ok by blast
  obtain s where s: "data_segment_make (m_buffer_size p) ptr = Some s" "seg_ok s" "readable_bytes s = []"
      "writable_size s = m_buffer_size p" "m_buffer s = ptr" "m_capacity s = m_buffer_size p"
    using data_segment_make_ok [OF pos, of ptr] by blast
  define p1 where "p1 = p\<lparr>m_allocator := a, m_heap := h, m_deque := m_deque p @ [s],
      m_actual_buffered_size := m_actual_buffered_size p + m_buffer_size p\<rparr>"
  have "get_segment p = Some p1"
    using t al(1) s(1) r by (simp add: get_segment_def has_writable_tail_def p1_def resource_ok_def)
  moreover have "unat (m_actual_buffered_size p + m_buffer_size p) = Suc (length (m_deque p)) * ?bs"
    using act fits unat_size_bound [of "m_pause_writer_threshold p"] by (simp add: unat_add_size)
  then have "counters_ok p1" using c s(3) by (simp add: counters_ok_def p1_def pipe_bytes_def)
  moreover have "\<forall>s \<in> set (m_deque p). seg_full s"
  proof (cases "m_deque p = []")
    case False
    then have "m_deque p = butlast (m_deque p) @ [last (m_deque p)]" by simp
    with t False r show ?thesis
      by (metis Un_iff has_writable_tail_def resource_ok_def segs_ok_def set_append set_ConsD empty_iff
          empty_set)
  qed simp
  moreover have "tail_ready p1 (m_deque p) s"
    using r al s fits calculation by (auto simp: tail_ready_def resource_ok_def p1_def)
  moreover have "(?pause - length (m_deque p) * ?bs) div ?bs
      = Suc ((?pause - Suc (length (m_deque p)) * ?bs) div ?bs)"
    using fits pos by (subst le_div_geq) (auto simp: unat_gt_0 word_neq_0_conv add.commute)
  then have "free_room p1 = free_room p"
    using act s(4) t \<open>unat (m_actual_buffered_size p + m_buffer_size p) = Suc (length (m_deque p)) * ?bs\<close>
    by (auto simp: free_room_def p1_def has_writable_tail_def seg_full_def writable_size_def)
  ultimately show thesis
    using s by (intro that [of p1 s]) (simp_all add: p1_def same_frame_def)
qed

lemma copy_tail_ok:
  assumes t: "tail_ready p front s" and n: "n \<le> writable_size s" "n \<noteq> 0" "unat n \<le> length data"
    and cp: "copy_from data n s = (k, s')"
    and p': "p' = p\<lparr>m_deque := front @ [s'], m_buffered_size := m_buffered_size p + k\<rparr>"
  shows "k = n" and "resource_ok p'" and "counters_ok p'"
    and "pipe_bytes p' = pipe_bytes p @ take (unat n) data"
    and "free_room p' + unat n = free_room p"
proof -
  have ok: "seg_ok s" using t by (simp add: tail_ready_def)
  note s' = copy_from_ok [OF ok n(3) cp]
  show k: "k = n" using s'(1) n(1) by (simp add: min_absorb2)
  have "unat (readable_size s') \<noteq> 0" using s'(5) k n(2) by (simp add: unat_eq_zero)
  then have "readable_size s' \<noteq> 0" by auto
  with t s' show r: "resource_ok p'"
    by (auto simp: resource_ok_def tail_ready_def p' segs_ok_snoc)
  show bytes: "pipe_bytes p' = pipe_bytes p @ take (unat n) data"
    using t s'(4) k by (simp add: pipe_bytes_def tail_ready_def p')
  have "unat (m_buffered_size p + n) = unat (m_buffered_size p) + unat n"
    using pipe_bytes_bound [OF r] bytes n(3) t p' unat_size_bound [of "m_pause_writer_threshold p"]
    by (simp add: unat_add_size tail_ready_def counters_ok_def)
  then show "counters_ok p'"
    using t bytes n(3) k by (simp add: counters_ok_def tail_ready_def p')
  show "free_room p' + unat n = free_room p"
    using t s'(6) k n(1) by (simp add: free_room_def tail_ready_def p' size_le_iff)
qed

lemma copy_into_tail_ok:
  assumes r: "resource_ok p" and c: "counters_ok p" and n: "n \<le> writer_available_capacity p" "n \<noteq> 0"
    and len: "unat n \<le> length data"
  obtains p1 p2 where "copy_into_tail data n p = Some (n, p1)"
    and "p2 = p1\<lparr>m_buffered_size := m_buffered_size p1 + n\<rparr>"
    and "resource_ok p2" and "counters_ok p2" and "pipe_bytes p2 = pipe_bytes p @ take (unat n) data"
    and "same_frame p p2" and "m_writer_paused p2 = m_writer_paused p"
    and "free_room p2 + unat n = free_room p"
proof -
  obtain q front s where q: "get_segment p = Some q" "tail_ready q front s" "n \<le> writable_size s"
      "pipe_bytes q = pipe_bytes p" "same_frame p q" "m_writer_paused q = m_writer_paused p"
      "free_room q = free_room p"
  proof (cases "has_writable_tail p")
    case True
    with n(1) show thesis
      by (intro that [OF _ tail_ready_existing [OF r c True]])
        (auto simp: get_segment_def has_writable_tail_def writer_available_capacity_def)
  next
    case False
    with n have cap: "m_buffer_size p \<le> segment_allocation_capacity p" "n \<le> m_buffer_size p"
      by (auto simp: writer_available_capacity_def split: if_splits)
    obtain q s where "get_segment p = Some q" and t: "tail_ready q (m_deque p) s"
      and "writable_size s = m_buffer_size p" "readable_bytes s = []"
      and "same_frame p q" "m_writer_paused q = m_writer_paused p" "free_room q = free_room p"
      using get_segment_new [OF r c False cap(1)] by metis
    moreover have "pipe_bytes q = pipe_bytes p"
      using t calculation(4) by (simp add: pipe_bytes_def tail_ready_def)
    ultimately show thesis using cap(2) that by metis
  qed
  obtain k s' where cp: "copy_from data n s = (k, s')" by fastforce
  have d: "m_deque q = front @ [s]" using q(2) by (simp add: tail_ready_def)
  define p2 where "p2 = q\<lparr>m_deque := front @ [s'], m_buffered_size := m_buffered_size q + k\<rparr>"
  note facts = copy_tail_ok [OF q(2,3) n(2) len cp p2_def]
  have "copy_into_tail data n p = Some (n, q\<lparr>m_deque := front @ [s']\<rparr>)"
    using q(1) cp d facts(1) by (simp add: copy_into_tail_def)
  moreover have "p2 = q\<lparr>m_deque := front @ [s']\<rparr>
      \<lparr>m_buffered_size := m_buffered_size (q\<lparr>m_deque := front @ [s']\<rparr>) + n\<rparr>"
    using facts(1) by (cases q) (simp add: p2_def)
  moreover have "same_frame p p2 \<and> m_writer_paused p2 = m_writer_paused p"
    using q(5,6) by (simp add: p2_def same_frame_def)
  ultimately show thesis using facts q(4,7) that by metis
qed

text \<open>Setting the pause flag changes nothing else that the proofs look at.\<close>

lemma paused_update [simp]:
  "resource_ok (p\<lparr>m_writer_paused := b\<rparr>) = resource_ok p"
  "counters_ok (p\<lparr>m_writer_paused := b\<rparr>) = counters_ok p"
  "pipe_bytes (p\<lparr>m_writer_paused := b\<rparr>) = pipe_bytes p"
  "free_room (p\<lparr>m_writer_paused := b\<rparr>) = free_room p"
  "should_pause_writer (p\<lparr>m_writer_paused := b\<rparr>) = should_pause_writer p"
  "same_frame p (p\<lparr>m_writer_paused := b\<rparr>)"
  by (simp_all add: resource_ok_def counters_ok_def same_frame_def pipe_bytes_def free_room_def
      should_pause_writer_def has_writable_tail_def segment_allocation_capacity_def)

lemma available_capacity_room:
  assumes "resource_ok p"
  shows "unat (writer_available_capacity p) \<le> free_room p"
    and "writer_available_capacity p = 0 \<longleftrightarrow> should_pause_writer p"
    and "should_pause_writer p \<longleftrightarrow> free_room p = 0"
proof -
  let ?k = "unat (m_pause_writer_threshold p) - unat (m_actual_buffered_size p)"
  have pos: "0 < m_buffer_size p" using assms by (simp add: resource_ok_def)
  then have bs: "0 < unat (m_buffer_size p)" by (simp add: unat_gt_0 word_neq_0_conv)
  have cap: "unat (segment_allocation_capacity p) = ?k"
    by (simp add: segment_allocation_capacity_def unat_sub_size size_less_iff size_le_iff)
  have tail: "has_writable_tail p \<longleftrightarrow> m_deque p \<noteq> [] \<and> unat (writable_size (last (m_deque p))) \<noteq> 0"
    by (simp add: has_writable_tail_def seg_full_def writable_size_def unat_eq_zero)
  show "unat (writer_available_capacity p) \<le> free_room p"
    using bs cap tail by (auto simp: writer_available_capacity_def free_room_def size_le_iff
        le_div_geq split: if_splits)
  show "writer_available_capacity p = 0 \<longleftrightarrow> should_pause_writer p"
    using pos tail by (auto simp: writer_available_capacity_def should_pause_writer_def not_le)
  show "should_pause_writer p \<longleftrightarrow> free_room p = 0"
    using bs cap tail
    by (auto simp: should_pause_writer_def free_room_def size_less_iff div_eq_0_iff)
qed

text \<open>
  What one run of the inner loop does, \<open>n\<close> being the number of bytes it appended: on every exit the
  appended bytes are the first \<open>n\<close> of the data and the report of the loop counts them.
\<close>

definition write_report ::
  "(nat \<Rightarrow> bool) \<Rightarrow> byte list \<Rightarrow> size_t \<Rightarrow> bool \<Rightarrow> pipeline \<Rightarrow> nat \<Rightarrow> write_status \<Rightarrow> pipeline \<Rightarrow> bool"
where
  "write_report stop data copied notify p n st p' \<longleftrightarrow>
     (case st of
        W_throw e \<Rightarrow>
          n = 0 \<and> p' = p \<and> is_any_completed p \<and> e = std_logic_error ''pipeline is completed''
      | W_return c \<Rightarrow> (\<exists>j. stop j) \<and> n < length data \<and> unat c = unat copied + n
      | W_unlock rest c nt \<Rightarrow>
          n = (if m_writer_paused p then 0 else min (length data) (free_room p))
          \<and> rest = drop n data \<and> unat c = unat copied + n
          \<and> nt = (notify \<or> (0 < n \<and> m_reader_waiting p)) \<and> (rest \<noteq> [] \<longrightarrow> m_writer_paused p'))"

lemma write_report_step:
  assumes "write_report stop (drop r data) copied' (notify \<or> m_reader_waiting q) q n st p'"
    and "same_frame p q" and "\<not> is_any_completed p" and "\<not> m_writer_paused p"
    and "unat copied' = unat copied + r" and "0 < r" and "r \<le> length data"
    and "free_room q + r = free_room p" and "m_writer_paused q \<longleftrightarrow> free_room q = 0"
  shows "write_report stop data copied notify p (r + n) st p'"
  using assms
  by (cases st) (auto simp: write_report_def same_frame_def is_any_completed_def add.commute min_def
      split: if_splits)

text \<open>A turn of the loop that copies: the pipeline after it and the call that is left.\<close>

lemma write_copy_turn:
  assumes ok: "resource_ok p" "counters_ok p" and small: "unat copied + length data < 2 ^ 64"
    and go: "data \<noteq> []" "\<not> m_writer_paused p" "\<not> is_any_completed p" "\<not> stop i" "writer_available_capacity p \<noteq> 0"
  obtains q req where "0 < unat req" and "unat req \<le> length data" and "unat (copied + req) = unat copied + unat req"
    and "resource_ok q" "counters_ok q" and "pipe_bytes q = pipe_bytes p @ take (unat req) data" and "same_frame p q"
    and "free_room q + unat req = free_room p" and "m_writer_paused q \<longleftrightarrow> free_room q = 0"
    and "m_writer_paused q = should_pause_writer q"
    and "write_loop stop i data copied notify p =
      write_loop stop (Suc i) (drop (unat req) data) (copied + req) (notify \<or> m_reader_waiting q) q"
proof -
  have dlen: "length data < 2 ^ 64" and size: "unat (span_size data) = length data"
    using small by (simp_all add: unat_span_size)
  let ?req = "min (span_size data) (writer_available_capacity p)"
  have req: "?req \<le> writer_available_capacity p" "?req \<noteq> 0" "unat ?req \<le> length data"
    using go size dlen by (auto simp: size_eq_iff [of "min _ _"] unat_min_size unat_gt_0)
  obtain p1 p2 where cp: "copy_into_tail data ?req p = Some (?req, p1)"
    and p2: "p2 = p1\<lparr>m_buffered_size := m_buffered_size p1 + ?req\<rparr>"
    and ok2: "resource_ok p2" "counters_ok p2" "pipe_bytes p2 = pipe_bytes p @ take (unat ?req) data"
      "same_frame p p2" "m_writer_paused p2 = m_writer_paused p" "free_room p2 + unat ?req = free_room p"
    using copy_into_tail_ok [OF ok req] by metis
  define q where "q = (if should_pause_writer p2 then p2\<lparr>m_writer_paused := True\<rparr> else p2)"
  have q: "resource_ok q" "counters_ok q" "pipe_bytes q = pipe_bytes p2" "same_frame p2 q"
      "free_room q = free_room p2" "m_writer_paused q = should_pause_writer p2"
      "should_pause_writer q = should_pause_writer p2" "m_reader_waiting q = m_reader_waiting p1"
    using ok2(1,2,5) go(2) p2 by (simp_all add: q_def)
  have cnt: "unat (copied + ?req) = unat copied + unat ?req" using small req(3) by (simp add: unat_add_size)
  have "write_loop stop i data copied notify p =
      write_loop stop (Suc i) (drop (unat ?req) data) (copied + ?req) (notify \<or> m_reader_waiting q) q"
    using go cp dlen q(8) q_def
    by (subst write_loop.simps) (auto simp add: span_size_eq_0_iff Let_def subspan_from_def simp flip: p2)
  moreover have "m_writer_paused q \<longleftrightarrow> free_room q = 0"
    using available_capacity_room(3) [OF ok2(1)] q(5,6) by simp
  ultimately show thesis
    using that [of ?req q] req(2,3) cnt q(1-7) ok2(3,4,6) same_frame_trans by (simp add: unat_gt_0)
qed

lemma write_loop_ok:
  assumes "resource_ok p" and "counters_ok p" and "unat copied + length data < 2 ^ 64"
  shows "\<exists>st p' n. write_loop stop i data copied notify p = Some (st, p')
           \<and> resource_ok p' \<and> counters_ok p' \<and> same_frame p p'
           \<and> n \<le> length data \<and> pipe_bytes p' = pipe_bytes p @ take n data
           \<and> write_report stop data copied notify p n st p'
           \<and> (m_writer_paused p' \<longrightarrow> m_writer_paused p \<and> p' = p \<or> should_pause_writer p')"
  using assms
proof (induction "length data" arbitrary: i data copied notify p rule: less_induct)
  case less
  note ok = less.prems(1,2) and dlen = add_lessD1 [OF less.prems(3) [unfolded add.commute [of "unat copied"]]]
  consider (fin) "data = [] \<or> m_writer_paused p" | (completed) "data \<noteq> []" "\<not> m_writer_paused p" "is_any_completed p"
    | (stop) "data \<noteq> []" "\<not> m_writer_paused p" "\<not> is_any_completed p" "stop i"
    | (pause) "data \<noteq> []" "\<not> m_writer_paused p" "\<not> is_any_completed p" "\<not> stop i" "writer_available_capacity p = 0"
    | (copy) "data \<noteq> []" "\<not> m_writer_paused p" "\<not> is_any_completed p" "\<not> stop i" "writer_available_capacity p \<noteq> 0"
    by blast
  then show ?case
  proof cases
    case fin
    then show ?thesis
      using ok dlen by (subst write_loop.simps) (auto simp: write_report_def span_size_eq_0_iff)
  next
    case completed
    then show ?thesis
      using ok dlen by (subst write_loop.simps) (auto simp: write_report_def span_size_eq_0_iff intro!: exI [of _ 0])
  next
    case stop
    then have "write_loop stop i data copied notify p = Some (W_return copied, p)"
      using dlen by (subst write_loop.simps) (simp add: span_size_eq_0_iff)
    moreover have "write_report stop data copied notify p 0 (W_return copied) p"
      using stop by (auto simp: write_report_def)
    ultimately show ?thesis using ok by fastforce
  next
    case pause
    then have "should_pause_writer p" "free_room p = 0" using available_capacity_room [OF ok(1)] by auto
    then show ?thesis
      using ok pause dlen
      by (subst write_loop.simps) (auto simp: write_report_def span_size_eq_0_iff intro!: exI [of _ 0])
  next
    case copy
    obtain q r where q: "0 < unat r" "unat r \<le> length data" "unat (copied + r) = unat copied + unat r"
        "resource_ok q" "counters_ok q" "pipe_bytes q = pipe_bytes p @ take (unat r) data" "same_frame p q"
        "free_room q + unat r = free_room p" "m_writer_paused q \<longleftrightarrow> free_room q = 0" "m_writer_paused q = should_pause_writer q"
        "write_loop stop i data copied notify p =
          write_loop stop (Suc i) (drop (unat r) data) (copied + r) (notify \<or> m_reader_waiting q) q"
      using write_copy_turn [of p copied data stop i, OF less.prems copy] by metis
    have "length (drop (unat r) data) < length data" using q(1) copy(1) by simp
    from less.hyps [OF this q(4,5), of "copied + r" "Suc i" "notify \<or> m_reader_waiting q"] less.prems(3) q(2,3)
    obtain st p' n where ih: "write_loop stop i data copied notify p = Some (st, p')"
        "resource_ok p'" "counters_ok p'" "same_frame q p'" "n \<le> length (drop (unat r) data)"
        "pipe_bytes p' = pipe_bytes q @ take n (drop (unat r) data)"
        "write_report stop (drop (unat r) data) (copied + r) (notify \<or> m_reader_waiting q) q n st p'"
        "m_writer_paused p' \<longrightarrow> m_writer_paused q \<and> p' = q \<or> should_pause_writer p'"
      unfolding q(11) by auto
    have "write_report stop data copied notify p (unat r + n) st p'"
      using write_report_step [OF ih(7) q(7) copy(3,2) q(3,1,2,8,9)] .
    moreover have "pipe_bytes p' = pipe_bytes p @ take (unat r + n) data"
      using ih(6) q(6) by (simp add: take_add)
    moreover have "unat r + n \<le> length data" using ih(5) q(2) by simp
    moreover have "m_writer_paused p' \<longrightarrow> should_pause_writer p'" using ih(8) q(10) by blast
    ultimately show ?thesis using ih(1-4) same_frame_trans [OF q(7)] by blast
  qed
qed

section \<open>Reading\<close>

lemma readable_view_loop_ok:
  assumes "\<forall>s \<in> set segs. seg_ok s" and "unat total_size = length (concat acc)"
    and "length (concat acc) + length (concat (map readable_bytes segs)) < 2 ^ 64"
  shows "view_bytes (readable_view_loop segs acc total_size) = concat acc @ concat (map readable_bytes segs)
       \<and> unat (m_size (readable_view_loop segs acc total_size))
           = length (concat acc) + length (concat (map readable_bytes segs))
       \<and> m_begin_offset (readable_view_loop segs acc total_size) = 0
       \<and> length (m_segments (readable_view_loop segs acc total_size)) \<le> length acc + length segs"
  using assms
proof (induction segs arbitrary: acc total_size)
  case Nil
  then show ?case by (simp add: view_make_def view_bytes_def)
next
  case (Cons s segs)
  have len: "length (readable_bytes s) = unat (readable_size s)"
    using Cons.prems by (simp add: length_readable_bytes)
  show ?case
  proof (cases "readable_size s = 0")
    case True
    then have "readable_bytes s = []" using len by simp
    with True Cons.IH [of total_size acc] Cons.prems show ?thesis by simp
  next
    case False
    have "unat (total_size + readable_size s) = length (concat (acc @ [readable_bytes s]))"
      using Cons.prems len by (simp add: unat_add_size)
    with False Cons.IH [of "total_size + readable_size s" "acc @ [readable_bytes s]"] Cons.prems len
    show ?thesis by simp
  qed
qed

lemma pipe_bytes_empty:
  assumes "resource_ok p"
  shows "pipe_bytes p = [] \<longleftrightarrow> m_deque p = []"
proof
  assume "pipe_bytes p = []"
  then have "readable_bytes s = []" if "s \<in> set (m_deque p)" for s using that by (simp add: pipe_bytes_def)
  moreover have "readable_bytes s \<noteq> []" if "s \<in> set (m_deque p)" for s
  proof -
    have "length (readable_bytes s) = unat (readable_size s)" "readable_size s \<noteq> 0"
      using assms that by (auto simp: resource_ok_def segs_ok_def length_readable_bytes)
    then show ?thesis by (metis list.size(3) unat_eq_zero)
  qed
  ultimately show "m_deque p = []" by (metis list.set_intros(1) neq_Nil_conv)
qed (simp add: pipe_bytes_def)

lemma length_deque_bound:
  assumes "resource_ok p"
  shows "length (m_deque p) < 2 ^ 64"
proof -
  have "0 < unat (m_buffer_size p)" using assms by (simp add: resource_ok_def unat_gt_0 word_neq_0_conv)
  then have "length (m_deque p) \<le> length (m_deque p) * unat (m_buffer_size p)" by simp
  also have "\<dots> \<le> unat (m_pause_writer_threshold p)" using assms by (simp add: resource_ok_def)
  finally show ?thesis using unat_size_bound [of "m_pause_writer_threshold p"] by simp
qed

lemma make_readable_view_ok:
  assumes r: "resource_ok p"
  shows "view_ok (make_readable_view (m_deque p))"
    and "view_bytes (make_readable_view (m_deque p)) = pipe_bytes p"
    and "m_begin_offset (make_readable_view (m_deque p)) = 0"
    and "unat (view_size (make_readable_view (m_deque p))) = length (pipe_bytes p)"
proof -
  have "length (pipe_bytes p) < 2 ^ 64"
    using pipe_bytes_bound [OF r] unat_size_bound [of "m_pause_writer_threshold p"] by simp
  moreover have "\<forall>s \<in> set (m_deque p). seg_ok s" using r by (simp add: resource_ok_def segs_ok_def)
  ultimately have facts: "view_bytes (make_readable_view (m_deque p)) = pipe_bytes p"
      "unat (m_size (make_readable_view (m_deque p))) = length (pipe_bytes p)"
      "m_begin_offset (make_readable_view (m_deque p)) = 0"
      "length (m_segments (make_readable_view (m_deque p))) \<le> length (m_deque p)"
    using readable_view_loop_ok [of "m_deque p" 0 "[]"] by (simp_all add: make_readable_view_def pipe_bytes_def)
  then show "view_bytes (make_readable_view (m_deque p)) = pipe_bytes p"
    "m_begin_offset (make_readable_view (m_deque p)) = 0"
    "unat (view_size (make_readable_view (m_deque p))) = length (pipe_bytes p)"
    by (simp_all add: view_size_def)
  show "view_ok (make_readable_view (m_deque p))"
    using facts \<open>length (pipe_bytes p) < 2 ^ 64\<close> length_deque_bound [OF r] by (simp add: view_ok_def)
qed

text \<open>Changing the flags and counters of the reader does not touch the storage.\<close>

lemma reader_update [simp]:
  "resource_ok (p\<lparr>m_reader_waiting := b\<rparr>) = resource_ok p"
  "resource_ok (p\<lparr>m_has_pending_read := b\<rparr>) = resource_ok p"
  "resource_ok (p\<lparr>m_pending_read_size := n\<rparr>) = resource_ok p"
  "resource_ok (p\<lparr>m_examined_size := n\<rparr>) = resource_ok p"
  "counters_ok (p\<lparr>m_reader_waiting := b\<rparr>) = counters_ok p"
  "counters_ok (p\<lparr>m_has_pending_read := b\<rparr>) = counters_ok p"
  "counters_ok (p\<lparr>m_pending_read_size := n\<rparr>) = counters_ok p"
  "counters_ok (p\<lparr>m_examined_size := n\<rparr>) = counters_ok p"
  "pipe_bytes (p\<lparr>m_reader_waiting := b\<rparr>) = pipe_bytes p"
  "pipe_bytes (p\<lparr>m_has_pending_read := b\<rparr>) = pipe_bytes p"
  "pipe_bytes (p\<lparr>m_pending_read_size := n\<rparr>) = pipe_bytes p"
  "pipe_bytes (p\<lparr>m_examined_size := n\<rparr>) = pipe_bytes p"
  "reader_ok (p\<lparr>m_reader_waiting := b\<rparr>) = reader_ok p"
  by (simp_all add: resource_ok_def counters_ok_def pipe_bytes_def reader_ok_def)

lemma pipe_ok_waiting [simp]: "pipe_ok (p\<lparr>m_reader_waiting := b\<rparr>) = pipe_ok p"
  by (simp add: pipe_ok_def)

lemma read_snapshot_ok:
  assumes "pipe_ok p"
  obtains p' where "read_snapshot stop p =
      Returns (if stop then read_result_cancelled True
               else \<lparr>rr_buffer = make_readable_view (m_deque p), rr_completed = m_writer_completed p,
                     rr_cancelled = False\<rparr>) p'"
    and "pipe_ok p'" and "pipe_bytes p' = pipe_bytes p"
    and "stop \<Longrightarrow> p' = p"
    and "\<not> stop \<Longrightarrow> m_has_pending_read p' \<and> unat (m_pending_read_size p') = length (pipe_bytes p)"
proof -
  have r: "resource_ok p" using assms by (simp add: pipe_ok_def)
  let ?q = "p\<lparr>m_has_pending_read := True, m_pending_read_size := view_size (make_readable_view (m_deque p))\<rparr>"
  have "pipe_ok ?q"
    using assms make_readable_view_ok(4) [OF r] by (auto simp: pipe_ok_def reader_ok_def counters_ok_def)
  then show thesis
    using assms make_readable_view_ok(4) [OF r] that
    by (cases stop) (auto simp: read_snapshot_def read_result_make_def Let_def)
qed

section \<open>Construction\<close>

text \<open>The number of pooled segments is the pause threshold over the segment size, rounded up.\<close>

lemma ceiling_div:
  fixes pause bs :: size_t
  assumes "0 < bs"
  shows "unat (pause div bs + (if pause mod bs \<noteq> 0 then 1 else 0))
       = unat pause div unat bs + (if unat pause mod unat bs = 0 then 0 else 1)"
proof (cases "pause mod bs = 0")
  case True
  then have "unat pause mod unat bs = 0" by (simp flip: unat_mod)
  then show ?thesis using True by (simp add: unat_div)
next
  case False
  then have m: "unat pause mod unat bs \<noteq> 0" by (simp add: unat_eq_zero flip: unat_mod)
  have "unat bs \<noteq> 1" using m by auto
  moreover have "0 < unat bs" using assms by (simp add: unat_gt_0 word_neq_0_conv)
  ultimately have "2 \<le> unat bs" by simp
  then have "unat pause div unat bs \<le> unat pause div 2" by (simp add: div_le_mono2)
  then have "unat (pause div bs) + unat (1 :: size_t) < 2 ^ 64"
    using unat_size_bound [of pause] by (simp add: unat_div)
  from unat_add_size [OF this] show ?thesis using False m by (simp add: unat_div)
qed

lemma le_ceiling_div:
  fixes a b :: nat
  assumes "0 < b" and "Suc n * b \<le> a"
  shows "n < a div b + (if a mod b = 0 then 0 else 1)"
proof -
  have "Suc n \<le> a div b" using assms by (simp only: less_eq_div_iff_mult_less_eq)
  then show ?thesis by simp
qed

lemma ceiling_div_mult:
  fixes a b :: nat
  assumes "0 < b"
  shows "(a div b + (if a mod b = 0 then 0 else 1)) * b < a + b"
proof -
  define d where "d = a div b * b"
  have "d + a mod b = a" unfolding d_def by (rule div_mult_mod_eq)
  with assms show ?thesis by (simp add: add_mult_distrib flip: d_def)
qed

text \<open>A configuration that the constructor accepts; the arena also needs its size not to overflow.\<close>

definition options_ok :: "bool \<Rightarrow> pipe_options \<Rightarrow> bool" where
  "options_ok experimental options \<longleftrightarrow>
     0 < opt_buffer_size options \<and> 0 < opt_pause_writer_threshold options
     \<and> opt_resume_writer_threshold options \<le> opt_pause_writer_threshold options
     \<and> (experimental \<and> opt_allocator options = arena_pool_resource_kind \<longrightarrow>
          unat (opt_pause_writer_threshold options) + unat (opt_buffer_size options) \<le> 2 ^ 64)"

lemma make_allocator_ok:
  assumes h: "heap_ok h" and o: "options_ok experimental options"
    and v: "validate_options options = Inr vo"
  obtains a h' where "make_allocator experimental (vo_allocator vo) vo h = Some (a, h')"
    and "mr_bytes a = opt_buffer_size options" and "mr_owns (a, h') []"
    and "\<forall>n. Suc n * unat (opt_buffer_size options) \<le> unat (opt_pause_writer_threshold options)
              \<longrightarrow> mr_room a n"
proof -
  let ?bs = "opt_buffer_size options" and ?pause = "opt_pause_writer_threshold options"
  define k where "k = ?pause div ?bs + (if ?pause mod ?bs \<noteq> 0 then 1 else 0)"
  have pos: "0 < ?bs" "0 < ?pause" using o by (auto simp: options_ok_def)
  then have bs: "0 < unat ?bs" and pa: "0 < unat ?pause" by (simp_all add: unat_gt_0 word_neq_0_conv)
  have k: "unat k = unat ?pause div unat ?bs + (if unat ?pause mod unat ?bs = 0 then 0 else 1)"
    using ceiling_div [OF pos(1), of ?pause] by (simp add: k_def)
  have kpos: "0 < k" using k bs pa by (auto simp: size_less_iff div_greater_zero_iff mod_eq_0_iff_dvd dest: dvd_imp_le)
  have vo: "vo_buffer_size vo = ?bs" "vo_max_pooled_segments vo = k" "vo_allocator vo = opt_allocator options"
    using v by (auto simp: validate_options_def k_def Let_def split: if_splits)
  have room: "n < unat k" if "Suc n * unat ?bs \<le> unat ?pause" for n
    using le_ceiling_div [OF bs that] k by simp
  have "fixed_pool_make ?bs k = Some \<lparr>m_available_buffers = [], m_pool_buffer_size = ?bs, m_max_pool_size = k\<rparr>"
    using pos kpos by (simp add: fixed_pool_make_def)
  note fixed = this
  show thesis
  proof (cases "experimental \<and> opt_allocator options = arena_pool_resource_kind")
    case True
    have "unat k * unat ?bs < unat ?pause + unat ?bs"
      using ceiling_div_mult [OF bs] k by simp
    then have "unat k * unat ?bs < 2 ^ 64" using o True by (simp add: options_ok_def)
    from arena_make_owns [OF pos(1) kpos this, of h] obtain r h' where
        "arena_make ?bs k h = Some (r, h')" "arena_owns r []" "m_segment_size r = ?bs"
        "m_arena_max_pool_size r = k" "blocks h' (fst (m_storage r)) \<noteq> None" by blast
    with True vo room show thesis
      by (intro that [of "Arena_pool r" h']) (auto simp: make_allocator_def mr_defs)
  next
    case False
    show thesis
    proof (cases "experimental \<and> opt_allocator options = unsynchronized_pool_resource_kind")
      case True
      with vo h show thesis
        by (intro that [of "Unsynchronized_pool ?bs" h]) (simp_all add: make_allocator_def mr_defs whole_blocks_def)
    next
      case other: False
      with False have "make_allocator experimental (vo_allocator vo) vo h
          = map_option (\<lambda>r. (Fixed_pool r, h)) (fixed_pool_make ?bs k)"
        using vo by (cases "opt_allocator options") (simp_all add: make_allocator_def)
      with fixed h pos show thesis
        by (intro that) (auto simp: mr_defs fixed_owns_def whole_blocks_def)
    qed
  qed
qed

lemma pipeline_make_ok:
  assumes "heap_ok h" and "options_ok experimental options"
  obtains p where "pipeline_make experimental options h = Some (Inr p)" and "pipe_ok p"
    and "pipe_bytes p = []" and "\<not> is_any_completed p" and "\<not> m_writer_paused p"
    and "\<not> m_has_pending_read p" and "m_examined_size p = 0"
    and "m_pause_writer_threshold p = opt_pause_writer_threshold options"
    and "m_buffer_size p = opt_buffer_size options" and "m_actual_buffered_size p = 0" and "m_deque p = []"
proof -
  have "validate_options options \<noteq> Inl e" for e
    using assms(2) by (auto simp: options_ok_def validate_options_def Let_def not_less)
  then obtain vo where v: "validate_options options = Inr vo" by (cases "validate_options options") auto
  then have vo: "vo_buffer_size vo = opt_buffer_size options"
      "vo_pause_writer_threshold vo = opt_pause_writer_threshold options"
    by (auto simp: validate_options_def Let_def split: if_splits)
  obtain a h' where a: "make_allocator experimental (vo_allocator vo) vo h = Some (a, h')"
      "mr_bytes a = opt_buffer_size options" "mr_owns (a, h') []"
      "\<forall>n. Suc n * unat (opt_buffer_size options) \<le> unat (opt_pause_writer_threshold options)
              \<longrightarrow> mr_room a n"
    using make_allocator_ok [OF assms v] by metis
  show thesis
    using assms(2) v vo a
    by (intro that)
      (auto simp: pipeline_make_def pipeline_construct_def pipe_ok_def resource_ok_def counters_ok_def
        reader_ok_def segs_ok_def pipe_bytes_def is_any_completed_def options_ok_def)
qed

section \<open>The operations keep the invariant\<close>

lemma complete_writer_ok:
  "pipe_ok (complete_writer p) = pipe_ok p" "pipe_bytes (complete_writer p) = pipe_bytes p"
  by (simp_all add: complete_writer_def pipe_ok_def resource_ok_def counters_ok_def reader_ok_def pipe_bytes_def)

lemma complete_reader_ok:
  "pipe_ok p \<Longrightarrow> pipe_ok (complete_reader p)" "pipe_bytes (complete_reader p) = pipe_bytes p"
  by (simp_all add: complete_reader_def pipe_ok_def resource_ok_def pipe_bytes_def)

definition advance_allowed :: "position \<Rightarrow> position \<Rightarrow> pipeline \<Rightarrow> bool" where
  "advance_allowed consumed examined p \<longleftrightarrow>
     \<not> m_reader_completed p \<and> m_has_pending_read p
     \<and> sequence_offset consumed \<le> sequence_offset examined
     \<and> sequence_offset examined \<le> m_pending_read_size p"

lemma advance_ok:
  assumes ok: "pipe_ok p" and al: "advance_allowed consumed examined p"
  obtains p' where "advance consumed examined p = Some (Inr (m_writer_paused p \<and> \<not> m_writer_paused p', p'))"
    and "pipe_ok p'" and "pipe_bytes p' = drop (unat (sequence_offset consumed)) (pipe_bytes p)"
    and "m_examined_size p' = sequence_offset examined - sequence_offset consumed"
    and "\<not> m_has_pending_read p'" and "m_pending_read_size p' = 0"
    and "m_writer_paused p' \<longleftrightarrow> m_writer_paused p \<and> \<not> should_resume_writer p'"
    and "m_reader_completed p' = m_reader_completed p" and "m_writer_completed p' = m_writer_completed p"
    and "m_reader_waiting p' = m_reader_waiting p" and "same_config p p'"
proof -
  let ?c = "sequence_offset consumed" and ?e = "sequence_offset examined"
  have inv: "resource_ok p" "counters_ok p" "reader_ok p" and ce: "?c \<le> ?e" "?e \<le> m_pending_read_size p"
    using ok al by (auto simp: pipe_ok_def advance_allowed_def)
  then have e: "unat ?e \<le> length (pipe_bytes p)" and c: "unat ?c \<le> unat ?e"
    by (auto simp: reader_ok_def counters_ok_def size_le_iff)
  obtain p1 where p1: "consume_loop ?c p = Some p1" "resource_ok p1" "counters_ok p1"
      "pipe_bytes p1 = drop (unat ?c) (pipe_bytes p)" "same_frame p p1" "m_writer_paused p1 = m_writer_paused p"
    using consume_loop_ok [OF inv(1,2), of ?c] e c by auto
  define p' where "p' = p1\<lparr>m_examined_size := ?e - ?c,
      m_writer_paused := m_writer_paused p1 \<and> \<not> should_resume_writer p1,
      m_pending_read_size := 0, m_has_pending_read := False\<rparr>"
  have res: "should_resume_writer p' = should_resume_writer p1"
    by (simp add: p'_def should_resume_writer_def)
  have "advance consumed examined p = Some (Inr (m_writer_paused p \<and> \<not> m_writer_paused p', p'))"
  proof -
    have sr: "should_resume_writer (p1\<lparr>m_examined_size := x\<rparr>) = should_resume_writer p1" for x
      by (simp add: should_resume_writer_def)
    have guards: "\<not> ?e < ?c" "\<not> m_reader_completed p" "m_has_pending_read p" "\<not> m_pending_read_size p < ?e"
      using al by (simp_all add: advance_allowed_def not_less)
    show ?thesis
      using p1(6)
      by (cases "m_writer_paused p1"; cases "should_resume_writer p1")
        (simp_all add: advance_def guards Let_def p1(1) sr p'_def)
  qed
  moreover have "unat (m_buffered_size p1) = length (pipe_bytes p) - unat ?c"
    using p1(3,4) by (simp add: counters_ok_def)
  then have "pipe_ok p'"
    using p1 e c ce(1) by (simp add: pipe_ok_def p'_def reader_ok_def unat_sub_size diff_le_mono)
  moreover have "m_writer_paused p' \<longleftrightarrow> m_writer_paused p \<and> \<not> should_resume_writer p'"
    using p1(6) unfolding res by (simp add: p'_def)
  ultimately show thesis
    using p1(4,5) by (intro that [of p']) (simp_all add: p'_def same_frame_def same_config_def)
qed

lemma advance_refused:
  assumes "\<not> advance_allowed consumed examined p"
  shows "advance consumed examined p = Some (Inl
     (if sequence_offset examined < sequence_offset consumed then std_invalid_argument ''consumed must be <= examined''
      else if m_reader_completed p then std_logic_error ''pipeline reader is completed''
      else if \<not> m_has_pending_read p then std_logic_error ''advance called without a pending read''
      else std_out_of_range ''examined exceeds the most recent read buffer length''))"
  using assms by (simp add: advance_def advance_allowed_def Let_def not_le) (meson not_le)

lemma is_any_completed_same_frame: "same_frame p q \<Longrightarrow> is_any_completed q = is_any_completed p"
  by (simp add: same_frame_def is_any_completed_def)

lemma write_loop_pipe_ok:
  assumes ok: "pipe_ok p" and len: "unat copied + length data < 2 ^ 64"
  obtains st p' n where "write_loop stop i data copied notify p = Some (st, p')" and "pipe_ok p'"
    and "same_frame p p'" and "n \<le> length data" and "pipe_bytes p' = pipe_bytes p @ take n data"
    and "is_any_completed p \<or> write_report stop data copied notify p n st p'"
    and "is_any_completed p \<Longrightarrow> p' = p \<and> n = 0 \<and>
           st = (if data = [] \<or> m_writer_paused p then W_unlock data copied notify
                 else W_throw (std_logic_error ''pipeline is completed''))"
proof (cases "is_any_completed p")
  case True
  then have "write_loop stop i data copied notify p =
      Some (if data = [] \<or> m_writer_paused p then W_unlock data copied notify
            else W_throw (std_logic_error ''pipeline is completed''), p)"
    using len by (subst write_loop.simps) (simp add: span_size_eq_0_iff)
  with True ok show thesis by (intro that [of _ p 0]) auto
next
  case False
  then have inv: "resource_ok p" "counters_ok p" "reader_ok p"
    using ok by (auto simp: pipe_ok_def is_any_completed_def)
  obtain st p' n where w: "write_loop stop i data copied notify p = Some (st, p')" "resource_ok p'"
      "counters_ok p'" "same_frame p p'" "n \<le> length data" "pipe_bytes p' = pipe_bytes p @ take n data"
      "write_report stop data copied notify p n st p'"
    using write_loop_ok [OF inv(1,2) len] by metis
  moreover have "reader_ok p'"
    using inv w(3,4,6) by (auto simp: reader_ok_def counters_ok_def same_frame_def)
  ultimately show thesis using False by (intro that) (auto simp: pipe_ok_def)
qed

section \<open>Every interleaving of critical sections\<close>

text \<open>
  The pipeline with the history of the bytes it accepted and released.  An event is one critical
  section of some thread; the system allows them in any order and with any arguments, so it contains
  every interleaving of a writer and a reader.  \<open>Ev_wake_read\<close> and \<open>Ev_wake_write\<close> are the
  continuation of a blocked call after a wake-up.
\<close>

record pipe_sys =
  ps_pipe :: pipeline
  ps_in :: "byte list"
  ps_out :: "byte list"

datatype pipe_event =
    Ev_read size_t bool
  | Ev_wake_read size_t bool
  | Ev_advance position position
  | Ev_write bool "nat \<Rightarrow> bool" "byte list" size_t
  | Ev_wake_write bool "nat \<Rightarrow> bool" "byte list" size_t
  | Ev_complete_writer
  | Ev_complete_reader

fun call_state :: "'r call \<Rightarrow> pipeline option" where
  "call_state (Throws e) = None"
| "call_state (Blocks p) = Some p"
| "call_state (Returns r p) = Some p"

text \<open>How many bytes a turn of the write loop took, by what it reports.\<close>

fun accepted :: "byte list \<Rightarrow> size_t \<Rightarrow> write_status \<Rightarrow> nat" where
  "accepted data copied (W_throw e) = 0"
| "accepted data copied (W_return c) = unat c - unat copied"
| "accepted data copied (W_unlock rest c nt) = unat c - unat copied"

inductive pipe_step :: "pipe_sys \<Rightarrow> pipe_event \<Rightarrow> pipe_sys \<Rightarrow> bool" where
  step_read:
    "call_state (read_at_least m st (ps_pipe s)) = Some q \<Longrightarrow> pipe_step s (Ev_read m st) (s\<lparr>ps_pipe := q\<rparr>)"
| step_wake_read:
    "call_state (read_wait m st (ps_pipe s)) = Some q \<Longrightarrow> pipe_step s (Ev_wake_read m st) (s\<lparr>ps_pipe := q\<rparr>)"
| step_advance:
    "advance c e (ps_pipe s) = Some (Inr (nt, q)) \<Longrightarrow>
     pipe_step s (Ev_advance c e)
       (s\<lparr>ps_pipe := q, ps_out := ps_out s @ take (unat (sequence_offset c)) (pipe_bytes (ps_pipe s))\<rparr>)"
| step_write:
    "write_section sw st data copied (ps_pipe s) = Some (W_done status q) \<Longrightarrow>
     unat copied + length data < 2 ^ 64 \<Longrightarrow>
     pipe_step s (Ev_write sw st data copied)
       (s\<lparr>ps_pipe := q, ps_in := ps_in s @ take (accepted data copied status) data\<rparr>)"
| step_wake_write:
    "write_wait sw st data copied (ps_pipe s) = Some (W_done status q) \<Longrightarrow>
     unat copied + length data < 2 ^ 64 \<Longrightarrow>
     pipe_step s (Ev_wake_write sw st data copied)
       (s\<lparr>ps_pipe := q, ps_in := ps_in s @ take (accepted data copied status) data\<rparr>)"
| step_complete_writer:
    "pipe_step s Ev_complete_writer (s\<lparr>ps_pipe := complete_writer (ps_pipe s)\<rparr>)"
| step_complete_reader:
    "pipe_step s Ev_complete_reader (s\<lparr>ps_pipe := complete_reader (ps_pipe s)\<rparr>)"

inductive_cases pipe_step_cases: "pipe_step s l t"

definition pipe_init :: "bool \<Rightarrow> pipe_options \<Rightarrow> pipe_sys \<Rightarrow> bool" where
  "pipe_init experimental options s \<longleftrightarrow>
     options_ok experimental options
     \<and> (\<exists>h. heap_ok h \<and> pipeline_make experimental options h = Some (Inr (ps_pipe s)))
     \<and> ps_in s = [] \<and> ps_out s = []"

definition stream_inv :: "pipe_sys \<Rightarrow> bool" where
  "stream_inv s \<longleftrightarrow> pipe_ok (ps_pipe s) \<and> ps_in s = ps_out s @ pipe_bytes (ps_pipe s)"

lemma accepted_report: "write_report stop data copied notify p n st p' \<Longrightarrow> accepted data copied st = n"
  by (cases st) (auto simp: write_report_def)

lemma write_wait_stream:
  assumes "pipe_ok p" and "unat copied + length data < 2 ^ 64"
    and "write_wait sw st data copied p = Some (W_done status q)"
  shows "pipe_ok q \<and> pipe_bytes q = pipe_bytes p @ take (accepted data copied status) data"
proof -
  have loop: "write_loop st 0 data copied False p = Some (status, q)"
    using assms(3) by (auto simp: write_wait_def split: if_splits)
  obtain st' p' n where w: "write_loop st 0 data copied False p = Some (st', p')" "pipe_ok p'"
      "pipe_bytes p' = pipe_bytes p @ take n data"
      "is_any_completed p \<or> write_report st data copied False p n st' p'"
      "is_any_completed p \<Longrightarrow> p' = p \<and> n = 0 \<and>
           st' = (if data = [] \<or> m_writer_paused p then W_unlock data copied False
                 else W_throw (std_logic_error ''pipeline is completed''))"
    using write_loop_pipe_ok [OF assms(1,2)] by metis
  have "accepted data copied st' = n"
    using w(4,5) by (cases "is_any_completed p") (auto intro: accepted_report)
  with w loop show ?thesis by simp
qed

lemma write_section_stream:
  assumes "pipe_ok p" and "unat copied + length data < 2 ^ 64"
    and "write_section sw st data copied p = Some (W_done status q)"
  shows "pipe_ok q \<and> pipe_bytes q = pipe_bytes p @ take (accepted data copied status) data"
  using assms write_wait_stream [OF assms(1,2)]
  by (auto simp: write_section_def split: if_splits)

lemma read_snapshot_stream:
  assumes "pipe_ok p" and "call_state (read_snapshot st p) = Some q"
  shows "pipe_ok q \<and> pipe_bytes q = pipe_bytes p"
  using read_snapshot_ok [OF assms(1), of st] assms(2) by (metis call_state.simps(3) option.inject)

lemma read_wait_stream:
  assumes "pipe_ok p" and "call_state (read_wait m st p) = Some q"
  shows "pipe_ok q \<and> pipe_bytes q = pipe_bytes p"
  using assms read_snapshot_stream [of "p\<lparr>m_reader_waiting := False\<rparr>" st q]
  by (simp add: read_wait_def split: if_splits)

lemma read_at_least_stream:
  assumes "pipe_ok p" and "call_state (read_at_least m st p) = Some q"
  shows "pipe_ok q \<and> pipe_bytes q = pipe_bytes p"
  using assms read_snapshot_stream [of p st q] read_wait_stream [of "p\<lparr>m_reader_waiting := True\<rparr>" m st q]
  by (simp add: read_at_least_def split: if_splits)

lemma advance_stream:
  assumes "pipe_ok p" and "advance c e p = Some (Inr (nt, q))"
  shows "pipe_ok q \<and> pipe_bytes p = take (unat (sequence_offset c)) (pipe_bytes p) @ pipe_bytes q"
proof -
  have "advance_allowed c e p"
    using assms(2) advance_refused [of c e p] by (cases "advance_allowed c e p") auto
  from advance_ok [OF assms(1) this] assms(2) show ?thesis by (metis append_take_drop_id option.inject sum.inject(2) prod.inject)
qed

lemma stream_step:
  assumes "stream_inv s" and "pipe_step s l t"
  shows "stream_inv t"
  using assms(2,1)
proof (cases rule: pipe_step.cases)
  case (step_read m st q)
  then show ?thesis using assms(1) read_at_least_stream by (auto simp: stream_inv_def)
next
  case (step_wake_read m st q)
  then show ?thesis using assms(1) read_wait_stream by (auto simp: stream_inv_def)
next
  case (step_advance c e nt q)
  then show ?thesis using assms(1) advance_stream by (fastforce simp: stream_inv_def)
next
  case (step_write sw st data copied status q)
  then show ?thesis using assms(1) write_section_stream by (fastforce simp: stream_inv_def)
next
  case (step_wake_write sw st data copied status q)
  then show ?thesis using assms(1) write_wait_stream by (fastforce simp: stream_inv_def)
next
  case step_complete_writer
  then show ?thesis using assms(1) by (simp add: stream_inv_def complete_writer_ok)
next
  case step_complete_reader
  then show ?thesis using assms(1) by (simp add: stream_inv_def complete_reader_ok)
qed

interpretation stream: inductive_invariant
  "pipe_init experimental options" pipe_step "\<lambda>_. True" stream_inv
  for experimental options
proof unfold_locales
  fix s
  assume "pipe_init experimental options s"
  then obtain h where h: "options_ok experimental options" "heap_ok h"
      "pipeline_make experimental options h = Some (Inr (ps_pipe s))" "ps_in s = []" "ps_out s = []"
    by (auto simp: pipe_init_def)
  from pipeline_make_ok [OF h(2,1)] h(3-5) show "stream_inv s"
    by (metis append_Nil option.inject stream_inv_def sum.inject(2))
qed (rule stream_step)

section \<open>Destruction and the shape of the storage\<close>

lemma destroy_segments_ok:
  assumes "mr_owns (a, h) (map m_buffer segs)" and "\<forall>s \<in> set segs. m_capacity s = mr_bytes a"
  shows "\<exists>a' h'. destroy_segments segs (a, h) = Some (a', h') \<and> mr_owns (a', h') []"
  using assms
proof (induction segs arbitrary: a h)
  case (Cons s segs)
  then obtain a1 h1 where "mr_deallocate (m_buffer s) (mr_bytes a) (a, h) = Some (a1, h1)"
      "mr_owns (a1, h1) (map m_buffer segs)" "mr_bytes a1 = mr_bytes a"
    using mr_deallocate_ok [of a h "m_buffer s" "map m_buffer segs"] by auto
  with Cons.IH [of a1 h1] Cons.prems(2) show ?case by auto
qed simp

lemma mr_destroy_ok:
  assumes "mr_owns (a, h) []"
  shows "\<exists>h'. mr_destroy (a, h) = Some h'"
proof (cases a)
  case (Fixed_pool r)
  with assms have "heap_ok h" "whole_blocks h (m_pool_buffer_size r) (m_available_buffers r)"
    by (simp_all add: mr_owns_def fixed_owns_def)
  from delete_all_whole_blocks [OF this] Fixed_pool show ?thesis
    by (auto simp: mr_destroy_def fixed_pool_destroy_def)
next
  case (Arena_pool r)
  with assms have "m_active_buffers r = 0" "snd (m_storage r) = 0" "blocks h (fst (m_storage r)) \<noteq> None"
    by (auto simp: mr_owns_def arena_owns_def arena_owns_from_def arena_shape_def unat_eq_zero)
  with Arena_pool show ?thesis by (simp add: mr_destroy_def arena_destroy_def operator_delete_def)
qed (simp add: mr_destroy_def)

lemma pipeline_destroy_ok:
  assumes "pipe_ok p"
  shows "\<exists>h. pipeline_destroy p = Some h"
proof -
  have "mr_owns (m_allocator p, m_heap p) (map m_buffer (m_deque p))"
      "\<forall>s \<in> set (m_deque p). m_capacity s = mr_bytes (m_allocator p)"
    using assms by (auto simp: pipe_ok_def resource_ok_def segs_ok_def)
  from destroy_segments_ok [OF this] mr_destroy_ok show ?thesis
    by (fastforce simp: pipeline_destroy_def complete_reader_def complete_writer_def Let_def)
qed

lemma whole_blocks_pairwise: "whole_blocks h n ps \<Longrightarrow> sorted_wrt (disjoint_buffers k) ps"
  by (induction ps) (auto simp: whole_blocks_def intro!: disjoint_blocks)

lemma arena_owns_pairwise:
  assumes "arena_owns r ps"
  shows "sorted_wrt (disjoint_buffers (unat (m_segment_size r))) ps"
proof -
  obtain i where i: "arena_owns_from i r ps" using assms by (auto simp: arena_owns_def)
  let ?n = "unat (m_arena_max_pool_size r)"
  have sh: "arena_shape r" and len: "length ps \<le> ?n" and ps: "ps = map (arena_slot r) [i..<i + length ps]"
    using i by (auto simp: arena_owns_from_def)
  have nth: "ps ! j = arena_slot r (i + j)" if "j < length ps" for j
    using ps that by (metis add_less_cancel_left length_map length_upt nth_map nth_upt diff_add_inverse)
  show ?thesis
  proof (subst sorted_wrt_iff_nth_less, intro allI impI)
    fix j k assume jk: "j < k" "k < length ps"
    then have "(i + j) mod ?n \<noteq> (i + k) mod ?n"
      using len by (intro mod_window_neq [of i]) auto
    with sh jk show "disjoint_buffers (unat (m_segment_size r)) (ps ! j) (ps ! k)"
      by (simp add: nth slots_disjoint_mod)
  qed
qed

lemma mr_owns_pairwise:
  assumes "mr_owns (a, h) ps"
  shows "sorted_wrt (disjoint_buffers (unat (mr_bytes a))) ps"
  using assms
  by (cases a) (auto simp: mr_owns_def mr_bytes_def fixed_owns_def sorted_wrt_append
      dest!: whole_blocks_pairwise [where k = "unat (mr_bytes a)"] arena_owns_pairwise)

end
