(* ===== verification/Pipeline_Properties.thy ===== *)
theory Pipeline_Properties
  imports Pipeline_Correct
begin

text \<open>
  What the pipeline guarantees, stated over the critical sections of \<open>pipeline/pipeline_impl.h\<close> and
  over all interleavings of them, and the behaviours of the code that its documentation does not
  describe.  The concrete instances use a pipeline with segments of two bytes that pauses at four.
\<close>

section \<open>A concrete pipeline\<close>

definition demo_options :: pipe_options where
  "demo_options =
     \<lparr>opt_buffer_size = 2, opt_resume_writer_threshold = 2, opt_pause_writer_threshold = 4,
      opt_allocator = fixed_pool_resource_kind\<rparr>"

definition demo_pipe :: pipeline where
  "demo_pipe =
     \<lparr>m_allocator = Fixed_pool \<lparr>m_available_buffers = [], m_pool_buffer_size = 2, m_max_pool_size = 2\<rparr>,
      m_heap = heap_empty, m_deque = [], m_pause_writer_threshold = 4, m_resume_writer_threshold = 2,
      m_buffer_size = 2, m_buffered_size = 0, m_actual_buffered_size = 0, m_examined_size = 0,
      m_pending_read_size = 0, m_reader_waiting = False, m_has_pending_read = False,
      m_writer_completed = False, m_reader_completed = False, m_writer_paused = False\<rparr>"

text \<open>After \<open>write\<close> of the bytes 10, 20, 30.\<close>

definition demo_written :: pipeline where
  "demo_written = demo_pipe
     \<lparr>m_heap := heap_empty\<lparr>next_block := 2, blocks := [0 \<mapsto> 2, 1 \<mapsto> 2]\<rparr>,
      m_deque :=
        [\<lparr>m_buffer = (0, 0), m_memory = [Some 10, Some 20],
          m_writable_span = \<lparr>span_data = 2, span_len = 0\<rparr>,
          m_readable_span = \<lparr>span_data = 0, span_len = 2\<rparr>, m_capacity = 2\<rparr>,
         \<lparr>m_buffer = (1, 0), m_memory = [Some 30, None],
          m_writable_span = \<lparr>span_data = 1, span_len = 1\<rparr>,
          m_readable_span = \<lparr>span_data = 0, span_len = 1\<rparr>, m_capacity = 2\<rparr>],
      m_buffered_size := 3, m_actual_buffered_size := 4\<rparr>"

lemmas pipe_eval =
  span_size_def is_any_completed_def writer_available_capacity_def has_writable_tail_def
  segment_allocation_capacity_def copy_into_tail_def get_segment_def data_segment_make_def
  mr_allocate_def fixed_do_allocate_def buffer_alignment_def operator_new_def copy_from_def memcpy_def
  should_pause_writer_def seg_full_def buffer_subspan_def subspan_from_def writable_size_def
  write_section_def write_wait_def space_available_def Let_def

lemma demo_options_ok: "options_ok experimental demo_options"
  by (simp add: options_ok_def demo_options_def)

lemma heap_ok_empty: "heap_ok heap_empty"
  by (simp add: heap_ok_def heap_empty_def)

lemma demo_make: "pipeline_make False demo_options heap_empty = Some (Inr demo_pipe)"
  by (simp add: demo_pipe_def pipeline_make_def validate_options_def demo_options_def pipeline_construct_def
      make_allocator_def fixed_pool_make_def)

lemma demo_pipe_ok: "pipe_ok demo_pipe"
  using pipeline_make_ok [OF heap_ok_empty demo_options_ok, of False] demo_make by (metis option.inject sum.inject(2))

lemma demo_write:
  "write_section False (\<lambda>_. False) [10, 20, 30] 0 demo_pipe = Some (W_done (W_unlock [] 3 False) demo_written)"
  apply (simp add: pipe_eval demo_pipe_def)
  apply (subst write_loop.simps)
  apply (simp add: pipe_eval)
  apply (subst write_loop.simps)
  apply (simp add: pipe_eval)
  apply (subst write_loop.simps)
  by (simp add: pipe_eval demo_written_def demo_pipe_def heap_empty_def)

lemma demo_written_ok: "pipe_ok demo_written"
  using write_section_stream [OF demo_pipe_ok _ demo_write] by simp

lemma demo_written_bytes: "pipe_bytes demo_written = [10, 20, 30]"
  by (simp add: pipe_bytes_def demo_written_def readable_bytes_def readable_memory_def subspan_def)

definition demo_init :: pipe_sys where
  "demo_init = \<lparr>ps_pipe = demo_pipe, ps_in = [], ps_out = []\<rparr>"

definition demo_sys :: pipe_sys where
  "demo_sys = \<lparr>ps_pipe = demo_written, ps_in = [10, 20, 30], ps_out = []\<rparr>"

lemma demo_reach: "reach (pipe_init False demo_options) pipe_step (\<lambda>_. True) demo_sys"
proof -
  have "reach (pipe_init False demo_options) pipe_step (\<lambda>_. True) demo_init"
    using demo_make heap_ok_empty demo_options_ok by (intro reach_init) (auto simp: pipe_init_def demo_init_def)
  moreover have "pipe_step demo_init (Ev_write False (\<lambda>_. False) [10, 20, 30] 0) demo_sys"
    using step_write [of False "\<lambda>_. False" "[10, 20, 30]" 0 demo_init "W_unlock [] 3 False" demo_written] demo_write
    by (simp add: demo_init_def demo_sys_def)
  ultimately show ?thesis by (rule reach_step) simp
qed

section \<open>Streams\<close>

text \<open>C1: In every state that any interleaving of reads, wake-ups, advances, writes and completions can
  reach from a freshly constructed pipeline, the bytes accepted from the writer are exactly the bytes
  released by the reader followed by the bytes still buffered: nothing is lost, duplicated or
  reordered.\<close>

theorem pipeline_stream_fifo:
  assumes "reach (pipe_init experimental options) pipe_step (\<lambda>_. True) s"
  shows "ps_in s = ps_out s @ pipe_bytes (ps_pipe s)"
  using stream.reach_inv [OF assms] by (simp add: stream_inv_def)

lemma pipeline_stream_fifo_witness:
  "ps_in demo_sys = ps_out demo_sys @ pipe_bytes (ps_pipe demo_sys) \<and> ps_in demo_sys = [10, 20, 30]"
  using pipeline_stream_fifo [OF demo_reach] by (simp add: demo_sys_def)

text \<open>C2: In every reachable state no operation runs into undefined behaviour or a failed assertion: the
  consuming loop never takes the front of an empty deque, every allocation and deallocation meets the
  preconditions of the memory resource, and the destructor can return every buffer.\<close>

theorem pipeline_never_undefined:
  assumes "reach (pipe_init experimental options) pipe_step (\<lambda>_. True) s"
    and "unat copied + length data < 2 ^ 64"
  shows "advance consumed examined (ps_pipe s) \<noteq> None
       \<and> write_section stop_wait stop data copied (ps_pipe s) \<noteq> None
       \<and> write_wait stop_wait stop data copied (ps_pipe s) \<noteq> None
       \<and> pipeline_destroy (ps_pipe s) \<noteq> None"
proof (intro conjI)
  have ok: "pipe_ok (ps_pipe s)" using stream.reach_inv [OF assms(1)] by (simp add: stream_inv_def)
  show "advance consumed examined (ps_pipe s) \<noteq> None"
    using advance_ok [OF ok, of consumed examined] advance_refused [of consumed examined "ps_pipe s"]
    by (metis option.distinct(1))
  show wait: "write_wait stop_wait stop data copied (ps_pipe s) \<noteq> None"
    using write_loop_pipe_ok [OF ok assms(2), of stop 0 False]
    by (metis write_wait_def option.distinct(1) option.map_disc_iff)
  from wait show "write_section stop_wait stop data copied (ps_pipe s) \<noteq> None" by (simp add: write_section_def)
  show "pipeline_destroy (ps_pipe s) \<noteq> None" using pipeline_destroy_ok [OF ok] by auto
qed

lemma pipeline_never_undefined_witness:
  "advance (position_at 2) (position_at 3) demo_written \<noteq> None
   \<and> write_section False (\<lambda>_. False) [40] 0 demo_written \<noteq> None
   \<and> write_wait False (\<lambda>_. False) [40] 0 demo_written \<noteq> None
   \<and> pipeline_destroy demo_written \<noteq> None"
  using pipeline_never_undefined [OF demo_reach, of 0 "[40]"] by (simp add: demo_sys_def)

text \<open>C20: Memory is bounded.  While the reader has not completed, the allocated bytes are the number of
  segments times the segment size and never exceed the pause threshold, the counters do not wrap, the
  buffered bytes are counted exactly, and the buffers of the segments do not overlap.\<close>

theorem pipeline_memory_bound:
  assumes "reach (pipe_init experimental options) pipe_step (\<lambda>_. True) s" and "\<not> m_reader_completed (ps_pipe s)"
  shows "unat (m_actual_buffered_size (ps_pipe s)) = length (m_deque (ps_pipe s)) * unat (m_buffer_size (ps_pipe s))
       \<and> m_actual_buffered_size (ps_pipe s) \<le> m_pause_writer_threshold (ps_pipe s)
       \<and> unat (m_buffered_size (ps_pipe s)) = length (pipe_bytes (ps_pipe s))
       \<and> m_buffered_size (ps_pipe s) \<le> m_actual_buffered_size (ps_pipe s)
       \<and> sorted_wrt (disjoint_buffers (unat (m_buffer_size (ps_pipe s)))) (map m_buffer (m_deque (ps_pipe s)))"
proof (intro conjI)
  let ?p = "ps_pipe s"
  have r: "resource_ok ?p" and c: "counters_ok ?p"
    using stream.reach_inv [OF assms(1)] assms(2) by (auto simp: stream_inv_def pipe_ok_def)
  show act: "unat (m_actual_buffered_size ?p) = length (m_deque ?p) * unat (m_buffer_size ?p)"
    and buf: "unat (m_buffered_size ?p) = length (pipe_bytes ?p)"
    using c by (simp_all add: counters_ok_def)
  show "m_actual_buffered_size ?p \<le> m_pause_writer_threshold ?p"
    using act r by (simp add: size_le_iff resource_ok_def)
  show "m_buffered_size ?p \<le> m_actual_buffered_size ?p"
    using r act buf length_segs_bytes [of "m_deque ?p" "m_buffer_size ?p"]
    by (simp add: size_le_iff pipe_bytes_def resource_ok_def segs_ok_def)
  show "sorted_wrt (disjoint_buffers (unat (m_buffer_size ?p))) (map m_buffer (m_deque ?p))"
    using r mr_owns_pairwise [of "m_allocator ?p" "m_heap ?p"] by (simp add: resource_ok_def)
qed

lemma pipeline_memory_bound_witness:
  "m_actual_buffered_size demo_written \<le> m_pause_writer_threshold demo_written
   \<and> unat (m_buffered_size demo_written) = length (pipe_bytes demo_written)
   \<and> sorted_wrt (disjoint_buffers (unat (m_buffer_size demo_written))) (map m_buffer (m_deque demo_written))"
  using pipeline_memory_bound [OF demo_reach] by (simp add: demo_sys_def demo_written_def demo_pipe_def)

section \<open>The operations\<close>

lemma read_ok:
  assumes "pipe_ok p" and "\<not> m_has_pending_read p" and "\<not> m_reader_completed p" and "data_available min_size p"
  shows "\<exists>v p'. read_at_least min_size False p =
             Returns \<lparr>rr_buffer = v, rr_completed = m_writer_completed p, rr_cancelled = False\<rparr> p'
           \<and> view_ok v \<and> m_begin_offset v = 0 \<and> view_bytes v = pipe_bytes p
           \<and> pipe_ok p' \<and> pipe_bytes p' = pipe_bytes p
           \<and> m_has_pending_read p' \<and> m_pending_read_size p' = m_size v \<and> \<not> m_reader_completed p'"
proof -
  define q where "q = (if m_writer_completed p then p else p\<lparr>m_reader_waiting := False\<rparr>)"
  let ?v = "make_readable_view (m_deque p)"
  let ?p' = "q\<lparr>m_has_pending_read := True, m_pending_read_size := view_size ?v\<rparr>"
  have r: "resource_ok p" using assms(1) by (simp add: pipe_ok_def)
  have da: "data_available min_size (p\<lparr>m_reader_waiting := True\<rparr>)"
    using assms(4) by (simp add: data_available_def)
  have call: "read_at_least min_size False p =
      Returns \<lparr>rr_buffer = ?v, rr_completed = m_writer_completed p, rr_cancelled = False\<rparr> ?p'"
    using assms(2,3) da
    by (simp add: read_at_least_def read_wait_def read_snapshot_def read_result_make_def Let_def q_def)
  then have "pipe_ok ?p' \<and> pipe_bytes ?p' = pipe_bytes p"
    using read_at_least_stream [OF assms(1), of min_size False ?p'] by simp
  moreover have "\<not> m_reader_completed ?p'" using assms(3) by (simp add: q_def)
  ultimately show ?thesis using call make_readable_view_ok [OF r]
    by (auto simp: view_size_def intro!: exI [of _ ?v] exI [of _ ?p'])
qed

text \<open>C11: A read that is allowed, finds its data (or a completed writer) and is not cancelled returns a
  well-formed view that starts at offset zero and holds exactly the buffered bytes, reports whether
  the writer has completed, and opens a pending read of exactly that length; it consumes nothing.\<close>

theorem read_shows_buffered:
  assumes "pipe_ok p" and "\<not> m_has_pending_read p" and "\<not> m_reader_completed p" and "data_available min_size p"
  shows "\<exists>v p'. read_at_least min_size False p =
             Returns \<lparr>rr_buffer = v, rr_completed = m_writer_completed p, rr_cancelled = False\<rparr> p'
           \<and> view_ok v \<and> m_begin_offset v = 0 \<and> view_bytes v = pipe_bytes p
           \<and> pipe_ok p' \<and> pipe_bytes p' = pipe_bytes p
           \<and> m_has_pending_read p' \<and> m_pending_read_size p' = m_size v \<and> \<not> m_reader_completed p'"
  using assms by (rule read_ok)

lemma read_shows_buffered_witness:
  "\<exists>v p'. read_at_least 2 False demo_written =
       Returns \<lparr>rr_buffer = v, rr_completed = False, rr_cancelled = False\<rparr> p'
     \<and> view_bytes v = [10, 20, 30] \<and> m_has_pending_read p'"
proof -
  have "\<not> m_has_pending_read demo_written" "\<not> m_reader_completed demo_written" "data_available 2 demo_written"
      "\<not> m_writer_completed demo_written"
    by (simp_all add: demo_written_def demo_pipe_def data_available_def)
  with read_shows_buffered [OF demo_written_ok this(1-3)] demo_written_bytes show ?thesis by auto
qed

text \<open>C10: \<open>advance\<close> accepts exactly the calls that follow a read, with \<open>consumed \<le> examined \<le>\<close> the length
  of what the read showed.  It then removes exactly the consumed bytes, remembers the examined rest,
  closes the pending read, and resumes and notifies a paused writer when \<open>should_resume_writer\<close> holds.
  Every other call throws the exception of the first check that fails and changes nothing.\<close>

theorem advance_correct:
  assumes "pipe_ok p"
  shows "if advance_allowed consumed examined p
         then (\<exists>p'. advance consumed examined p = Some (Inr (m_writer_paused p \<and> \<not> m_writer_paused p', p'))
                 \<and> pipe_ok p' \<and> pipe_bytes p' = drop (unat (sequence_offset consumed)) (pipe_bytes p)
                 \<and> m_examined_size p' = sequence_offset examined - sequence_offset consumed
                 \<and> \<not> m_has_pending_read p' \<and> m_pending_read_size p' = 0
                 \<and> m_writer_paused p' = (m_writer_paused p \<and> \<not> should_resume_writer p'))
         else advance consumed examined p = Some (Inl
                (if sequence_offset examined < sequence_offset consumed
                   then std_invalid_argument ''consumed must be <= examined''
                 else if m_reader_completed p then std_logic_error ''pipeline reader is completed''
                 else if \<not> m_has_pending_read p then std_logic_error ''advance called without a pending read''
                 else std_out_of_range ''examined exceeds the most recent read buffer length''))"
proof (cases "advance_allowed consumed examined p")
  case True
  have "\<exists>p'. advance consumed examined p = Some (Inr (m_writer_paused p \<and> \<not> m_writer_paused p', p'))
      \<and> pipe_ok p' \<and> pipe_bytes p' = drop (unat (sequence_offset consumed)) (pipe_bytes p)
      \<and> m_examined_size p' = sequence_offset examined - sequence_offset consumed
      \<and> \<not> m_has_pending_read p' \<and> m_pending_read_size p' = 0
      \<and> m_writer_paused p' = (m_writer_paused p \<and> \<not> should_resume_writer p')"
    by (rule advance_ok [OF assms True]) blast
  then show ?thesis by (simp only: if_P [OF True])
next
  case False
  then show ?thesis unfolding if_not_P [OF False] by (intro advance_refused)
qed

text \<open>The pipeline of the example with its read pending.\<close>

definition demo_pending :: pipeline where
  "demo_pending = demo_written\<lparr>m_has_pending_read := True, m_pending_read_size := 3\<rparr>"

lemma demo_pending_ok: "pipe_ok demo_pending" "pipe_bytes demo_pending = [10, 20, 30]"
proof -
  have "m_buffered_size demo_written = 3" "m_examined_size demo_written = 0"
    by (simp_all add: demo_written_def demo_pipe_def)
  then show "pipe_ok demo_pending" "pipe_bytes demo_pending = [10, 20, 30]"
    using demo_written_ok demo_written_bytes by (simp_all add: demo_pending_def pipe_ok_def reader_ok_def)
qed

lemma demo_pending_flags:
  "m_pending_read_size demo_pending = 3" "m_has_pending_read demo_pending" "\<not> m_reader_completed demo_pending"
  "\<not> m_writer_paused demo_pending"
  by (simp_all add: demo_pending_def demo_written_def demo_pipe_def)

lemma advance_correct_witness:
  "(\<exists>p'. advance (position_at 2) (position_at 3) demo_pending = Some (Inr (False, p')) \<and> pipe_bytes p' = [30]
      \<and> m_examined_size p' = 1)
   \<and> advance (position_at 2) (position_at 4) demo_pending
       = Some (Inl (std_out_of_range ''examined exceeds the most recent read buffer length''))"
proof
  have "advance_allowed (position_at 2) (position_at 3) demo_pending"
    by (simp add: advance_allowed_def demo_pending_flags sequence_offset_def position_at_def)
  with advance_correct [OF demo_pending_ok(1), of "position_at 2" "position_at 3"]
  show "\<exists>p'. advance (position_at 2) (position_at 3) demo_pending = Some (Inr (False, p')) \<and> pipe_bytes p' = [30]
      \<and> m_examined_size p' = 1"
    by (auto simp: demo_pending_ok(2) sequence_offset_def position_at_def demo_pending_flags)
next
  have "\<not> advance_allowed (position_at 2) (position_at 4) demo_pending"
    by (simp add: advance_allowed_def demo_pending_flags sequence_offset_def position_at_def)
  with advance_correct [OF demo_pending_ok(1), of "position_at 2" "position_at 4"]
  show "advance (position_at 2) (position_at 4) demo_pending
       = Some (Inl (std_out_of_range ''examined exceeds the most recent read buffer length''))"
    by (simp add: demo_pending_flags sequence_offset_def position_at_def)
qed

lemma write_turn_ok:
  assumes "pipe_ok p" and "\<not> is_any_completed p" and "\<not> m_writer_paused p"
    and "unat copied + length data < 2 ^ 64"
  shows "\<exists>p' n. n = min (length data) (free_room p)
           \<and> write_section False (\<lambda>_. False) data copied p =
               Some (W_done (W_unlock (drop n data) (copied + of_nat n) (0 < n \<and> m_reader_waiting p)) p')
           \<and> pipe_bytes p' = pipe_bytes p @ take n data \<and> pipe_ok p' \<and> same_frame p p'
           \<and> (n = length data \<or> m_writer_paused p')"
proof -
  obtain st p' n where w: "write_loop (\<lambda>_. False) 0 data copied False p = Some (st, p')" "pipe_ok p'"
      "pipe_bytes p' = pipe_bytes p @ take n data" "write_report (\<lambda>_. False) data copied False p n st p'"
      "n \<le> length data" "same_frame p p'"
    using write_loop_pipe_ok [OF assms(1,4)] assms(2) by metis
  obtain c nt where st: "st = W_unlock (drop n data) c nt" "unat c = unat copied + n"
      "n = min (length data) (free_room p)" "nt = (0 < n \<and> m_reader_waiting p)"
      "drop n data \<noteq> [] \<longrightarrow> m_writer_paused p'"
    using w(4) assms(2,3) by (cases st) (auto simp: write_report_def)
  have "unat (of_nat n :: size_t) = n" using w(5) assms(4) by (intro unat_of_nat_size) simp
  then have "unat (copied + of_nat n) = unat c"
    using st(2) w(5) assms(4) by (simp add: unat_add_size)
  then have "c = copied + of_nat n" by (simp add: size_eq_iff)
  then show ?thesis
    using w(1-3,6) st assms(2,3) by (auto simp: write_section_def write_wait_def space_available_def)
qed

text \<open>C9: One turn of the write loop on a pipeline that is neither completed nor paused, with no stop
  requested, appends as much of the data as fits below the pause threshold, in order, and reports the
  rest and the count.  The reader is to be notified exactly when bytes were appended and it is
  waiting, and the writer has paused whenever data is left.\<close>

theorem write_turn_correct:
  assumes "pipe_ok p" and "\<not> is_any_completed p" and "\<not> m_writer_paused p"
    and "unat copied + length data < 2 ^ 64"
  shows "\<exists>p' n. n = min (length data) (free_room p)
           \<and> write_section False (\<lambda>_. False) data copied p =
               Some (W_done (W_unlock (drop n data) (copied + of_nat n) (0 < n \<and> m_reader_waiting p)) p')
           \<and> pipe_bytes p' = pipe_bytes p @ take n data \<and> pipe_ok p' \<and> same_frame p p'
           \<and> (n = length data \<or> m_writer_paused p')"
  using assms by (rule write_turn_ok)

lemma write_turn_correct_witness:
  "\<exists>p'. write_section False (\<lambda>_. False) [1, 2, 3, 4, 5] 0 demo_pipe = Some (W_done (W_unlock [5] 4 False) p')
     \<and> pipe_bytes p' = [1, 2, 3, 4] \<and> m_writer_paused p'"
proof -
  have "\<not> is_any_completed demo_pipe" "\<not> m_writer_paused demo_pipe" "free_room demo_pipe = 4"
      "pipe_bytes demo_pipe = []" "\<not> m_reader_waiting demo_pipe"
    by (simp_all add: demo_pipe_def is_any_completed_def free_room_def pipe_bytes_def)
  with write_turn_correct [OF demo_pipe_ok this(1,2), of 0 "[1, 2, 3, 4, 5]"] show ?thesis by auto
qed

text \<open>The round trip.  Data that fits into the free room of an idle, empty pipeline is accepted by
  one write; the following read shows exactly this data; advancing to the end of the view empties the
  pipeline.\<close>

lemma write_read_advance_roundtrip:
  assumes "pipe_ok p" and "\<not> is_any_completed p" and "\<not> m_writer_paused p" and "\<not> m_has_pending_read p"
    and "pipe_bytes p = []" and "data \<noteq> []" and "length data \<le> free_room p" and "length data < 2 ^ 64"
  shows "\<exists>p1 v p2 nt p3.
           write_section False (\<lambda>_. False) data 0 p =
             Some (W_done (W_unlock [] (span_size data) (m_reader_waiting p)) p1)
           \<and> read_at_least 0 False p1 =
               Returns \<lparr>rr_buffer = v, rr_completed = False, rr_cancelled = False\<rparr> p2
           \<and> view_bytes v = data
           \<and> reader_advance_to (view_end v) p2 = Some (Inr (nt, p3)) \<and> pipe_bytes p3 = [] \<and> pipe_ok p3"
proof -
  obtain p1 where p1: "write_section False (\<lambda>_. False) data 0 p =
        Some (W_done (W_unlock [] (span_size data) (m_reader_waiting p)) p1)"
      "pipe_bytes p1 = data" "pipe_ok p1"
    using write_turn_ok [OF assms(1-3), of 0 data] assms by (auto simp: span_size_def min_absorb1)
  then have fr: "same_frame p p1"
    using write_turn_ok [OF assms(1-3), of 0 data] assms(8) by auto
  have ok: "reader_ok p" "counters_ok p" "counters_ok p1"
    using assms(1,2) p1(3) fr by (auto simp: pipe_ok_def is_any_completed_def same_frame_def)
  have "data_available 0 p1"
    using ok fr assms(5,6) p1(2)
    by (simp add: data_available_def reader_ok_def counters_ok_def same_frame_def size_less_iff)
  moreover have "\<not> m_has_pending_read p1" "\<not> m_reader_completed p1" "\<not> m_writer_completed p1"
    using fr assms(2,4) by (simp_all add: same_frame_def is_any_completed_def)
  ultimately obtain v p2 where
    v: "read_at_least 0 False p1 = Returns \<lparr>rr_buffer = v, rr_completed = False, rr_cancelled = False\<rparr> p2"
      "view_ok v" "m_begin_offset v = 0" "view_bytes v = data" "pipe_ok p2" "pipe_bytes p2 = data"
      "m_has_pending_read p2" "m_pending_read_size p2 = m_size v" "\<not> m_reader_completed p2"
    using read_ok [OF p1(3)] p1(2) by metis
  have off: "sequence_offset (view_end v) = m_size v"
    using v(3) by (simp add: sequence_offset_def view_end_def end_offset_def position_at_def)
  then have "advance_allowed (view_end v) (view_end v) p2"
    using v by (simp add: advance_allowed_def)
  moreover have "unat (m_size v) = length data" using view_ok_length [OF v(2)] v(4) by simp
  ultimately obtain nt p3 where "reader_advance_to (view_end v) p2 = Some (Inr (nt, p3))" "pipe_bytes p3 = []" "pipe_ok p3"
    using advance_ok [OF v(5)] off v(6) unfolding reader_advance_to_def by (metis drop_all order_refl)
  with p1 v(1,4) show ?thesis by blast
qed

lemma write_read_advance_roundtrip_witness:
  "\<exists>p1 v p2 nt p3.
      write_section False (\<lambda>_. False) [7, 8, 9] 0 demo_pipe = Some (W_done (W_unlock [] 3 False) p1)
      \<and> read_at_least 0 False p1 = Returns \<lparr>rr_buffer = v, rr_completed = False, rr_cancelled = False\<rparr> p2
      \<and> view_bytes v = [7, 8, 9]
      \<and> reader_advance_to (view_end v) p2 = Some (Inr (nt, p3)) \<and> pipe_bytes p3 = []"
proof -
  have "\<not> is_any_completed demo_pipe" "\<not> m_writer_paused demo_pipe" "\<not> m_has_pending_read demo_pipe"
      "pipe_bytes demo_pipe = []" "\<not> m_reader_waiting demo_pipe" "free_room demo_pipe = 4"
    by (simp_all add: demo_pipe_def is_any_completed_def free_room_def pipe_bytes_def)
  with write_read_advance_roundtrip [OF demo_pipe_ok this(1-4), of "[7, 8, 9]"] show ?thesis
    by (simp add: span_size_def) blast
qed

section \<open>Backpressure\<close>

lemma advance_frees_segment:
  assumes "pipe_ok p'" and "\<not> m_reader_completed p'"
    and "Suc (length (m_deque p')) * unat (m_buffer_size p') \<le> unat (m_pause_writer_threshold p')"
  shows "m_actual_buffered_size p' < m_pause_writer_threshold p'" and "unat (m_buffer_size p') \<le> free_room p'"
proof -
  have bs: "0 < unat (m_buffer_size p')" and act: "unat (m_actual_buffered_size p') = length (m_deque p') * unat (m_buffer_size p')"
    using assms(1,2) by (auto simp: pipe_ok_def resource_ok_def counters_ok_def unat_gt_0 word_neq_0_conv)
  then show "m_actual_buffered_size p' < m_pause_writer_threshold p'"
    using assms(3) by (simp add: size_less_iff)
  have "1 \<le> (unat (m_pause_writer_threshold p') - unat (m_actual_buffered_size p')) div unat (m_buffer_size p')"
    using bs act assms(3) by (simp add: div_greater_zero_iff Suc_le_eq)
  then have "1 * unat (m_buffer_size p')
      \<le> (unat (m_pause_writer_threshold p') - unat (m_actual_buffered_size p')) div unat (m_buffer_size p')
          * unat (m_buffer_size p')"
    by (rule mult_le_mono1)
  then show "unat (m_buffer_size p') \<le> free_room p'" unfolding free_room_def by linarith
qed

text \<open>When the resume threshold is at least one segment, an advance that empties the pipeline resumes
  and notifies a paused writer and leaves it room for at least one whole segment, provided a segment
  fits below the pause threshold at all.\<close>

lemma advance_resumes_writer:
  assumes "pipe_ok p" and "advance_allowed consumed examined p" and "m_writer_paused p"
    and "m_buffer_size p \<le> m_resume_writer_threshold p" and "m_buffer_size p \<le> m_pause_writer_threshold p"
    and "unat (sequence_offset consumed) = length (pipe_bytes p)"
  shows "\<exists>p'. advance consumed examined p = Some (Inr (True, p')) \<and> \<not> m_writer_paused p'
           \<and> unat (m_buffer_size p') \<le> free_room p'"
proof -
  obtain p' where p': "advance consumed examined p = Some (Inr (m_writer_paused p \<and> \<not> m_writer_paused p', p'))"
      "pipe_ok p'" "pipe_bytes p' = drop (unat (sequence_offset consumed)) (pipe_bytes p)"
      "m_writer_paused p' \<longleftrightarrow> m_writer_paused p \<and> \<not> should_resume_writer p'"
      "m_reader_completed p' = m_reader_completed p" "same_config p p'"
    using advance_ok [OF assms(1,2)] by metis
  have "\<not> m_reader_completed p'" using assms(2) p'(5) by (simp add: advance_allowed_def)
  have empty: "m_deque p' = []" using p'(2,3) assms(6) pipe_bytes_empty [of p'] by (simp add: pipe_ok_def)
  then have "Suc (length (m_deque p')) * unat (m_buffer_size p') \<le> unat (m_pause_writer_threshold p')"
    using assms(5) p'(6) by (simp add: same_config_def size_le_iff)
  note room = advance_frees_segment [OF p'(2) \<open>\<not> m_reader_completed p'\<close> this]
  then have "should_resume_writer p'"
    using assms(4) p'(6) by (simp add: should_resume_writer_def same_config_def)
  with p' room(2) assms(3) show ?thesis by auto
qed

text \<open>The example pipeline when it is full, paused and read.\<close>

definition demo_full :: pipeline where
  "demo_full = demo_pipe
     \<lparr>m_heap := heap_empty\<lparr>next_block := 2, blocks := [0 \<mapsto> 2, 1 \<mapsto> 2]\<rparr>,
      m_deque :=
        [\<lparr>m_buffer = (0, 0), m_memory = [Some 10, Some 20],
          m_writable_span = \<lparr>span_data = 2, span_len = 0\<rparr>,
          m_readable_span = \<lparr>span_data = 0, span_len = 2\<rparr>, m_capacity = 2\<rparr>,
         \<lparr>m_buffer = (1, 0), m_memory = [Some 30, Some 40],
          m_writable_span = \<lparr>span_data = 2, span_len = 0\<rparr>,
          m_readable_span = \<lparr>span_data = 0, span_len = 2\<rparr>, m_capacity = 2\<rparr>],
      m_buffered_size := 4, m_actual_buffered_size := 4, m_has_pending_read := True,
      m_pending_read_size := 4, m_writer_paused := True\<rparr>"

lemma demo_full_bytes: "pipe_bytes demo_full = [10, 20, 30, 40]"
  by (simp add: pipe_bytes_def demo_full_def readable_bytes_def readable_memory_def subspan_def)

lemma demo_full_ok: "pipe_ok demo_full"
proof -
  have "resource_ok demo_full"
    by (simp add: resource_ok_def demo_full_def demo_pipe_def mr_defs fixed_owns_def whole_blocks_def heap_ok_def
        heap_empty_def segs_ok_def seg_ok_def seg_full_def readable_size_def readable_memory_def subspan_def)
  moreover have "counters_ok demo_full"
    unfolding counters_ok_def demo_full_bytes by (simp add: demo_full_def demo_pipe_def)
  moreover have "reader_ok demo_full" by (simp add: reader_ok_def demo_full_def demo_pipe_def)
  ultimately show ?thesis by (simp add: pipe_ok_def)
qed

lemma advance_resumes_writer_witness:
  "\<exists>p'. advance (position_at 4) (position_at 4) demo_full = Some (Inr (True, p')) \<and> \<not> m_writer_paused p'
     \<and> unat (m_buffer_size p') \<le> free_room p'"
  by (rule advance_resumes_writer)
    (simp_all add: demo_full_ok demo_full_bytes,
     simp_all add: advance_allowed_def demo_full_def demo_pipe_def sequence_offset_def position_at_def)

text \<open>
  The code compares the constant segment size, not the buffered size, with the resume threshold.
  While a pipeline whose segments are larger than its resume threshold is paused, it stays paused.
\<close>

definition no_completion :: "pipe_event \<Rightarrow> bool" where
  "no_completion l \<longleftrightarrow> l \<noteq> Ev_complete_writer \<and> l \<noteq> Ev_complete_reader"

definition stuck_paused :: "pipe_sys \<Rightarrow> bool" where
  "stuck_paused s \<longleftrightarrow>
     stream_inv s \<and> m_writer_paused (ps_pipe s)
     \<and> m_resume_writer_threshold (ps_pipe s) < m_buffer_size (ps_pipe s)"

lemma write_loop_paused:
  "m_writer_paused p \<Longrightarrow> write_loop stop i data copied notify p = Some (W_unlock data copied notify, p)"
  by (subst write_loop.simps) simp

lemma read_keeps_config:
  assumes "call_state (read_at_least m st p) = Some q \<or> call_state (read_wait m st p) = Some q"
  shows "m_writer_paused q = m_writer_paused p \<and> same_config p q"
  using assms
  by (auto simp: read_at_least_def read_wait_def read_snapshot_def same_config_def split: if_splits prod.splits)

lemma advance_keeps_stuck:
  assumes "pipe_ok p" and "advance c e p = Some (Inr (nt, q))" and "m_writer_paused p"
    and "m_resume_writer_threshold p < m_buffer_size p"
  shows "m_writer_paused q \<and> m_resume_writer_threshold q < m_buffer_size q"
proof -
  have "advance_allowed c e p"
    using assms(2) advance_refused [of c e p] by (cases "advance_allowed c e p") auto
  then have "m_writer_paused q \<longleftrightarrow> m_writer_paused p \<and> \<not> should_resume_writer q" "same_config p q"
    using advance_ok [OF assms(1)] assms(2) by (metis option.inject prod.inject sum.inject(2))+
  with assms(3,4) show ?thesis by (auto simp: same_config_def should_resume_writer_def)
qed

lemma stuck_step:
  assumes "stuck_paused s" and "pipe_step s l t" and "no_completion l"
  shows "stuck_paused t"
proof -
  have inv: "stream_inv t" using assms(1,2) stream_step by (auto simp: stuck_paused_def)
  have pa: "m_writer_paused (ps_pipe s)"
      "m_resume_writer_threshold (ps_pipe s) < m_buffer_size (ps_pipe s)" "pipe_ok (ps_pipe s)"
    using assms(1) by (simp_all add: stuck_paused_def stream_inv_def)
  have "m_writer_paused (ps_pipe t) \<and> m_resume_writer_threshold (ps_pipe t) < m_buffer_size (ps_pipe t)"
    using assms(2)
  proof (cases rule: pipe_step.cases)
    case (step_advance c e nt q)
    then show ?thesis using advance_keeps_stuck [OF pa(3) step_advance(3) pa(1,2)] by simp
  next
    case (step_read m st q)
    then show ?thesis using read_keeps_config [of m st "ps_pipe s" q] pa by (simp add: same_config_def)
  next
    case (step_wake_read m st q)
    then show ?thesis using read_keeps_config [of m st "ps_pipe s" q] pa by (simp add: same_config_def)
  qed (use pa assms(3) in
      \<open>auto simp: no_completion_def same_config_def write_section_def write_wait_def write_loop_paused split: if_splits\<close>)
  with inv show ?thesis by (simp add: stuck_paused_def)
qed

interpretation stuck: inductive_invariant stuck_paused pipe_step no_completion stuck_paused
  by unfold_locales (auto intro: stuck_step)

text \<open>C33: The resume threshold is compared with the constant segment size and not with the buffered bytes.
  With segments larger than the resume threshold, a paused writer is never resumed: after any further
  sequence of reads, advances and writes short of a completion the pipeline is still paused and a
  blocked write still blocks, even when every byte has been consumed.\<close>

theorem resume_threshold_deadlock:
  assumes "pipe_ok p" and "m_writer_paused p" and "m_resume_writer_threshold p < m_buffer_size p"
    and "run pipe_step \<lparr>ps_pipe = p, ps_in = pipe_bytes p, ps_out = []\<rparr> ls t" and "list_all no_completion ls"
  shows "m_writer_paused (ps_pipe t) \<and> write_wait False stop data copied (ps_pipe t) = Some W_blocks"
proof -
  have "stuck_paused \<lparr>ps_pipe = p, ps_in = pipe_bytes p, ps_out = []\<rparr>"
    using assms(1-3) by (simp add: stuck_paused_def stream_inv_def)
  from stuck.run_inv [OF assms(4) this assms(5)] show ?thesis
    by (simp add: stuck_paused_def write_wait_def space_available_def)
qed

text \<open>A full pipeline with a resume threshold below the segment size, all of whose bytes are consumed.\<close>

definition demo_low :: pipeline where
  "demo_low = demo_full\<lparr>m_resume_writer_threshold := 1\<rparr>"

lemma demo_low_ok: "pipe_ok demo_low" "pipe_bytes demo_low = [10, 20, 30, 40]"
proof -
  show bytes: "pipe_bytes demo_low = [10, 20, 30, 40]"
    using demo_full_bytes by (simp add: demo_low_def pipe_bytes_def)
  have "counters_ok demo_low" unfolding counters_ok_def bytes by (simp add: demo_low_def demo_full_def demo_pipe_def)
  moreover have "resource_ok demo_low"
    using demo_full_ok by (simp add: demo_low_def pipe_ok_def resource_ok_def)
  moreover have "reader_ok demo_low" by (simp add: reader_ok_def demo_low_def demo_full_def demo_pipe_def)
  ultimately show "pipe_ok demo_low" by (simp add: pipe_ok_def)
qed

lemma demo_low_allowed: "advance_allowed (position_at 4) (position_at 4) demo_low"
  by (simp add: demo_low_def advance_allowed_def demo_full_def demo_pipe_def sequence_offset_def position_at_def)

lemma resume_threshold_deadlock_witness:
  "\<exists>q. advance (position_at 4) (position_at 4) demo_low = Some (Inr (False, q)) \<and> pipe_bytes q = []
     \<and> m_writer_paused q \<and> write_wait False (\<lambda>_. False) [50] 0 q = Some W_blocks"
proof -
  have pa: "m_writer_paused demo_low" "m_resume_writer_threshold demo_low < m_buffer_size demo_low"
    by (simp_all add: demo_low_def demo_full_def demo_pipe_def)
  obtain q where q: "advance (position_at 4) (position_at 4) demo_low = Some (Inr (m_writer_paused demo_low \<and> \<not> m_writer_paused q, q))"
      "pipe_bytes q = drop (unat (sequence_offset (position_at 4))) (pipe_bytes demo_low)"
    using advance_ok [OF demo_low_ok(1) demo_low_allowed] by metis
  have empty: "pipe_bytes q = []" using q(2) demo_low_ok(2) by (simp add: sequence_offset_def position_at_def)
  let ?s = "\<lparr>ps_pipe = demo_low, ps_in = pipe_bytes demo_low, ps_out = []\<rparr>"
  have "run pipe_step ?s [Ev_advance (position_at 4) (position_at 4)]
      (?s\<lparr>ps_pipe := q, ps_out := [] @ take (unat (sequence_offset (position_at 4))) (pipe_bytes demo_low)\<rparr>)"
    using step_advance [of "position_at 4" "position_at 4" ?s _ q] q(1) by (auto intro!: run_cons run_nil)
  from resume_threshold_deadlock [OF demo_low_ok(1) pa this, of "\<lambda>_. False" "[50]" 0] q(1) empty pa(1)
  show ?thesis by (simp add: no_completion_def)
qed

text \<open>A configuration with a pause threshold below the segment size passes the validation, but no byte
  can ever be written: the first write accepts nothing and pauses the writer, and by the previous
  property nothing short of a completion resumes it.\<close>

lemma pause_below_segment_accepts_nothing:
  assumes "heap_ok h" and "options_ok experimental options"
    and "opt_pause_writer_threshold options < opt_buffer_size options"
    and "data \<noteq> []" and "length data < 2 ^ 64"
  shows "\<exists>p p'. pipeline_make experimental options h = Some (Inr p)
           \<and> write_section False (\<lambda>_. False) data 0 p = Some (W_done (W_unlock data 0 False) p')
           \<and> m_writer_paused p' \<and> pipe_bytes p' = [] \<and> \<not> should_resume_writer p'"
proof -
  obtain p where p: "pipeline_make experimental options h = Some (Inr p)" "pipe_ok p" "pipe_bytes p = []"
      "\<not> is_any_completed p" "\<not> m_writer_paused p" "m_pause_writer_threshold p = opt_pause_writer_threshold options"
      "m_buffer_size p = opt_buffer_size options" "m_actual_buffered_size p = 0" "m_deque p = []"
    using pipeline_make_ok [OF assms(1,2)] by metis
  have resume: "m_resume_writer_threshold p = opt_resume_writer_threshold options"
    using p(1) by (auto simp: pipeline_make_def pipeline_construct_def validate_options_def Let_def
        split: if_splits sum.splits option.splits)
  have "free_room p = 0" using p(6-9) assms(3) by (simp add: free_room_def size_less_iff)
  then obtain p' where p': "write_section False (\<lambda>_. False) data 0 p = Some (W_done (W_unlock data 0 False) p')"
      "pipe_bytes p' = []" "same_frame p p'" "m_writer_paused p'"
    using write_turn_ok [OF p(2,4,5), of 0 data] p(3) assms(4,5) by auto
  moreover have "m_resume_writer_threshold p < m_buffer_size p"
    using resume p(7) assms(2,3) by (auto simp: options_ok_def)
  then have "\<not> should_resume_writer p'"
    using p'(3) by (simp add: should_resume_writer_def same_frame_def not_le)
  ultimately show ?thesis using p(1) by blast
qed

lemma pause_below_segment_accepts_nothing_witness:
  "\<exists>p p'. pipeline_make False (demo_options\<lparr>opt_pause_writer_threshold := 1, opt_resume_writer_threshold := 1\<rparr>) heap_empty
       = Some (Inr p)
     \<and> write_section False (\<lambda>_. False) [5] 0 p = Some (W_done (W_unlock [5] 0 False) p')
     \<and> m_writer_paused p' \<and> pipe_bytes p' = [] \<and> \<not> should_resume_writer p'"
  by (rule pause_below_segment_accepts_nothing)
    (simp_all add: heap_ok_empty options_ok_def demo_options_def)

section \<open>Cancellation\<close>

text \<open>
  The whole of \<open>pipeline::write\<close> when no other thread interferes: the outer loop with fuel.
\<close>

datatype write_result = WR_throws cpp_exception | WR_returns size_t | WR_blocks "byte list" size_t

fun write_outer :: "nat \<Rightarrow> bool \<Rightarrow> byte list \<Rightarrow> size_t \<Rightarrow> pipeline \<Rightarrow> (write_result \<times> pipeline) option" where
  "write_outer 0 stop data copied p = None"
| "write_outer (Suc n) stop data copied p =
     (if span_size data = 0 then Some (WR_returns copied, p)
      else (case write_section stop (\<lambda>_. stop) data copied p of
              None \<Rightarrow> None
            | Some W_blocks \<Rightarrow> Some (WR_blocks data copied, p)
            | Some (W_done (W_throw e) q) \<Rightarrow> Some (WR_throws e, q)
            | Some (W_done (W_return c) q) \<Rightarrow> Some (WR_returns c, q)
            | Some (W_done (W_unlock rest c notify) q) \<Rightarrow> write_outer n stop rest c q))"



text \<open>C34: A stop request while the writer is paused does not end \<open>write\<close>.  The wait returns, the inner loop is
  skipped because the writer is still paused, and the outer loop starts over with the same data and
  the same state: no number of turns returns.\<close>

theorem stop_while_paused_spins:
  assumes "m_writer_paused p" and "\<not> is_any_completed p" and "span_size data \<noteq> 0"
  shows "write_section True (\<lambda>_. True) data copied p = Some (W_done (W_unlock data copied False) p)
       \<and> write_outer n True data copied p = None"
proof
  show turn: "write_section True (\<lambda>_. True) data copied p = Some (W_done (W_unlock data copied False) p)"
    using assms by (simp add: write_section_def write_wait_def write_loop_paused)
  show "write_outer n True data copied p = None"
    using turn assms(3) by (induction n) simp_all
qed

lemma stop_while_paused_spins_witness:
  "write_section True (\<lambda>_. True) [50] 0 demo_full = Some (W_done (W_unlock [50] 0 False) demo_full)
   \<and> write_outer 1000 True [50] 0 demo_full = None"
  by (rule stop_while_paused_spins) (simp_all add: demo_full_def demo_pipe_def is_any_completed_def span_size_def)

text \<open>A stop request between two copies returns without notifying the reader, although bytes were
  appended: a reader that waits for exactly these bytes stays in its wait.\<close>

lemma stop_after_copy_skips_notify:
  "\<exists>p q. pipe_ok p \<and> m_reader_waiting p \<and> \<not> data_available 0 p
     \<and> write_section False (\<lambda>i. 0 < i) [1, 2, 3] 0 p = Some (W_done (W_return 2) q)
     \<and> m_reader_waiting q \<and> data_available 0 q"
proof -
  let ?p = "demo_pipe\<lparr>m_reader_waiting := True\<rparr>"
  have "\<exists>q. write_section False (\<lambda>i. 0 < i) [1, 2, 3] 0 ?p = Some (W_done (W_return 2) q)
      \<and> m_reader_waiting q \<and> data_available 0 q"
    apply (simp add: pipe_eval demo_pipe_def)
    apply (subst write_loop.simps)
    apply (simp add: pipe_eval)
    apply (subst write_loop.simps)
    by (simp add: pipe_eval data_available_def)
  moreover have "pipe_ok ?p" using demo_pipe_ok by simp
  moreover have "m_reader_waiting ?p" "\<not> data_available 0 ?p" by (simp_all add: demo_pipe_def data_available_def)
  ultimately show ?thesis by blast
qed

end
