(* ===== verification/Channel.thy ===== *)
theory Channel
  imports Xtd_Prelude
begin

text \<open>
  \<open>channel/channel_enums.h\<close>, \<open>channel_impl.h\<close>, \<open>channel_reader.h\<close> and \<open>channel_writer.h\<close>: the message
  channel.  The record has the fields of \<open>class channel\<close>; an operation is the code between taking and
  releasing \<open>m_mutex\<close>.  A wait on a condition variable ends the critical section with \<open>Ch_blocks\<close>; the
  operations named \<open>resume_\<close> are the rest of the call after a wake-up, when the wait tests its predicate
  again.  A result carries the value the call returns and whether it notifies after unlocking.

  The stop token is sampled once per critical section.  A request that arrives between two of its
  checks has the effect of one that arrived before the first: the wait returns and the call is
  cancelled in both cases.

  The locale \<open>message_queue\<close> is the contract of the non-blocking operations towards a client that
  sends and receives.
\<close>

section \<open>State and predicates\<close>

datatype block_strategy = WAIT | TRY

datatype channel_read_errors = REQUEST_CANCELLED | CHANNEL_EMPTY

record 'a channel =
  ch_queue :: "'a list"
  ch_read_waiters :: size_t
  ch_write_waiters :: size_t
  ch_capacity :: size_t
  ch_writer_completed :: bool

datatype ('r, 'a) ch_outcome = Ch_blocks "'a channel" | Ch_done 'r "'a channel"

definition channel_make :: "size_t \<Rightarrow> 'a channel" where
  "channel_make capacity =
     \<lparr>ch_queue = [], ch_read_waiters = 0, ch_write_waiters = 0, ch_capacity = capacity,
      ch_writer_completed = False\<rparr>"

definition full :: "'a channel \<Rightarrow> bool" where
  "full c \<longleftrightarrow> ch_capacity c > 0 \<and> span_size (ch_queue c) \<ge> ch_capacity c"

definition can_read :: "'a channel \<Rightarrow> bool" where
  "can_read c \<longleftrightarrow> ch_writer_completed c \<or> ch_queue c \<noteq> []"

definition can_write :: "'a channel \<Rightarrow> bool" where
  "can_write c \<longleftrightarrow> ch_writer_completed c \<or> \<not> full c"

section \<open>Writing\<close>

definition write_allowed :: "bool \<Rightarrow> 'a channel \<Rightarrow> bool" where
  "write_allowed stop c \<longleftrightarrow> \<not> stop \<and> \<not> ch_writer_completed c \<and> \<not> full c"

text \<open>One turn of the wait on \<open>m_not_full\<close> and what follows it.\<close>

definition resume_wait_to_write :: "bool \<Rightarrow> 'a channel \<Rightarrow> (bool, 'a) ch_outcome" where
  "resume_wait_to_write stop c =
     (if stop \<or> can_write c
      then (let c' = c\<lparr>ch_write_waiters := ch_write_waiters c - 1\<rparr> in Ch_done (write_allowed stop c') c')
      else Ch_blocks c)"

definition internal_wait_to_write :: "bool \<Rightarrow> 'a channel \<Rightarrow> (bool, 'a) ch_outcome" where
  "internal_wait_to_write stop c =
     (if \<not> stop \<and> \<not> ch_writer_completed c \<and> full c
      then resume_wait_to_write stop (c\<lparr>ch_write_waiters := ch_write_waiters c + 1\<rparr>)
      else Ch_done (write_allowed stop c) c)"

text \<open>The end of \<open>emplace\<close>: the value returned, and whether \<open>m_not_empty\<close> is notified.\<close>

definition emplace_item :: "'a \<Rightarrow> 'a channel \<Rightarrow> (bool \<times> bool, 'a) ch_outcome" where
  "emplace_item x c =
     (let c' = c\<lparr>ch_queue := ch_queue c @ [x]\<rparr>; notify = (ch_read_waiters c' \<noteq> 0) in Ch_done (True, notify) c')"

definition emplace_after :: "'a \<Rightarrow> (bool, 'a) ch_outcome \<Rightarrow> (bool \<times> bool, 'a) ch_outcome" where
  "emplace_after x outcome =
     (case outcome of
        Ch_blocks c \<Rightarrow> Ch_blocks c
      | Ch_done allowed c \<Rightarrow> if allowed then emplace_item x c else Ch_done (False, False) c)"

definition emplace :: "bool \<Rightarrow> block_strategy \<Rightarrow> 'a \<Rightarrow> 'a channel \<Rightarrow> (bool \<times> bool, 'a) ch_outcome" where
  "emplace stop strategy x c =
     (case strategy of
        WAIT \<Rightarrow> emplace_after x (internal_wait_to_write stop c)
      | TRY \<Rightarrow> if ch_writer_completed c \<or> full c then Ch_done (False, False) c else emplace_item x c)"

definition resume_emplace :: "bool \<Rightarrow> 'a \<Rightarrow> 'a channel \<Rightarrow> (bool \<times> bool, 'a) ch_outcome" where
  "resume_emplace stop x c = emplace_after x (resume_wait_to_write stop c)"

text \<open>\<open>complete_writer\<close>; it then notifies all waiters of both condition variables.\<close>

definition channel_complete_writer :: "'a channel \<Rightarrow> 'a channel" where
  "channel_complete_writer c = c\<lparr>ch_writer_completed := True\<rparr>"

text \<open>The destructor: it completes the channel; what is still queued goes with it.\<close>

definition channel_destroy :: "'a channel \<Rightarrow> 'a list" where
  "channel_destroy c = ch_queue (channel_complete_writer c)"

section \<open>Reading\<close>

definition read_verdict :: "bool \<Rightarrow> 'a channel \<Rightarrow> channel_read_errors + unit" where
  "read_verdict stop c =
     (if stop then Inl REQUEST_CANCELLED else if ch_queue c = [] then Inl CHANNEL_EMPTY else Inr ())"

definition resume_wait_to_read :: "bool \<Rightarrow> 'a channel \<Rightarrow> (channel_read_errors + unit, 'a) ch_outcome" where
  "resume_wait_to_read stop c =
     (if stop \<or> can_read c
      then (let c' = c\<lparr>ch_read_waiters := ch_read_waiters c - 1\<rparr> in Ch_done (read_verdict stop c') c')
      else Ch_blocks c)"

definition internal_wait_to_read :: "bool \<Rightarrow> 'a channel \<Rightarrow> (channel_read_errors + unit, 'a) ch_outcome" where
  "internal_wait_to_read stop c =
     (if \<not> stop \<and> \<not> ch_writer_completed c \<and> ch_queue c = []
      then resume_wait_to_read stop (c\<lparr>ch_read_waiters := ch_read_waiters c + 1\<rparr>)
      else Ch_done (read_verdict stop c) c)"

fun wait_to_read_after :: "(channel_read_errors + unit, 'a) ch_outcome \<Rightarrow> (bool, 'a) ch_outcome" where
  "wait_to_read_after (Ch_blocks c) = Ch_blocks c"
| "wait_to_read_after (Ch_done r c) = Ch_done (r = Inr ()) c"

definition wait_to_read :: "bool \<Rightarrow> 'a channel \<Rightarrow> (bool, 'a) ch_outcome" where
  "wait_to_read stop c = wait_to_read_after (internal_wait_to_read stop c)"

definition resume_wait_to_read_call :: "bool \<Rightarrow> 'a channel \<Rightarrow> (bool, 'a) ch_outcome" where
  "resume_wait_to_read_call stop c = wait_to_read_after (resume_wait_to_read stop c)"

text \<open>The end of \<open>read\<close> on a queue that is not empty: the value, and whether \<open>m_not_full\<close> is notified.\<close>

definition read_item :: "'a channel \<Rightarrow> ((channel_read_errors + 'a) \<times> bool, 'a) ch_outcome" where
  "read_item c =
     (let result = hd (ch_queue c); c' = c\<lparr>ch_queue := tl (ch_queue c)\<rparr>; notify = (ch_write_waiters c' \<noteq> 0)
      in Ch_done (Inr result, notify) c')"

definition read_after ::
  "(channel_read_errors + unit, 'a) ch_outcome \<Rightarrow> ((channel_read_errors + 'a) \<times> bool, 'a) ch_outcome"
where
  "read_after outcome =
     (case outcome of
        Ch_blocks c \<Rightarrow> Ch_blocks c
      | Ch_done (Inl e) c \<Rightarrow> Ch_done (Inl e, False) c
      | Ch_done (Inr _) c \<Rightarrow> read_item c)"

definition read :: "bool \<Rightarrow> block_strategy \<Rightarrow> 'a channel \<Rightarrow> ((channel_read_errors + 'a) \<times> bool, 'a) ch_outcome" where
  "read stop strategy c =
     (case strategy of
        WAIT \<Rightarrow> read_after (internal_wait_to_read stop c)
      | TRY \<Rightarrow> if ch_queue c = [] then Ch_done (Inl CHANNEL_EMPTY, False) c else read_item c)"

definition resume_read :: "bool \<Rightarrow> 'a channel \<Rightarrow> ((channel_read_errors + 'a) \<times> bool, 'a) ch_outcome" where
  "resume_read stop c = read_after (resume_wait_to_read stop c)"

definition channel_size :: "'a channel \<Rightarrow> size_t" where
  "channel_size c = span_size (ch_queue c)"

lemma resume_wait_to_read_queue:
  "resume_wait_to_read stop c = Ch_done r c' \<Longrightarrow> ch_queue c' = ch_queue c \<and> (r = Inr () \<longrightarrow> ch_queue c' \<noteq> [])"
  by (auto simp: resume_wait_to_read_def read_verdict_def Let_def split: if_splits)

lemma internal_wait_to_read_queue:
  "internal_wait_to_read stop c = Ch_done r c' \<Longrightarrow> ch_queue c' = ch_queue c \<and> (r = Inr () \<longrightarrow> ch_queue c' \<noteq> [])"
  using resume_wait_to_read_queue [of stop "c\<lparr>ch_read_waiters := ch_read_waiters c + 1\<rparr>" r c']
  by (auto simp: internal_wait_to_read_def read_verdict_def split: if_splits)

lemma read_shrinks:
  assumes "read stop strategy c = Ch_done (Inr x, n) c'"
  shows "ch_queue c = x # ch_queue c'"
proof -
  have item: "ch_queue d = x # ch_queue c'" if "read_item d = Ch_done (Inr x, n) c'" "ch_queue d \<noteq> []" for d
    using that by (cases "ch_queue d") (auto simp: read_item_def Let_def)
  show ?thesis
  proof (cases strategy)
    case TRY
    with assms item [of c] show ?thesis by (auto simp: read_def split: if_splits)
  next
    case WAIT
    then obtain d where "internal_wait_to_read stop c = Ch_done (Inr ()) d" "read_item d = Ch_done (Inr x, n) c'"
      using assms by (auto simp: read_def read_after_def split: ch_outcome.splits sum.splits)
    with internal_wait_to_read_queue [of stop c "Inr ()" d] item [of d] show ?thesis by metis
  qed
qed

text \<open>
  The generator \<open>read_all\<close>: the items it yields one after the other, and how it stands after them.  The
  stop token is read before each item.
\<close>

datatype 'a generator_end = Gen_finished "'a channel" | Gen_blocked "'a channel"

function read_all :: "(nat \<Rightarrow> bool) \<Rightarrow> nat \<Rightarrow> 'a channel \<Rightarrow> 'a list \<times> 'a generator_end" where
  "read_all stop i c =
     (if stop i then ([], Gen_finished c)
      else (case read (stop i) WAIT c of
              Ch_blocks c' \<Rightarrow> ([], Gen_blocked c')
            | Ch_done (Inl e, n) c' \<Rightarrow> ([], Gen_finished c')
            | Ch_done (Inr x, n) c' \<Rightarrow> (case read_all stop (Suc i) c' of (xs, g) \<Rightarrow> (x # xs, g))))"
  by pat_completeness auto
termination
  by (relation "measure (\<lambda>(stop, i, c). length (ch_queue c))") (auto dest: read_shrinks)

declare read_all.simps [simp del]

section \<open>The endpoints\<close>

definition channel_reader_try_read :: "'a channel \<Rightarrow> ((channel_read_errors + 'a) \<times> bool, 'a) ch_outcome" where
  "channel_reader_try_read c = read False TRY c"

definition channel_reader_read :: "bool \<Rightarrow> 'a channel \<Rightarrow> ((channel_read_errors + 'a) \<times> bool, 'a) ch_outcome" where
  "channel_reader_read stop c = read stop WAIT c"

definition channel_reader_wait_to_read :: "bool \<Rightarrow> 'a channel \<Rightarrow> (bool, 'a) ch_outcome" where
  "channel_reader_wait_to_read stop c = wait_to_read stop c"

definition channel_reader_read_all :: "(nat \<Rightarrow> bool) \<Rightarrow> 'a channel \<Rightarrow> 'a list \<times> 'a generator_end" where
  "channel_reader_read_all stop c = read_all stop 0 c"

definition channel_reader_size :: "'a channel \<Rightarrow> size_t" where
  "channel_reader_size c = channel_size c"

text \<open>The overloads of \<open>push\<close> and \<open>emplace\<close> differ only in how the value is built.\<close>

definition channel_writer_push :: "'a \<Rightarrow> 'a channel \<Rightarrow> (bool \<times> bool, 'a) ch_outcome" where
  "channel_writer_push x c = emplace False WAIT x c"

definition channel_writer_push_stop :: "bool \<Rightarrow> 'a \<Rightarrow> 'a channel \<Rightarrow> (bool \<times> bool, 'a) ch_outcome" where
  "channel_writer_push_stop stop x c = emplace stop WAIT x c"

definition channel_writer_try_push :: "'a \<Rightarrow> 'a channel \<Rightarrow> (bool \<times> bool, 'a) ch_outcome" where
  "channel_writer_try_push x c = emplace False TRY x c"

definition channel_writer_complete :: "'a channel \<Rightarrow> 'a channel" where
  "channel_writer_complete c = channel_complete_writer c"

section \<open>The contract of the non-blocking operations\<close>

datatype 'a message_op = Send 'a | Receive

text \<open>Running a list of operations, with the messages that were accepted and those that were received.\<close>

fun mq_run :: "('a \<Rightarrow> 'q \<Rightarrow> bool \<times> 'q) \<Rightarrow> ('q \<Rightarrow> 'a option \<times> 'q) \<Rightarrow> 'a message_op list \<Rightarrow> 'q \<Rightarrow>
    'a list \<times> 'a list \<times> 'q" where
  "mq_run send receive [] q = ([], [], q)"
| "mq_run send receive (Send x # ops) q =
     (case send x q of (ok, q') \<Rightarrow>
        (case mq_run send receive ops q' of (i, out, r) \<Rightarrow> ((if ok then x # i else i), out, r)))"
| "mq_run send receive (Receive # ops) q =
     (case receive q of (y, q') \<Rightarrow>
        (case mq_run send receive ops q' of (i, out, r) \<Rightarrow>
           (i, (case y of None \<Rightarrow> out | Some x \<Rightarrow> x # out), r)))"

locale message_queue =
  fixes messages :: "'q \<Rightarrow> 'a list"
    and room :: "'q \<Rightarrow> bool"
    and bound :: "'q \<Rightarrow> nat \<Rightarrow> bool"
    and send :: "'a \<Rightarrow> 'q \<Rightarrow> bool \<times> 'q"
    and receive :: "'q \<Rightarrow> 'a option \<times> 'q"
  assumes send_room: "room q \<Longrightarrow> fst (send x q) \<and> messages (snd (send x q)) = messages q @ [x]"
    and send_full: "\<not> room q \<Longrightarrow> send x q = (False, q)"
    and receive_some: "messages q = x # xs \<Longrightarrow> fst (receive q) = Some x \<and> messages (snd (receive q)) = xs"
    and receive_none: "messages q = [] \<Longrightarrow> receive q = (None, q)"
    and room_bound: "bound q (length (messages q)) \<Longrightarrow> room q \<Longrightarrow> bound q (Suc (length (messages q)))"
    and bound_mono: "bound q n \<Longrightarrow> m \<le> n \<Longrightarrow> bound q m"
    and bound_const: "bound (snd (send x q)) = bound q" "bound (snd (receive q)) = bound q"
begin

lemma mq_run_fifo:
  assumes "mq_run send receive ops q = (i, out, r)"
  shows "messages q @ i = out @ messages r"
  using assms
proof (induction ops arbitrary: q i out r)
  case Nil
  then show ?case by simp
next
  case (Cons op ops)
  show ?case
  proof (cases op)
    case (Send x)
    obtain i' out' r' where rest: "mq_run send receive ops (snd (send x q)) = (i', out', r')" by (metis prod_cases3)
    with Cons.IH [OF rest] Cons.prems Send send_room [of q x] send_full [of q x] show ?thesis
      by (cases "room q"; cases "send x q") auto
  next
    case Receive
    obtain i' out' r' where rest: "mq_run send receive ops (snd (receive q)) = (i', out', r')" by (metis prod_cases3)
    with Cons.IH [OF rest] Cons.prems Receive receive_none [of q] receive_some [of q] show ?thesis
      by (cases "messages q"; cases "receive q") auto
  qed
qed

lemma mq_run_bound:
  assumes "mq_run send receive ops q = (i, out, r)" and "bound q (length (messages q))"
  shows "bound r (length (messages r))"
  using assms
proof (induction ops arbitrary: q i out r)
  case Nil
  then show ?case by simp
next
  case (Cons op ops)
  let ?next = "case op of Send x \<Rightarrow> snd (send x q) | Receive \<Rightarrow> snd (receive q)"
  obtain i' out' r' where rest: "mq_run send receive ops ?next = (i', out', r')" by (metis prod_cases3)
  have "bound ?next (length (messages ?next))"
  proof (cases op)
    case (Send x)
    with Cons.prems(2) show ?thesis
      using send_room [of q x] send_full [of q x] room_bound [of q] by (cases "room q") (auto simp: bound_const)
  next
    case Receive
    with Cons.prems(2) show ?thesis
      using receive_none [of q] receive_some [of q] by (cases "messages q") (auto simp: bound_const intro: bound_mono)
  qed
  moreover have "r = r'"
    using rest Cons.prems(1) by (cases op) (auto split: prod.splits)
  ultimately show ?case using Cons.IH [OF rest] by simp
qed

end

definition channel_send :: "'a \<Rightarrow> 'a channel \<Rightarrow> bool \<times> 'a channel" where
  "channel_send x c = (case channel_writer_try_push x c of Ch_done (ok, n) c' \<Rightarrow> (ok, c') | Ch_blocks c' \<Rightarrow> (False, c'))"

definition channel_receive :: "'a channel \<Rightarrow> 'a option \<times> 'a channel" where
  "channel_receive c =
     (case channel_reader_try_read c of
        Ch_done (Inr x, n) c' \<Rightarrow> (Some x, c') | Ch_done (Inl e, n) c' \<Rightarrow> (None, c') | Ch_blocks c' \<Rightarrow> (None, c'))"

definition within_capacity :: "'a channel \<Rightarrow> nat \<Rightarrow> bool" where
  "within_capacity c n \<longleftrightarrow> ch_capacity c = 0 \<or> n \<le> unat (ch_capacity c)"

lemma not_full_length:
  assumes "\<not> full c" and "within_capacity c (length (ch_queue c))"
  shows "within_capacity c (Suc (length (ch_queue c)))"
proof (cases "ch_capacity c = 0")
  case False
  then have "length (ch_queue c) \<le> unat (ch_capacity c)" using assms(2) by (simp add: within_capacity_def)
  then have "unat (span_size (ch_queue c)) = length (ch_queue c)"
    using unat_size_bound [of "ch_capacity c"] by (intro unat_span_size) simp
  then show ?thesis
    using assms(1) False by (auto simp: full_def within_capacity_def size_le_iff word_neq_0_conv)
qed (simp add: within_capacity_def)

lemma full_length:
  assumes "within_capacity c (length (ch_queue c))"
  shows "full c \<longleftrightarrow> ch_capacity c \<noteq> 0 \<and> length (ch_queue c) = unat (ch_capacity c)"
proof (cases "ch_capacity c = 0")
  case False
  then have le: "length (ch_queue c) \<le> unat (ch_capacity c)" using assms by (simp add: within_capacity_def)
  then have "unat (span_size (ch_queue c)) = length (ch_queue c)"
    using unat_size_bound [of "ch_capacity c"] by (intro unat_span_size) simp
  with le False show ?thesis by (auto simp: full_def size_le_iff word_neq_0_conv)
qed (simp add: full_def)

lemmas channel_call_defs =
  channel_writer_try_push_def channel_reader_try_read_def emplace_def read_def emplace_item_def read_item_def Let_def

interpretation chan: message_queue ch_queue "\<lambda>c. \<not> ch_writer_completed c \<and> \<not> full c" within_capacity
  channel_send channel_receive
  by unfold_locales
    (auto simp: channel_send_def channel_receive_def channel_call_defs within_capacity_def fun_eq_iff
      dest: not_full_length [unfolded within_capacity_def])

section \<open>Properties of the calls\<close>

text \<open>Any sequence of non-blocking pushes and reads on a channel delivers the messages that were accepted
  in their order, without loss or duplication, and a bounded channel never holds more than its
  capacity.\<close>

lemma try_operations_fifo:
  assumes "mq_run channel_send channel_receive ops (channel_make capacity) = (i, out, r)"
  shows "i = out @ ch_queue r \<and> within_capacity r (length (ch_queue r))"
proof
  show "i = out @ ch_queue r"
    using chan.mq_run_fifo [OF assms] by (simp add: channel_make_def)
  show "within_capacity r (length (ch_queue r))"
    using chan.mq_run_bound [OF assms] by (simp add: channel_make_def within_capacity_def)
qed

lemma try_operations_fifo_witness:
  "\<exists>r. mq_run channel_send channel_receive [Send (1::nat), Send 2, Send 3, Receive, Send 4, Receive] (channel_make 2)
       = ([1, 2, 4], [1, 2], r)
     \<and> [1, 2, 4] = [1, 2] @ ch_queue r \<and> within_capacity r (length (ch_queue r))"
proof -
  have run: "\<exists>r. mq_run channel_send channel_receive [Send (1::nat), Send 2, Send 3, Receive, Send 4, Receive]
      (channel_make 2) = ([1, 2, 4], [1, 2], r)"
    by (simp add: channel_send_def channel_receive_def channel_call_defs channel_make_def full_def span_size_def
        size_le_iff)
  then show ?thesis using try_operations_fifo by blast
qed

lemma emplace_outcome:
  "emplace stop WAIT x c =
     (if stop \<or> ch_writer_completed c then Ch_done (False, False) c
      else if full c then Ch_blocks (c\<lparr>ch_write_waiters := ch_write_waiters c + 1\<rparr>)
      else Ch_done (True, ch_read_waiters c \<noteq> 0) (c\<lparr>ch_queue := ch_queue c @ [x]\<rparr>))"
  by (simp add: emplace_def emplace_after_def internal_wait_to_write_def resume_wait_to_write_def
      write_allowed_def can_write_def emplace_item_def full_def)

lemma try_emplace_outcome:
  "emplace stop TRY x c =
     (if ch_writer_completed c \<or> full c then Ch_done (False, False) c
      else Ch_done (True, ch_read_waiters c \<noteq> 0) (c\<lparr>ch_queue := ch_queue c @ [x]\<rparr>))"
  by (simp add: emplace_def emplace_item_def)

lemma resume_emplace_outcome:
  "resume_emplace stop x c =
     (if stop \<or> ch_writer_completed c then Ch_done (False, False) (c\<lparr>ch_write_waiters := ch_write_waiters c - 1\<rparr>)
      else if full c then Ch_blocks c
      else Ch_done (True, ch_read_waiters c \<noteq> 0)
             (c\<lparr>ch_write_waiters := ch_write_waiters c - 1, ch_queue := ch_queue c @ [x]\<rparr>))"
  by (simp add: resume_emplace_def emplace_after_def resume_wait_to_write_def write_allowed_def can_write_def
      emplace_item_def full_def)

lemma read_outcome:
  "read stop WAIT c =
     (if stop then Ch_done (Inl REQUEST_CANCELLED, False) c
      else (case ch_queue c of
              y # ys \<Rightarrow> Ch_done (Inr y, ch_write_waiters c \<noteq> 0) (c\<lparr>ch_queue := ys\<rparr>)
            | [] \<Rightarrow> if ch_writer_completed c then Ch_done (Inl CHANNEL_EMPTY, False) c
                     else Ch_blocks (c\<lparr>ch_read_waiters := ch_read_waiters c + 1\<rparr>)))"
  by (simp add: read_def read_after_def internal_wait_to_read_def resume_wait_to_read_def read_verdict_def
      can_read_def read_item_def split: list.split)

lemma try_read_outcome:
  "read stop TRY c =
     (case ch_queue c of
        y # ys \<Rightarrow> Ch_done (Inr y, ch_write_waiters c \<noteq> 0) (c\<lparr>ch_queue := ys\<rparr>)
      | [] \<Rightarrow> Ch_done (Inl CHANNEL_EMPTY, False) c)"
  by (simp add: read_def read_item_def split: list.split)

lemma resume_read_outcome:
  "resume_read stop c =
     (if stop then Ch_done (Inl REQUEST_CANCELLED, False) (c\<lparr>ch_read_waiters := ch_read_waiters c - 1\<rparr>)
      else (case ch_queue c of
              y # ys \<Rightarrow> Ch_done (Inr y, ch_write_waiters c \<noteq> 0)
                          (c\<lparr>ch_read_waiters := ch_read_waiters c - 1, ch_queue := ys\<rparr>)
            | [] \<Rightarrow> if ch_writer_completed c
                     then Ch_done (Inl CHANNEL_EMPTY, False) (c\<lparr>ch_read_waiters := ch_read_waiters c - 1\<rparr>)
                     else Ch_blocks c))"
  by (simp add: resume_read_def read_after_def resume_wait_to_read_def read_verdict_def can_read_def read_item_def
      split: list.split)

lemma wait_to_read_outcome:
  "wait_to_read stop c =
     (if stop then Ch_done False c
      else if ch_queue c \<noteq> [] then Ch_done True c
      else if ch_writer_completed c then Ch_done False c
      else Ch_blocks (c\<lparr>ch_read_waiters := ch_read_waiters c + 1\<rparr>))"
  by (simp add: wait_to_read_def internal_wait_to_read_def resume_wait_to_read_def read_verdict_def can_read_def)

lemma resume_wait_to_read_call_outcome:
  "resume_wait_to_read_call stop c =
     (if stop then Ch_done False (c\<lparr>ch_read_waiters := ch_read_waiters c - 1\<rparr>)
      else if ch_queue c \<noteq> [] then Ch_done True (c\<lparr>ch_read_waiters := ch_read_waiters c - 1\<rparr>)
      else if ch_writer_completed c then Ch_done False (c\<lparr>ch_read_waiters := ch_read_waiters c - 1\<rparr>)
      else Ch_blocks c)"
  by (simp add: resume_wait_to_read_call_def resume_wait_to_read_def read_verdict_def can_read_def)

lemmas call_outcomes =
  emplace_outcome try_emplace_outcome resume_emplace_outcome read_outcome try_read_outcome resume_read_outcome
  wait_to_read_outcome resume_wait_to_read_call_outcome

text \<open>What a call of each operation does on every branch.  A blocking push appends exactly when no stop is
  requested, the channel is open and not full; it waits exactly when only space is missing; otherwise it
  returns false and leaves the channel as it is.  A blocking read takes the head of the queue, waits
  exactly on an open empty channel, and reports cancellation before emptiness.  Each notifies the other
  side exactly when a waiter is registered there.\<close>

lemma channel_call_outcomes:
  "emplace stop WAIT x c =
     (if stop \<or> ch_writer_completed c then Ch_done (False, False) c
      else if full c then Ch_blocks (c\<lparr>ch_write_waiters := ch_write_waiters c + 1\<rparr>)
      else Ch_done (True, ch_read_waiters c \<noteq> 0) (c\<lparr>ch_queue := ch_queue c @ [x]\<rparr>))
   \<and> read stop WAIT c =
     (if stop then Ch_done (Inl REQUEST_CANCELLED, False) c
      else (case ch_queue c of
              y # ys \<Rightarrow> Ch_done (Inr y, ch_write_waiters c \<noteq> 0) (c\<lparr>ch_queue := ys\<rparr>)
            | [] \<Rightarrow> if ch_writer_completed c then Ch_done (Inl CHANNEL_EMPTY, False) c
                     else Ch_blocks (c\<lparr>ch_read_waiters := ch_read_waiters c + 1\<rparr>)))
   \<and> wait_to_read stop c =
     (if stop then Ch_done False c
      else if ch_queue c \<noteq> [] then Ch_done True c
      else if ch_writer_completed c then Ch_done False c
      else Ch_blocks (c\<lparr>ch_read_waiters := ch_read_waiters c + 1\<rparr>))"
  by (intro conjI emplace_outcome read_outcome wait_to_read_outcome)

text \<open>After completion nothing that was accepted is lost: \<open>read_all\<close> on a completed channel yields every
  queued message in order and finishes with an empty channel, without blocking.\<close>

lemma read_all_after_completion:
  assumes "ch_writer_completed c"
  shows "read_all (\<lambda>_. False) i c = (ch_queue c, Gen_finished (c\<lparr>ch_queue := []\<rparr>))"
  using assms
proof (induction "ch_queue c" arbitrary: c i)
  case Nil
  then have "c\<lparr>ch_queue := []\<rparr> = c" by simp
  with Nil show ?case
    by (subst read_all.simps)
      (simp add: read_def read_after_def internal_wait_to_read_def read_verdict_def)
next
  case (Cons x xs)
  let ?c = "c\<lparr>ch_queue := xs\<rparr>"
  have "read False WAIT c = Ch_done (Inr x, ch_write_waiters c \<noteq> 0) ?c"
    using Cons.hyps(2) [symmetric] by (simp add: read_def read_after_def internal_wait_to_read_def read_verdict_def
        read_item_def)
  with Cons.hyps(1) [of ?c "Suc i"] Cons.hyps(2) [symmetric] Cons.prems show ?case
    by (subst read_all.simps) simp
qed

lemma read_all_after_completion_witness:
  "read_all (\<lambda>_. False) 0 (channel_complete_writer ((channel_make 3)\<lparr>ch_queue := [1::nat, 2, 3]\<rparr>))
     = ([1, 2, 3], Gen_finished (channel_complete_writer (channel_make 3)))"
  using read_all_after_completion [of "channel_complete_writer ((channel_make 3)\<lparr>ch_queue := [1::nat, 2, 3]\<rparr>)" 0]
  by (simp add: channel_complete_writer_def channel_make_def)

end
