(* ===== verification/Channel_System.thy ===== *)
theory Channel_System
  imports Channel
begin

text \<open>
  Threads on one channel.  A thread is idle, blocked in a wait, woken (it has left the wait set of the
  condition variable and competes for the mutex), or has unlocked and is about to notify.  One step is
  one critical section or one notification.  Wake-ups may be spurious.  A stop request sets the stop
  flag of a thread and, as \<open>std::condition_variable_any\<close> does for the calls registered with it,
  notifies all waiters of the condition variable the thread waits on; the two are one step.

  \<open>cs_in\<close> and \<open>cs_out\<close> record the messages accepted and delivered.
\<close>

section \<open>The step relation\<close>

datatype read_kind = Read | Wait_to_read

datatype 'a pc =
    Idle
  | Read_blocked read_kind
  | Read_woken read_kind
  | Write_blocked 'a
  | Write_woken 'a
  | Notify_reader
  | Notify_writer
  | Notify_all_readers
  | Notify_all_writers

type_synonym 'a thread = "'a pc \<times> bool"

record 'a csys =
  cs_chan :: "'a channel"
  cs_threads :: "'a thread list"
  cs_in :: "'a list"
  cs_out :: "'a list"

datatype 'a clabel =
    C_emplace nat 'a
  | C_try_emplace nat 'a
  | C_read nat
  | C_try_read nat
  | C_wait_to_read nat
  | C_complete nat
  | C_resume nat
  | C_notify_one nat "nat option"
  | C_notify_all nat
  | C_spurious nat
  | C_stop nat
  | C_new_token nat

text \<open>What a call leaves behind: the channel, the next state of the thread, and the histories.\<close>

fun after_emplace :: "nat \<Rightarrow> 'a \<Rightarrow> 'a csys \<Rightarrow> (bool \<times> bool, 'a) ch_outcome \<Rightarrow> 'a csys" where
  "after_emplace i x s (Ch_blocks c) =
     s\<lparr>cs_chan := c, cs_threads := (cs_threads s)[i := (Write_blocked x, snd (cs_threads s ! i))]\<rparr>"
| "after_emplace i x s (Ch_done (ok, notify) c) =
     s\<lparr>cs_chan := c,
       cs_threads := (cs_threads s)[i := (if notify then Notify_reader else Idle, snd (cs_threads s ! i))],
       cs_in := cs_in s @ (if ok then [x] else [])\<rparr>"

fun after_read :: "nat \<Rightarrow> 'a csys \<Rightarrow> ((channel_read_errors + 'a) \<times> bool, 'a) ch_outcome \<Rightarrow> 'a csys" where
  "after_read i s (Ch_blocks c) =
     s\<lparr>cs_chan := c, cs_threads := (cs_threads s)[i := (Read_blocked Read, snd (cs_threads s ! i))]\<rparr>"
| "after_read i s (Ch_done (r, notify) c) =
     s\<lparr>cs_chan := c,
       cs_threads := (cs_threads s)[i := (if notify then Notify_writer else Idle, snd (cs_threads s ! i))],
       cs_out := cs_out s @ (case r of Inl e \<Rightarrow> [] | Inr y \<Rightarrow> [y])\<rparr>"

fun after_wait :: "nat \<Rightarrow> 'a csys \<Rightarrow> (bool, 'a) ch_outcome \<Rightarrow> 'a csys" where
  "after_wait i s (Ch_blocks c) =
     s\<lparr>cs_chan := c, cs_threads := (cs_threads s)[i := (Read_blocked Wait_to_read, snd (cs_threads s ! i))]\<rparr>"
| "after_wait i s (Ch_done r c) =
     s\<lparr>cs_chan := c, cs_threads := (cs_threads s)[i := (Idle, snd (cs_threads s ! i))]\<rparr>"

fun wake_reader :: "'a thread \<Rightarrow> 'a thread" where
  "wake_reader (Read_blocked k, st) = (Read_woken k, st)"
| "wake_reader t = t"

fun wake_writer :: "'a thread \<Rightarrow> 'a thread" where
  "wake_writer (Write_blocked x, st) = (Write_woken x, st)"
| "wake_writer t = t"

fun in_read_wait :: "'a thread \<Rightarrow> bool" where
  "in_read_wait (Read_blocked k, st) = True"
| "in_read_wait (Read_woken k, st) = True"
| "in_read_wait t = False"

fun in_write_wait :: "'a thread \<Rightarrow> bool" where
  "in_write_wait (Write_blocked x, st) = True"
| "in_write_wait (Write_woken x, st) = True"
| "in_write_wait t = False"

fun read_blocked :: "'a thread \<Rightarrow> bool" where
  "read_blocked (Read_blocked k, st) = True"
| "read_blocked t = False"

fun write_blocked :: "'a thread \<Rightarrow> bool" where
  "write_blocked (Write_blocked x, st) = True"
| "write_blocked t = False"

text \<open>The stop callback of thread \<open>i\<close>: it notifies all waiters of the condition variable \<open>i\<close> waits on.\<close>

definition stop_callback :: "nat \<Rightarrow> 'a thread list \<Rightarrow> 'a thread list" where
  "stop_callback i ts =
     (if in_read_wait (ts ! i) then map wake_reader ts
      else if in_write_wait (ts ! i) then map wake_writer ts else ts)"

definition thread_at :: "'a csys \<Rightarrow> nat \<Rightarrow> 'a thread \<Rightarrow> bool" where
  "thread_at s i t \<longleftrightarrow> i < length (cs_threads s) \<and> cs_threads s ! i = t"

inductive cstep :: "'a csys \<Rightarrow> 'a clabel \<Rightarrow> 'a csys \<Rightarrow> bool" where
  cs_emplace: "thread_at s i (Idle, st) \<Longrightarrow>
     cstep s (C_emplace i x) (after_emplace i x s (emplace st WAIT x (cs_chan s)))"
| cs_try_emplace: "thread_at s i (Idle, st) \<Longrightarrow>
     cstep s (C_try_emplace i x) (after_emplace i x s (emplace False TRY x (cs_chan s)))"
| cs_read: "thread_at s i (Idle, st) \<Longrightarrow>
     cstep s (C_read i) (after_read i s (read st WAIT (cs_chan s)))"
| cs_try_read: "thread_at s i (Idle, st) \<Longrightarrow>
     cstep s (C_try_read i) (after_read i s (read False TRY (cs_chan s)))"
| cs_wait_to_read: "thread_at s i (Idle, st) \<Longrightarrow>
     cstep s (C_wait_to_read i) (after_wait i s (wait_to_read st (cs_chan s)))"
| cs_complete: "thread_at s i (Idle, st) \<Longrightarrow>
     cstep s (C_complete i)
       (s\<lparr>cs_chan := channel_complete_writer (cs_chan s),
          cs_threads := (cs_threads s)[i := (Notify_all_readers, st)]\<rparr>)"
| cs_resume_read: "thread_at s i (Read_woken Read, st) \<Longrightarrow>
     cstep s (C_resume i) (after_read i s (resume_read st (cs_chan s)))"
| cs_resume_wait: "thread_at s i (Read_woken Wait_to_read, st) \<Longrightarrow>
     cstep s (C_resume i) (after_wait i s (resume_wait_to_read_call st (cs_chan s)))"
| cs_resume_emplace: "thread_at s i (Write_woken x, st) \<Longrightarrow>
     cstep s (C_resume i) (after_emplace i x s (resume_emplace st x (cs_chan s)))"
| cs_notify_reader: "thread_at s i (Notify_reader, st) \<Longrightarrow> thread_at s j (Read_blocked k, st') \<Longrightarrow>
     cstep s (C_notify_one i (Some j))
       (s\<lparr>cs_threads := (cs_threads s)[i := (Idle, st), j := (Read_woken k, st')]\<rparr>)"
| cs_notify_no_reader: "thread_at s i (Notify_reader, st) \<Longrightarrow> \<not> (\<exists>t \<in> set (cs_threads s). read_blocked t) \<Longrightarrow>
     cstep s (C_notify_one i None) (s\<lparr>cs_threads := (cs_threads s)[i := (Idle, st)]\<rparr>)"
| cs_notify_writer: "thread_at s i (Notify_writer, st) \<Longrightarrow> thread_at s j (Write_blocked x, st') \<Longrightarrow>
     cstep s (C_notify_one i (Some j))
       (s\<lparr>cs_threads := (cs_threads s)[i := (Idle, st), j := (Write_woken x, st')]\<rparr>)"
| cs_notify_no_writer: "thread_at s i (Notify_writer, st) \<Longrightarrow> \<not> (\<exists>t \<in> set (cs_threads s). write_blocked t) \<Longrightarrow>
     cstep s (C_notify_one i None) (s\<lparr>cs_threads := (cs_threads s)[i := (Idle, st)]\<rparr>)"
| cs_notify_all_readers: "thread_at s i (Notify_all_readers, st) \<Longrightarrow>
     cstep s (C_notify_all i) (s\<lparr>cs_threads := (map wake_reader (cs_threads s))[i := (Notify_all_writers, st)]\<rparr>)"
| cs_notify_all_writers: "thread_at s i (Notify_all_writers, st) \<Longrightarrow>
     cstep s (C_notify_all i) (s\<lparr>cs_threads := (map wake_writer (cs_threads s))[i := (Idle, st)]\<rparr>)"
| cs_spurious_reader: "thread_at s i (Read_blocked k, st) \<Longrightarrow>
     cstep s (C_spurious i) (s\<lparr>cs_threads := (cs_threads s)[i := (Read_woken k, st)]\<rparr>)"
| cs_spurious_writer: "thread_at s i (Write_blocked x, st) \<Longrightarrow>
     cstep s (C_spurious i) (s\<lparr>cs_threads := (cs_threads s)[i := (Write_woken x, st)]\<rparr>)"
| cs_stop: "thread_at s i (p, st) \<Longrightarrow>
     cstep s (C_stop i) (s\<lparr>cs_threads := stop_callback i ((cs_threads s)[i := (p, True)])\<rparr>)"
| cs_new_token: "thread_at s i (Idle, st) \<Longrightarrow>
     cstep s (C_new_token i) (s\<lparr>cs_threads := (cs_threads s)[i := (Idle, False)]\<rparr>)"

inductive_cases cstep_cases: "cstep s l t"

definition cs_init :: "size_t \<Rightarrow> nat \<Rightarrow> 'a csys \<Rightarrow> bool" where
  "cs_init capacity n s \<longleftrightarrow>
     n < 2 ^ 64
     \<and> s = \<lparr>cs_chan = channel_make capacity, cs_threads = replicate n (Idle, False), cs_in = [], cs_out = []\<rparr>"

section \<open>Counting threads\<close>

definition cnt :: "('a thread \<Rightarrow> bool) \<Rightarrow> 'a thread list \<Rightarrow> nat" where
  "cnt P ts = length (filter P ts)"

lemma cnt_pos: "i < length ts \<Longrightarrow> P (ts ! i) \<Longrightarrow> 0 < cnt P ts"
  unfolding cnt_def filter_length_pos_iff by blast

lemma cnt_update:
  "i < length ts \<Longrightarrow> cnt P (ts[i := t]) = (if P (ts ! i) then cnt P ts - 1 else cnt P ts) + (if P t then 1 else 0)"
  using count_list_update [of i ts P t] cnt_pos [of i ts P] unfolding cnt_def by (simp split: if_splits)

lemma cnt_member: "0 < cnt P ts \<longleftrightarrow> (\<exists>t \<in> set ts. P t)"
  by (auto simp: cnt_def filter_empty_conv)

lemma cnt_le_length: "cnt P ts \<le> length ts"
  by (simp add: cnt_def)

lemma cnt_less_length: "i < length ts \<Longrightarrow> \<not> P (ts ! i) \<Longrightarrow> cnt P ts < length ts"
  unfolding cnt_def by (metis length_filter_less nth_mem)

lemma cnt_map: "cnt P (map f ts) = cnt (P \<circ> f) ts"
  by (simp add: cnt_def filter_map)

lemma cnt_cong: "(\<And>t. t \<in> set ts \<Longrightarrow> P t = Q t) \<Longrightarrow> cnt P ts = cnt Q ts"
  unfolding cnt_def by (metis filter_cong)

lemma wake_reader_sim [simp]:
  "in_read_wait (wake_reader t) = in_read_wait t" "in_write_wait (wake_reader t) = in_write_wait t"
  "read_blocked (wake_reader t) = False" "write_blocked (wake_reader t) = write_blocked t"
  by (cases t rule: wake_reader.cases; simp)+

lemma wake_writer_sim [simp]:
  "in_read_wait (wake_writer t) = in_read_wait t" "in_write_wait (wake_writer t) = in_write_wait t"
  "read_blocked (wake_writer t) = read_blocked t" "write_blocked (wake_writer t) = False"
  by (cases t rule: wake_writer.cases; simp)+

lemma unat_inc: "unat (w :: size_t) < n \<Longrightarrow> n < 2 ^ 64 \<Longrightarrow> unat (w + 1) = Suc (unat w)"
  by (simp add: unat_add_size)

lemma unat_dec: "0 < unat (w :: size_t) \<Longrightarrow> unat (w - 1) = unat w - 1"
  by (simp add: unat_sub_size size_le_iff)

section \<open>The basic invariant\<close>

definition waiters_exact :: "'a channel \<Rightarrow> 'a thread list \<Rightarrow> bool" where
  "waiters_exact c ts \<longleftrightarrow>
     length ts < 2 ^ 64 \<and> unat (ch_read_waiters c) = cnt in_read_wait ts
     \<and> unat (ch_write_waiters c) = cnt in_write_wait ts"

definition cs_basic :: "'a csys \<Rightarrow> bool" where
  "cs_basic s \<longleftrightarrow>
     waiters_exact (cs_chan s) (cs_threads s)
     \<and> within_capacity (cs_chan s) (length (ch_queue (cs_chan s)))
     \<and> cs_in s = cs_out s @ ch_queue (cs_chan s)"

lemma stop_callback_cnt [simp]:
  "cnt in_read_wait (stop_callback i ts) = cnt in_read_wait ts"
  "cnt in_write_wait (stop_callback i ts) = cnt in_write_wait ts"
  "length (stop_callback i ts) = length ts"
  by (simp_all add: stop_callback_def cnt_map comp_def)

lemma waiters_inc_read:
  assumes "waiters_exact c ts" and "i < length ts" and "\<not> in_read_wait (ts ! i)"
  shows "unat (ch_read_waiters c + 1) = Suc (cnt in_read_wait ts)"
  using assms cnt_less_length [of i ts in_read_wait] unat_inc [of "ch_read_waiters c" "length ts"]
  by (simp add: waiters_exact_def)

lemma waiters_inc_write:
  assumes "waiters_exact c ts" and "i < length ts" and "\<not> in_write_wait (ts ! i)"
  shows "unat (ch_write_waiters c + 1) = Suc (cnt in_write_wait ts)"
  using assms cnt_less_length [of i ts in_write_wait] unat_inc [of "ch_write_waiters c" "length ts"]
  by (simp add: waiters_exact_def)

lemma waiters_dec_read:
  assumes "waiters_exact c ts" and "i < length ts" and "in_read_wait (ts ! i)"
  shows "unat (ch_read_waiters c - 1) = cnt in_read_wait ts - 1"
  using assms cnt_pos [of i ts in_read_wait] unat_dec [of "ch_read_waiters c"] by (simp add: waiters_exact_def)

lemma waiters_dec_write:
  assumes "waiters_exact c ts" and "i < length ts" and "in_write_wait (ts ! i)"
  shows "unat (ch_write_waiters c - 1) = cnt in_write_wait ts - 1"
  using assms cnt_pos [of i ts in_write_wait] unat_dec [of "ch_write_waiters c"] by (simp add: waiters_exact_def)

lemmas waiters_change = waiters_inc_read waiters_inc_write waiters_dec_read waiters_dec_write

lemma waiters_step:
  assumes w: "waiters_exact (cs_chan s) (cs_threads s)" and st: "cstep s l t"
  shows "waiters_exact (cs_chan t) (cs_threads t)"
  using st
proof (cases rule: cstep.cases)
  case (cs_emplace i st x)
  then show ?thesis using w waiters_change(2) [OF w, of i]
    by (auto simp: call_outcomes thread_at_def waiters_exact_def cnt_update)
next
  case (cs_try_emplace i st x)
  then show ?thesis using w by (auto simp: call_outcomes thread_at_def waiters_exact_def cnt_update)
next
  case (cs_read i st)
  then show ?thesis using w waiters_change(1) [OF w, of i]
    by (auto simp: call_outcomes thread_at_def waiters_exact_def cnt_update split: list.split)
next
  case (cs_try_read i st)
  then show ?thesis using w
    by (auto simp: call_outcomes thread_at_def waiters_exact_def cnt_update split: list.split)
next
  case (cs_wait_to_read i st)
  then show ?thesis using w waiters_change(1) [OF w, of i]
    by (auto simp: call_outcomes thread_at_def waiters_exact_def cnt_update)
next
  case (cs_resume_read i st)
  then show ?thesis using w waiters_change(3) [OF w, of i] cnt_pos [of i "cs_threads s" in_read_wait]
    by (auto simp: call_outcomes thread_at_def waiters_exact_def cnt_update split: list.split)
next
  case (cs_resume_wait i st)
  then show ?thesis using w waiters_change(3) [OF w, of i] cnt_pos [of i "cs_threads s" in_read_wait]
    by (auto simp: call_outcomes thread_at_def waiters_exact_def cnt_update)
next
  case (cs_resume_emplace i x st)
  then show ?thesis using w waiters_change(4) [OF w, of i] cnt_pos [of i "cs_threads s" in_write_wait]
    by (auto simp: call_outcomes thread_at_def waiters_exact_def cnt_update)
next
  case (cs_notify_reader i st j k st')
  then show ?thesis using w cnt_pos [of j "cs_threads s" in_read_wait]
    by (auto simp: thread_at_def waiters_exact_def cnt_update nth_list_update)
next
  case (cs_notify_writer i st j x st')
  then show ?thesis using w cnt_pos [of j "cs_threads s" in_write_wait]
    by (auto simp: thread_at_def waiters_exact_def cnt_update nth_list_update)
next
  case (cs_spurious_reader i k st)
  then show ?thesis using w cnt_pos [of i "cs_threads s" in_read_wait]
    by (auto simp: thread_at_def waiters_exact_def cnt_update)
next
  case (cs_spurious_writer i x st)
  then show ?thesis using w cnt_pos [of i "cs_threads s" in_write_wait]
    by (auto simp: thread_at_def waiters_exact_def cnt_update)
next
  case (cs_stop i p st)
  then show ?thesis using w cnt_pos [of i "cs_threads s" in_read_wait] cnt_pos [of i "cs_threads s" in_write_wait]
    by (cases p) (auto simp: thread_at_def waiters_exact_def cnt_update)
qed (use w in \<open>auto simp: thread_at_def waiters_exact_def cnt_update cnt_map comp_def channel_complete_writer_def\<close>)

lemma queue_step:
  assumes inv: "within_capacity (cs_chan s) (length (ch_queue (cs_chan s)))"
      "cs_in s = cs_out s @ ch_queue (cs_chan s)" and st: "cstep s l t"
  shows "within_capacity (cs_chan t) (length (ch_queue (cs_chan t))) \<and> cs_in t = cs_out t @ ch_queue (cs_chan t)"
  using st
proof (cases rule: cstep.cases)
  case (cs_emplace i st x)
  then show ?thesis using inv not_full_length [OF _ inv(1)] by (auto simp: call_outcomes within_capacity_def)
next
  case (cs_try_emplace i st x)
  then show ?thesis using inv not_full_length [OF _ inv(1)] by (auto simp: call_outcomes within_capacity_def)
next
  case (cs_resume_emplace i x st)
  then show ?thesis using inv not_full_length [OF _ inv(1)] by (auto simp: call_outcomes within_capacity_def)
qed (use inv in \<open>auto simp: call_outcomes within_capacity_def channel_complete_writer_def split: list.split\<close>)

lemma basic_step: "cs_basic s \<Longrightarrow> cstep s l t \<Longrightarrow> cs_basic t"
  using waiters_step queue_step unfolding cs_basic_def by blast

lemma cnt_replicate: "cnt P (replicate n t) = (if P t then n else 0)"
  by (simp add: cnt_def)

interpretation basic: inductive_invariant "cs_init capacity n" cstep "\<lambda>_. True" cs_basic
  for capacity n
proof unfold_locales
  fix s :: "'a csys" assume "cs_init capacity n s"
  then show "cs_basic s"
    by (simp add: cs_init_def cs_basic_def waiters_exact_def cnt_replicate channel_make_def within_capacity_def)
qed (rule basic_step)

section \<open>No lost wake-up\<close>

text \<open>A woken reader that will take a message when it runs, and the pending notifications.\<close>

fun reader_coming :: "'a thread \<Rightarrow> bool" where
  "reader_coming (Read_woken Read, st) = (\<not> st)"
| "reader_coming (Notify_reader, st) = True"
| "reader_coming t = False"

fun writer_coming :: "'a thread \<Rightarrow> bool" where
  "writer_coming (Write_woken x, st) = (\<not> st)"
| "writer_coming (Notify_writer, st) = True"
| "writer_coming t = False"

fun waits_to_read :: "'a thread \<Rightarrow> bool" where
  "waits_to_read (Read_blocked Wait_to_read, st) = True"
| "waits_to_read (Read_woken Wait_to_read, st) = True"
| "waits_to_read t = False"

definition readers_served :: "'a csys \<Rightarrow> bool" where
  "readers_served s \<longleftrightarrow>
     cnt waits_to_read (cs_threads s) = 0
     \<and> (\<not> ch_writer_completed (cs_chan s) \<longrightarrow> 0 < cnt read_blocked (cs_threads s) \<longrightarrow>
          length (ch_queue (cs_chan s)) \<le> cnt reader_coming (cs_threads s))"

definition writers_served :: "'a csys \<Rightarrow> bool" where
  "writers_served s \<longleftrightarrow>
     (\<not> ch_writer_completed (cs_chan s) \<longrightarrow> 0 < cnt write_blocked (cs_threads s) \<longrightarrow>
        ch_capacity (cs_chan s) \<noteq> 0
        \<and> unat (ch_capacity (cs_chan s)) - length (ch_queue (cs_chan s)) \<le> cnt writer_coming (cs_threads s))"

text \<open>Without \<open>wait_to_read\<close>.\<close>

definition no_wait_to_read :: "'a clabel \<Rightarrow> bool" where
  "no_wait_to_read l \<longleftrightarrow> (\<forall>i. l \<noteq> C_wait_to_read i)"

lemma wake_reader_coming [simp]:
  "waits_to_read (wake_reader t) = waits_to_read t" "writer_coming (wake_reader t) = writer_coming t"
  by (cases t rule: waits_to_read.cases; simp)+

lemma wake_writer_coming [simp]:
  "waits_to_read (wake_writer t) = waits_to_read t" "reader_coming (wake_writer t) = reader_coming t"
  by (cases t rule: wake_writer.cases; simp)+

text \<open>A thread that blocks has no stop request: a request wakes it.\<close>

fun stopped_blocked :: "'a thread \<Rightarrow> bool" where
  "stopped_blocked (Read_blocked k, st) = st"
| "stopped_blocked (Write_blocked x, st) = st"
| "stopped_blocked t = False"

lemma cnt_zero: "(\<And>t. t \<in> set ts \<Longrightarrow> \<not> P t) \<Longrightarrow> cnt P ts = 0"
  by (simp add: cnt_def)

lemma cnt_mono: "(\<And>t. P t \<Longrightarrow> Q t) \<Longrightarrow> cnt P ts \<le> cnt Q ts"
  unfolding cnt_def by (induction ts) auto

lemma blocked_reader_registered:
  assumes "waiters_exact c ts" and "0 < cnt read_blocked ts"
  shows "ch_read_waiters c \<noteq> 0"
proof -
  have "cnt read_blocked ts \<le> cnt in_read_wait ts" by (rule cnt_mono) (auto elim: read_blocked.elims)
  with assms have "unat (ch_read_waiters c) \<noteq> 0" by (simp add: waiters_exact_def)
  then show ?thesis by auto
qed

lemma blocked_writer_registered:
  assumes "waiters_exact c ts" and "0 < cnt write_blocked ts"
  shows "ch_write_waiters c \<noteq> 0"
proof -
  have "cnt write_blocked ts \<le> cnt in_write_wait ts" by (rule cnt_mono) (auto elim: write_blocked.elims)
  with assms have "unat (ch_write_waiters c) \<noteq> 0" by (simp add: waiters_exact_def)
  then show ?thesis by auto
qed

lemma stopped_blocked_step:
  assumes z: "cnt stopped_blocked (cs_threads s) = 0" and st: "cstep s l t"
  shows "cnt stopped_blocked (cs_threads t) = 0"
proof -
  have wr: "cnt stopped_blocked (map wake_reader ts) \<le> cnt stopped_blocked ts"
    and ww: "cnt stopped_blocked (map wake_writer ts) \<le> cnt stopped_blocked ts" for ts :: "'a thread list"
    unfolding cnt_map comp_def
    by (rule cnt_mono; case_tac t rule: stopped_blocked.cases; simp)+
  show ?thesis using st
  proof (cases rule: cstep.cases)
    case (cs_stop i p st)
    have "cnt stopped_blocked (stop_callback i ((cs_threads s)[i := (p, True)])) = 0"
      using cs_stop(3) z wr [of "cs_threads s"] ww [of "cs_threads s"]
      by (cases p) (auto simp: stop_callback_def thread_at_def cnt_update cnt_map)
    then show ?thesis using cs_stop by simp
  next
    case (cs_notify_all_readers i st)
    then show ?thesis using z wr [of "cs_threads s"] by (auto simp: thread_at_def cnt_update)
  next
    case (cs_notify_all_writers i st)
    then show ?thesis using z ww [of "cs_threads s"] by (auto simp: thread_at_def cnt_update)
  qed (use z in \<open>auto simp: call_outcomes thread_at_def cnt_update nth_list_update split: list.split\<close>)
qed

lemma no_blocked_reader:
  "\<not> (\<exists>t \<in> set ts. read_blocked t) \<Longrightarrow> cnt read_blocked ts = 0"
  by (rule cnt_zero) blast

lemma no_blocked_writer:
  "\<not> (\<exists>t \<in> set ts. write_blocked t) \<Longrightarrow> cnt write_blocked ts = 0"
  by (rule cnt_zero) blast

lemma stopped_blocked_at:
  assumes "cnt stopped_blocked ts = 0" and "i < length ts"
  shows "\<not> stopped_blocked (ts ! i)"
  using assms cnt_pos [of i ts stopped_blocked] by auto

lemma waits_to_read_iff: "waits_to_read (p, st) \<longleftrightarrow> p = Read_blocked Wait_to_read \<or> p = Read_woken Wait_to_read"
  by (cases "(p, st)" rule: waits_to_read.cases) auto

lemma readers_step:
  assumes inv: "readers_served s" and w: "waiters_exact (cs_chan s) (cs_threads s)"
    and z: "cnt stopped_blocked (cs_threads s) = 0" and st: "cstep s l t" and al: "no_wait_to_read l"
  shows "readers_served t"
  using st
proof (cases rule: cstep.cases)
  case (cs_emplace i st x)
  then show ?thesis using inv blocked_reader_registered [OF w]
    by (auto simp: readers_served_def call_outcomes thread_at_def cnt_update)
next
  case (cs_try_emplace i st x)
  then show ?thesis using inv blocked_reader_registered [OF w]
    by (auto simp: readers_served_def call_outcomes thread_at_def cnt_update)
next
  case (cs_resume_emplace i x st)
  then show ?thesis using inv blocked_reader_registered [OF w]
    by (auto simp: readers_served_def call_outcomes thread_at_def cnt_update)
next
  case (cs_resume_read i st)
  then show ?thesis using inv cnt_pos [of i "cs_threads s" reader_coming]
    by (auto simp: readers_served_def call_outcomes thread_at_def cnt_update split: list.split)
next
  case (cs_resume_wait i st)
  then show ?thesis using inv cnt_pos [of i "cs_threads s" waits_to_read]
    by (auto simp: readers_served_def thread_at_def)
next
  case (cs_notify_reader i st j k st')
  then have "\<not> st'" "k = Read"
    using stopped_blocked_at [OF z, of j] inv cnt_pos [of j "cs_threads s" waits_to_read]
    by (cases k; auto simp: thread_at_def readers_served_def)+
  with cs_notify_reader show ?thesis using inv cnt_pos [of i "cs_threads s" reader_coming] cnt_pos [of j "cs_threads s" read_blocked]
    by (auto simp: readers_served_def thread_at_def cnt_update nth_list_update)
next
  case (cs_notify_no_reader i st)
  then show ?thesis using inv no_blocked_reader [OF cs_notify_no_reader(4)]
    by (auto simp: readers_served_def thread_at_def cnt_update)
next
  case (cs_notify_all_readers i st)
  then show ?thesis using inv
    by (auto simp: readers_served_def thread_at_def cnt_update cnt_map comp_def cnt_zero)
next
  case (cs_spurious_reader i k st)
  then have "\<not> st" "k = Read"
    using stopped_blocked_at [OF z, of i] inv cnt_pos [of i "cs_threads s" waits_to_read]
    by (cases k; auto simp: thread_at_def readers_served_def)+
  with cs_spurious_reader show ?thesis using inv
    by (auto simp: readers_served_def thread_at_def cnt_update)
next
  case (cs_stop i p st)
  have zero: "cnt (\<lambda>t. False) ts = 0" for ts :: "'a thread list" by (simp add: cnt_def)
  from cs_stop show ?thesis using inv cnt_pos [of i "cs_threads s" waits_to_read]
    by (cases p) (auto simp: readers_served_def thread_at_def stop_callback_def cnt_update cnt_map comp_def zero
        waits_to_read_iff)
qed (use inv al in \<open>auto simp: readers_served_def call_outcomes thread_at_def cnt_update cnt_map comp_def
       no_wait_to_read_def channel_complete_writer_def nth_list_update split: list.split\<close>)

lemma full_iff:
  assumes "within_capacity c (length (ch_queue c))"
  shows "full c \<longleftrightarrow> ch_capacity c \<noteq> 0 \<and> unat (ch_capacity c) - length (ch_queue c) = 0"
  using full_length [OF assms(1)] assms by (auto simp: within_capacity_def)

lemma writers_step:
  assumes inv: "writers_served s" and w: "waiters_exact (cs_chan s) (cs_threads s)"
    and cap: "within_capacity (cs_chan s) (length (ch_queue (cs_chan s)))"
    and z: "cnt stopped_blocked (cs_threads s) = 0" and st: "cstep s l t"
  shows "writers_served t"
  using st
proof (cases rule: cstep.cases)
  case (cs_emplace i st x)
  then show ?thesis using inv full_iff [OF cap]
    by (auto simp: writers_served_def call_outcomes thread_at_def cnt_update)
next
  case (cs_try_emplace i st x)
  then show ?thesis using inv
    by (auto simp: writers_served_def call_outcomes thread_at_def cnt_update)
next
  case (cs_resume_emplace i x st)
  then show ?thesis using inv full_iff [OF cap] cnt_pos [of i "cs_threads s" writer_coming]
    by (auto simp: writers_served_def call_outcomes thread_at_def cnt_update)
next
  case (cs_read i st)
  then show ?thesis using inv blocked_writer_registered [OF w]
    by (auto simp: writers_served_def call_outcomes thread_at_def cnt_update split: list.split)
next
  case (cs_try_read i st)
  then show ?thesis using inv blocked_writer_registered [OF w]
    by (auto simp: writers_served_def call_outcomes thread_at_def cnt_update split: list.split)
next
  case (cs_resume_read i st)
  then show ?thesis using inv blocked_writer_registered [OF w]
    by (auto simp: writers_served_def call_outcomes thread_at_def cnt_update split: list.split)
next
  case (cs_notify_writer i st j x st')
  then have "\<not> st'" using stopped_blocked_at [OF z, of j] by (auto simp: thread_at_def)
  with cs_notify_writer show ?thesis
    using inv cnt_pos [of i "cs_threads s" writer_coming] cnt_pos [of j "cs_threads s" write_blocked]
    by (auto simp: writers_served_def thread_at_def cnt_update nth_list_update)
next
  case (cs_notify_no_writer i st)
  then show ?thesis using inv no_blocked_writer [OF cs_notify_no_writer(4)]
    by (auto simp: writers_served_def thread_at_def cnt_update)
next
  case (cs_notify_all_writers i st)
  then show ?thesis using inv
    by (auto simp: writers_served_def thread_at_def cnt_update cnt_map comp_def cnt_zero)
next
  case (cs_spurious_writer i x st)
  then have "\<not> st" using stopped_blocked_at [OF z, of i] by (auto simp: thread_at_def)
  with cs_spurious_writer show ?thesis using inv
    by (auto simp: writers_served_def thread_at_def cnt_update)
next
  case (cs_stop i p st)
  have zero: "cnt (\<lambda>t. False) ts = 0" for ts :: "'a thread list" by (simp add: cnt_def)
  from cs_stop show ?thesis using inv
    by (cases p) (auto simp: writers_served_def thread_at_def stop_callback_def cnt_update cnt_map comp_def zero)
qed (use inv in \<open>auto simp: writers_served_def call_outcomes thread_at_def cnt_update cnt_map comp_def
       channel_complete_writer_def nth_list_update\<close>)

section \<open>Completion reaches every waiter\<close>

fun announces_readers :: "'a thread \<Rightarrow> bool" where
  "announces_readers (Notify_all_readers, st) = True"
| "announces_readers t = False"

fun announces_writers :: "'a thread \<Rightarrow> bool" where
  "announces_writers (Notify_all_readers, st) = True"
| "announces_writers (Notify_all_writers, st) = True"
| "announces_writers t = False"

definition completion_announced :: "'a csys \<Rightarrow> bool" where
  "completion_announced s \<longleftrightarrow>
     (ch_writer_completed (cs_chan s) \<longrightarrow>
        (0 < cnt read_blocked (cs_threads s) \<longrightarrow> 0 < cnt announces_readers (cs_threads s))
        \<and> (0 < cnt write_blocked (cs_threads s) \<longrightarrow> 0 < cnt announces_writers (cs_threads s)))"

lemma wake_announces [simp]:
  "announces_readers (wake_reader t) = announces_readers t" "announces_writers (wake_reader t) = announces_writers t"
  "announces_readers (wake_writer t) = announces_readers t" "announces_writers (wake_writer t) = announces_writers t"
  by (cases t rule: announces_readers.cases; simp; fail)
    (cases t rule: announces_writers.cases; simp; fail |
     cases t rule: announces_readers.cases; simp; fail)+

lemma announced_step:
  assumes inv: "completion_announced s" and st: "cstep s l t"
  shows "completion_announced t"
  using st
proof (cases rule: cstep.cases)
  case (cs_notify_reader i st j k st')
  then show ?thesis using inv cnt_pos [of j "cs_threads s" read_blocked]
    by (auto simp: completion_announced_def thread_at_def cnt_update nth_list_update)
next
  case (cs_notify_writer i st j x st')
  then show ?thesis using inv cnt_pos [of j "cs_threads s" write_blocked]
    by (auto simp: completion_announced_def thread_at_def cnt_update nth_list_update)
next
  case (cs_stop i p st)
  have zero: "cnt (\<lambda>t. False) ts = 0" for ts :: "'a thread list" by (simp add: cnt_def)
  from cs_stop show ?thesis using inv
    by (cases p) (auto simp: completion_announced_def thread_at_def stop_callback_def cnt_update cnt_map comp_def zero)
qed (use inv in \<open>auto simp: completion_announced_def call_outcomes thread_at_def cnt_update cnt_map comp_def
       channel_complete_writer_def nth_list_update cnt_zero split: list.split\<close>)

section \<open>The invariants of the system\<close>

definition cs_live :: "'a csys \<Rightarrow> bool" where
  "cs_live s \<longleftrightarrow>
     cs_basic s \<and> cnt stopped_blocked (cs_threads s) = 0 \<and> writers_served s \<and> completion_announced s"

lemma live_step: "cs_live s \<Longrightarrow> cstep s l t \<Longrightarrow> cs_live t"
  using basic_step stopped_blocked_step writers_step announced_step unfolding cs_live_def
  by (metis cs_basic_def)

lemma init_live: "cs_init capacity n s \<Longrightarrow> cs_live s \<and> readers_served s"
  by (simp add: cs_init_def cs_live_def readers_served_def writers_served_def completion_announced_def
      cs_basic_def waiters_exact_def cnt_replicate channel_make_def within_capacity_def)

interpretation live: inductive_invariant "cs_init capacity n" cstep "\<lambda>_. True" cs_live
  for capacity n
  by unfold_locales (auto dest: init_live intro: live_step)

interpretation served: inductive_invariant "cs_init capacity n" cstep no_wait_to_read
    "\<lambda>s. cs_live s \<and> readers_served s"
  for capacity n
proof unfold_locales
  fix s :: "'a csys" and l t
  assume "cs_live s \<and> readers_served s" "cstep s l t" "no_wait_to_read l"
  then show "cs_live t \<and> readers_served t"
    using live_step readers_step [of s l t] by (auto simp: cs_live_def cs_basic_def)
qed (rule init_live)

text \<open>A thread that is at rest: nothing it does by itself changes the state, short of a new call.\<close>

fun at_rest :: "'a thread \<Rightarrow> bool" where
  "at_rest (Idle, st) = True"
| "at_rest (Read_blocked k, st) = True"
| "at_rest (Write_blocked x, st) = True"
| "at_rest t = False"

lemma at_rest_counts:
  assumes "list_all at_rest ts"
  shows "cnt reader_coming ts = 0" "cnt writer_coming ts = 0" "cnt announces_readers ts = 0" "cnt announces_writers ts = 0"
  using assms by (auto simp: list_all_iff intro!: cnt_zero elim!: reader_coming.elims writer_coming.elims
      announces_readers.elims announces_writers.elims)

lemma blocked_at_rest:
  assumes live: "cs_live s" and rest: "list_all at_rest (cs_threads s)"
  shows "0 < cnt write_blocked (cs_threads s) \<Longrightarrow> full (cs_chan s) \<and> \<not> ch_writer_completed (cs_chan s)"
    and "0 < cnt read_blocked (cs_threads s) \<Longrightarrow> \<not> ch_writer_completed (cs_chan s)"
proof -
  have cap: "within_capacity (cs_chan s) (length (ch_queue (cs_chan s)))"
    using live by (simp add: cs_live_def cs_basic_def)
  show r: "0 < cnt read_blocked (cs_threads s) \<Longrightarrow> \<not> ch_writer_completed (cs_chan s)"
    using live at_rest_counts [OF rest] by (auto simp: cs_live_def completion_announced_def)
  assume wb: "0 < cnt write_blocked (cs_threads s)"
  then have "\<not> ch_writer_completed (cs_chan s)"
    using live at_rest_counts [OF rest] by (auto simp: cs_live_def completion_announced_def)
  with wb show "full (cs_chan s) \<and> \<not> ch_writer_completed (cs_chan s)"
    using live at_rest_counts [OF rest] full_iff [OF cap] by (auto simp: cs_live_def writers_served_def)
qed

section \<open>Properties\<close>

text \<open>C3: In every state that any number of threads can reach by any interleaving of pushes, reads, waits,
  completions, stop requests and spurious wake-ups, the messages accepted are the messages delivered
  followed by the queue: each message is delivered at most once, in order, and none is lost.  A bounded
  channel never exceeds its capacity, and the waiter counters are exact.\<close>

theorem channel_fifo_bounded:
  assumes "reach (cs_init capacity n) cstep (\<lambda>_. True) s"
  shows "cs_in s = cs_out s @ ch_queue (cs_chan s)
       \<and> within_capacity (cs_chan s) (length (ch_queue (cs_chan s)))
       \<and> unat (ch_read_waiters (cs_chan s)) = cnt in_read_wait (cs_threads s)
       \<and> unat (ch_write_waiters (cs_chan s)) = cnt in_write_wait (cs_threads s)"
  using basic.reach_inv [OF assms] by (simp add: cs_basic_def waiters_exact_def)

text \<open>Two threads on a channel of capacity one: a push, a second push that blocks.\<close>

definition demo_start :: "nat csys" where
  "demo_start = \<lparr>cs_chan = channel_make 1, cs_threads = [(Idle, False), (Idle, False)], cs_in = [], cs_out = []\<rparr>"

definition demo_blocked :: "nat csys" where
  "demo_blocked =
     \<lparr>cs_chan = (channel_make 1)\<lparr>ch_queue := [5], ch_write_waiters := 1\<rparr>,
      cs_threads = [(Write_blocked 6, False), (Idle, False)], cs_in = [5], cs_out = []\<rparr>"

lemma cstep_emplace_eq:
  "thread_at s i (Idle, st) \<Longrightarrow> t = after_emplace i x s (emplace st WAIT x (cs_chan s)) \<Longrightarrow> cstep s (C_emplace i x) t"
  by (simp add: cs_emplace)

lemma cstep_read_eq:
  "thread_at s i (Idle, st) \<Longrightarrow> t = after_read i s (read st WAIT (cs_chan s)) \<Longrightarrow> cstep s (C_read i) t"
  by (simp add: cs_read)

lemma demo_start_reach: "reach (cs_init 1 2) cstep allowed demo_start"
proof -
  have "replicate 2 t = [t, t]" for t :: "nat thread" by (simp add: numeral_2_eq_2)
  then show ?thesis by (intro reach_init) (simp add: cs_init_def demo_start_def)
qed

lemma demo_blocked_reach:
  assumes "\<And>i x. allowed (C_emplace i x)"
  shows "reach (cs_init 1 2) cstep allowed demo_blocked"
proof -
  let ?s = "demo_start\<lparr>cs_chan := (channel_make 1)\<lparr>ch_queue := [5]\<rparr>, cs_in := [5]\<rparr>"
  have "cstep demo_start (C_emplace 0 5) ?s"
    by (rule cstep_emplace_eq [where st = False])
      (simp_all add: thread_at_def demo_start_def call_outcomes channel_make_def full_def span_size_def)
  moreover have "cstep ?s (C_emplace 0 6) demo_blocked"
    by (rule cstep_emplace_eq [where st = False])
      (simp_all add: thread_at_def demo_start_def demo_blocked_def call_outcomes channel_make_def full_def span_size_def)
  ultimately show ?thesis using demo_start_reach [of allowed] assms by (blast intro: reach_step)
qed

lemma channel_fifo_bounded_witness:
  "cs_in demo_blocked = cs_out demo_blocked @ ch_queue (cs_chan demo_blocked)
   \<and> within_capacity (cs_chan demo_blocked) (length (ch_queue (cs_chan demo_blocked)))
   \<and> unat (ch_write_waiters (cs_chan demo_blocked)) = cnt in_write_wait (cs_threads demo_blocked)"
  using channel_fifo_bounded [OF demo_blocked_reach] by simp

text \<open>C7: No wake-up of a writer is lost, and completion reaches everyone: whenever every thread is idle or
  blocked, a blocked writer means that the channel is full and open, and a blocked reader means that the
  channel is open.\<close>

theorem writers_never_stranded:
  assumes "reach (cs_init capacity n) cstep (\<lambda>_. True) s" and "list_all at_rest (cs_threads s)"
  shows "((\<exists>x st. (Write_blocked x, st) \<in> set (cs_threads s)) \<longrightarrow>
            full (cs_chan s) \<and> \<not> ch_writer_completed (cs_chan s))
       \<and> ((\<exists>k st. (Read_blocked k, st) \<in> set (cs_threads s)) \<longrightarrow> \<not> ch_writer_completed (cs_chan s))"
proof (intro conjI impI)
  assume "\<exists>x st. (Write_blocked x, st) \<in> set (cs_threads s)"
  then have "0 < cnt write_blocked (cs_threads s)" by (auto simp: cnt_member intro!: bexI)
  then show "full (cs_chan s)" "\<not> ch_writer_completed (cs_chan s)"
    using blocked_at_rest(1) [OF live.reach_inv [OF assms(1)] assms(2)] by auto
next
  assume "\<exists>k st. (Read_blocked k, st) \<in> set (cs_threads s)"
  then have "0 < cnt read_blocked (cs_threads s)" by (auto simp: cnt_member intro!: bexI)
  then show "\<not> ch_writer_completed (cs_chan s)"
    using blocked_at_rest(2) [OF live.reach_inv [OF assms(1)] assms(2)] by auto
qed

lemma writers_never_stranded_witness:
  "(Write_blocked 6, False) \<in> set (cs_threads demo_blocked) \<and> full (cs_chan demo_blocked)"
  using writers_never_stranded [OF demo_blocked_reach] by (auto simp: demo_blocked_def)

text \<open>C8: No wake-up of a reader is lost when readers use \<open>read\<close>, \<open>try_read\<close> and \<open>read_all\<close>: whenever every thread
  is idle or blocked, a blocked reader means that the channel is empty and open.  Stop requests and
  spurious wake-ups are included.\<close>

theorem readers_never_stranded:
  assumes "reach (cs_init capacity n) cstep no_wait_to_read s" and "list_all at_rest (cs_threads s)"
    and "(Read_blocked k, st) \<in> set (cs_threads s)"
  shows "ch_queue (cs_chan s) = [] \<and> \<not> ch_writer_completed (cs_chan s)"
proof -
  have inv: "cs_live s" "readers_served s" using served.reach_inv [OF assms(1)] by auto
  have "0 < cnt read_blocked (cs_threads s)" using assms(3) by (auto simp: cnt_member intro!: bexI)
  moreover from this have "\<not> ch_writer_completed (cs_chan s)" using blocked_at_rest(2) [OF inv(1) assms(2)] by auto
  ultimately show ?thesis
    using inv(2) at_rest_counts(1) [OF assms(2)] by (auto simp: readers_served_def)
qed

definition demo_reader :: "nat csys" where
  "demo_reader =
     \<lparr>cs_chan = (channel_make 1)\<lparr>ch_read_waiters := 1\<rparr>,
      cs_threads = [(Idle, False), (Read_blocked Read, False)], cs_in = [], cs_out = []\<rparr>"

lemma readers_never_stranded_witness:
  "list_all at_rest (cs_threads demo_reader) \<and> (Read_blocked Read, False) \<in> set (cs_threads demo_reader)
   \<and> ch_queue (cs_chan demo_reader) = [] \<and> \<not> ch_writer_completed (cs_chan demo_reader)"
proof -
  have "cstep demo_start (C_read 1) demo_reader"
    by (rule cstep_read_eq [where st = False])
      (simp_all add: thread_at_def demo_start_def demo_reader_def call_outcomes channel_make_def)
  then have "reach (cs_init 1 2) cstep no_wait_to_read demo_reader"
    using demo_start_reach [of no_wait_to_read] by (auto intro: reach_step simp: no_wait_to_read_def)
  moreover have "list_all at_rest (cs_threads demo_reader)" "(Read_blocked Read, False) \<in> set (cs_threads demo_reader)"
    by (simp_all add: demo_reader_def)
  ultimately show ?thesis using readers_never_stranded by blast
qed

text \<open>C36: A thread in \<open>wait_to_read\<close> can take the only notification and return without reading: then a reader
  stays blocked although a message is in the queue and every other thread is idle.\<close>

theorem wait_to_read_strands_reader:
  "\<exists>s :: nat csys. reach (cs_init 0 3) cstep (\<lambda>_. True) s \<and> list_all at_rest (cs_threads s)
     \<and> (Read_blocked Read, False) \<in> set (cs_threads s) \<and> ch_queue (cs_chan s) = [7]
     \<and> \<not> ch_writer_completed (cs_chan s)"
proof -
  define s0 :: "nat csys" where "s0 = \<lparr>cs_chan = channel_make 0,
      cs_threads = [(Idle, False), (Idle, False), (Idle, False)], cs_in = [], cs_out = []\<rparr>"
  define s1 where "s1 = s0\<lparr>cs_chan := (channel_make 0)\<lparr>ch_read_waiters := 1\<rparr>,
      cs_threads := [(Read_blocked Wait_to_read, False), (Idle, False), (Idle, False)]\<rparr>"
  define s2 where "s2 = s0\<lparr>cs_chan := (channel_make 0)\<lparr>ch_read_waiters := 2\<rparr>,
      cs_threads := [(Read_blocked Wait_to_read, False), (Read_blocked Read, False), (Idle, False)]\<rparr>"
  define s3 where "s3 = s0\<lparr>cs_chan := (channel_make 0)\<lparr>ch_read_waiters := 2, ch_queue := [7]\<rparr>, cs_in := [7],
      cs_threads := [(Read_blocked Wait_to_read, False), (Read_blocked Read, False), (Notify_reader, False)]\<rparr>"
  define s4 where "s4 = s3\<lparr>cs_threads := [(Read_woken Wait_to_read, False), (Read_blocked Read, False), (Idle, False)]\<rparr>"
  define s5 where "s5 = s3\<lparr>cs_chan := (channel_make 0)\<lparr>ch_read_waiters := 1, ch_queue := [7]\<rparr>,
      cs_threads := [(Idle, False), (Read_blocked Read, False), (Idle, False)]\<rparr>"
  have 0: "reach (cs_init 0 3) cstep (\<lambda>_. True) s0"
    by (intro reach_init) (simp add: cs_init_def s0_def numeral_3_eq_3)
  have 1: "cstep s0 (C_wait_to_read 0) s1"
    using cs_wait_to_read [of s0 0 False] by (simp add: thread_at_def s0_def s1_def call_outcomes channel_make_def)
  have 2: "cstep s1 (C_read 1) s2"
    by (rule cstep_read_eq [where st = False])
      (simp_all add: thread_at_def s0_def s1_def s2_def call_outcomes channel_make_def)
  have 3: "cstep s2 (C_emplace 2 7) s3"
    by (rule cstep_emplace_eq [where st = False])
      (simp_all add: thread_at_def s0_def s2_def s3_def call_outcomes channel_make_def full_def)
  have 4: "cstep s3 (C_notify_one 2 (Some 0)) s4"
    using cs_notify_reader [of s3 2 False 0 Wait_to_read False] by (simp add: thread_at_def s0_def s3_def s4_def)
  have 5: "cstep s4 (C_resume 0) s5"
    using cs_resume_wait [of s4 0 False]
    by (simp add: thread_at_def s0_def s3_def s4_def s5_def call_outcomes channel_make_def)
  have "reach (cs_init 0 3) cstep (\<lambda>_. True) s5"
    using reach_run [OF _ 0] 1 2 3 4 5 by (fastforce intro: run.intros)
  moreover have "list_all at_rest (cs_threads s5) \<and> (Read_blocked Read, False) \<in> set (cs_threads s5)
      \<and> ch_queue (cs_chan s5) = [7] \<and> \<not> ch_writer_completed (cs_chan s5)"
    by (simp add: s5_def s3_def s0_def channel_make_def)
  ultimately show ?thesis by blast
qed

end
