(* ===== verification/Cache.thy ===== *)
theory Cache
  imports Xtd_Prelude
begin

text \<open>
  \<open>cache/concurrent_cache.h\<close>: the sharded cache with expiring entries.  Times are nanosecond counts of
  the configured clock, signed 64-bit integers written as \<open>int\<close> with the range check spelled out; an
  addition out of range is undefined behaviour and gives \<open>None\<close>.  The time of each \<open>clock_t::now()\<close> is an
  argument.  An unordered map is an association list with distinct keys, whose order is not used.  The
  hash function is a parameter of the cache, as it is a template argument of the class.

  Operations that lock a shard twice (\<open>get\<close>, \<open>get_or_create\<close>) are split into their critical sections; the
  sequential composition of the sections is the operation without interference, and theory
  \<open>Cache_System\<close> interleaves them.

  The locale \<open>expiring_map\<close> is the contract towards a client: a finite map whose entries disappear when
  their time has come.
\<close>

section \<open>Entries and options\<close>

definition min_time :: int where "min_time = - (2 ^ 63)"
definition max_time :: int where "max_time = 2 ^ 63 - 1"

text \<open>\<open>cache_entry_opts\<close>: the constructor asserts the range of the time to live.\<close>

definition max_supported_ttl :: int where
  "max_supported_ttl = 24 * 365 * 292 * 3600 * 1000000000"

definition cache_entry_opts :: "int \<Rightarrow> int option" where
  "cache_entry_opts ttl = (if 0 \<le> ttl \<and> ttl \<le> max_supported_ttl then Some ttl else None)"

definition default_entry_opts :: int where
  "default_entry_opts = 0"

definition no_expiration_time :: int where
  "no_expiration_time = min_time"

record 'v entry =
  e_value :: 'v
  e_expires_at :: int

definition expired :: "int \<Rightarrow> 'v entry \<Rightarrow> bool" where
  "expired now e \<longleftrightarrow> e_expires_at e \<noteq> no_expiration_time \<and> now \<ge> e_expires_at e"

definition expiration_time :: "int \<Rightarrow> int \<Rightarrow> int option" where
  "expiration_time now ttl =
     (if ttl = 0 then Some no_expiration_time
      else if now + ttl \<le> max_time then Some (now + ttl) else None)"

section \<open>Shards\<close>

record ('k, 'v) shard =
  sh_values :: "('k \<times> 'v entry) list"
  sh_in_flight :: "('k \<times> nat) list"

record ('k, 'v) cache =
  c_hash :: "'k \<Rightarrow> size_t"
  c_shards :: "('k, 'v) shard list"

definition cache_make :: "size_t \<Rightarrow> ('k \<Rightarrow> size_t) \<Rightarrow> ('k, 'v) cache option" where
  "cache_make shard_count hash =
     (if shard_count > 0
      then Some \<lparr>c_hash = hash, c_shards = replicate (unat shard_count) \<lparr>sh_values = [], sh_in_flight = []\<rparr>\<rparr>
      else None)"

definition shard_index :: "'k \<Rightarrow> ('k, 'v) cache \<Rightarrow> nat" where
  "shard_index k c = unat (c_hash c k mod span_size (c_shards c))"

definition shard_for :: "'k \<Rightarrow> ('k, 'v) cache \<Rightarrow> ('k, 'v) shard" where
  "shard_for k c = c_shards c ! shard_index k c"

definition put_shard :: "'k \<Rightarrow> ('k, 'v) shard \<Rightarrow> ('k, 'v) cache \<Rightarrow> ('k, 'v) cache" where
  "put_shard k sh c = c\<lparr>c_shards := (c_shards c)[shard_index k c := sh]\<rparr>"

text \<open>The map operations the code uses: \<open>find\<close> is \<open>map_of\<close>; \<open>erase\<close> and \<open>extract\<close>; \<open>try_emplace\<close> followed by
  \<open>exchange\<close> when the key was there.\<close>

definition map_erase :: "'k \<Rightarrow> ('k \<times> 'b) list \<Rightarrow> ('k \<times> 'b) list" where
  "map_erase k xs = filter (\<lambda>p. fst p \<noteq> k) xs"

fun map_put :: "'k \<Rightarrow> 'b \<Rightarrow> ('k \<times> 'b) list \<Rightarrow> ('k \<times> 'b) list" where
  "map_put k v [] = [(k, v)]"
| "map_put k v (p # xs) = (if fst p = k then (k, v) # xs else p # map_put k v xs)"

section \<open>Lookup\<close>

datatype lookup_status = lookup_missing | lookup_expired | lookup_found

definition internal_fast_get :: "int \<Rightarrow> 'k \<Rightarrow> ('k, 'v) shard \<Rightarrow> lookup_status \<times> 'v option" where
  "internal_fast_get now k sh =
     (case map_of (sh_values sh) k of
        None \<Rightarrow> (lookup_missing, None)
      | Some e \<Rightarrow> if expired now e then (lookup_expired, None) else (lookup_found, Some (e_value e)))"

text \<open>The second critical section of \<open>get\<close>, entered when the first one saw an expired entry.\<close>

definition get_remove :: "int \<Rightarrow> 'k \<Rightarrow> ('k, 'v) shard \<Rightarrow> ('k, 'v) shard" where
  "get_remove now k sh =
     (case map_of (sh_values sh) k of
        Some e \<Rightarrow> if \<not> expired now e then sh\<lparr>sh_values := map_erase k (sh_values sh)\<rparr> else sh
      | None \<Rightarrow> sh)"

definition get :: "int \<Rightarrow> int \<Rightarrow> 'k \<Rightarrow> ('k, 'v) cache \<Rightarrow> 'v option \<times> ('k, 'v) cache" where
  "get now1 now2 k c =
     (case internal_fast_get now1 k (shard_for k c) of
        (lookup_found, v) \<Rightarrow> (v, c)
      | (lookup_expired, v) \<Rightarrow> (None, put_shard k (get_remove now2 k (shard_for k c)) c)
      | (lookup_missing, v) \<Rightarrow> (None, c))"

definition contains :: "int \<Rightarrow> 'k \<Rightarrow> ('k, 'v) cache \<Rightarrow> bool" where
  "contains now k c =
     (case map_of (sh_values (shard_for k c)) k of None \<Rightarrow> False | Some e \<Rightarrow> \<not> expired now e)"

section \<open>Updates\<close>

definition insert_or_assign ::
  "int \<Rightarrow> 'k \<Rightarrow> int \<Rightarrow> 'v \<Rightarrow> ('k, 'v) cache \<Rightarrow> ('v \<times> ('k, 'v) cache) option"
where
  "insert_or_assign now k ttl v c =
     (case expiration_time now ttl of
        None \<Rightarrow> None
      | Some t \<Rightarrow>
          (let sh = shard_for k c; new_entry = \<lparr>e_value = v, e_expires_at = t\<rparr>
           in Some (v, put_shard k (sh\<lparr>sh_values := map_put k new_entry (sh_values sh)\<rparr>) c)))"

definition insert_or_assign_default :: "int \<Rightarrow> 'k \<Rightarrow> 'v \<Rightarrow> ('k, 'v) cache \<Rightarrow> ('v \<times> ('k, 'v) cache) option" where
  "insert_or_assign_default now k v c = insert_or_assign now k default_entry_opts v c"

definition erase :: "'k \<Rightarrow> ('k, 'v) cache \<Rightarrow> bool \<times> ('k, 'v) cache" where
  "erase k c =
     (let sh = shard_for k c in
      case map_of (sh_values sh) k of
        None \<Rightarrow> (False, c)
      | Some e \<Rightarrow> (True, put_shard k (sh\<lparr>sh_values := map_erase k (sh_values sh)\<rparr>) c))"

section \<open>Scans\<close>

text \<open>\<open>purge_expired\<close> locks one shard after the other; \<open>purge_shard\<close> is one critical section.\<close>

definition purge_shard :: "int \<Rightarrow> ('k, 'v) shard \<Rightarrow> nat \<times> ('k, 'v) shard" where
  "purge_shard now sh =
     (length (filter (\<lambda>p. expired now (snd p)) (sh_values sh)),
      sh\<lparr>sh_values := filter (\<lambda>p. \<not> expired now (snd p)) (sh_values sh)\<rparr>)"

fun purge_loop :: "int \<Rightarrow> ('k, 'v) shard list \<Rightarrow> size_t \<Rightarrow> size_t \<times> ('k, 'v) shard list" where
  "purge_loop now [] result = (result, [])"
| "purge_loop now (sh # rest) result =
     (case purge_shard now sh of (n, sh') \<Rightarrow>
        (case purge_loop now rest (result + of_nat n) of (r, rest') \<Rightarrow> (r, sh' # rest')))"

definition purge_expired :: "int \<Rightarrow> ('k, 'v) cache \<Rightarrow> size_t \<times> ('k, 'v) cache" where
  "purge_expired now c =
     (case purge_loop now (c_shards c) 0 of (r, shards) \<Rightarrow> (r, c\<lparr>c_shards := shards\<rparr>))"

fun size_shard :: "int \<Rightarrow> ('k \<times> 'v entry) list \<Rightarrow> size_t \<Rightarrow> size_t" where
  "size_shard now [] result = result"
| "size_shard now (p # ps) result = size_shard now ps (if \<not> expired now (snd p) then result + 1 else result)"

definition cache_size :: "int \<Rightarrow> ('k, 'v) cache \<Rightarrow> size_t" where
  "cache_size now c = fold (\<lambda>sh result. size_shard now (sh_values sh) result) (c_shards c) 0"

fun empty_loop :: "int \<Rightarrow> ('k, 'v) shard list \<Rightarrow> bool" where
  "empty_loop now [] = True"
| "empty_loop now (sh # rest) =
     (if list_ex (\<lambda>p. \<not> expired now (snd p)) (sh_values sh) then False else empty_loop now rest)"

definition cache_empty :: "int \<Rightarrow> ('k, 'v) cache \<Rightarrow> bool" where
  "cache_empty now c = empty_loop now (c_shards c)"

section \<open>Creating values on demand\<close>

text \<open>
  The critical sections of \<open>get_or_create\<close>.  A factory state is a number; \<open>fresh\<close> is the one that
  \<open>make_shared\<close> would return.
\<close>

datatype 'v registration = Reg_found 'v | Reg_wait nat | Reg_own

definition register_factory ::
  "int \<Rightarrow> nat \<Rightarrow> 'k \<Rightarrow> ('k, 'v) shard \<Rightarrow> 'v registration \<times> ('k, 'v) shard"
where
  "register_factory now fresh k sh =
     (case map_of (sh_values sh) k of
        Some e \<Rightarrow>
          if \<not> expired now e then (Reg_found (e_value e), sh)
          else (case map_of (sh_in_flight sh) k of
                  Some existing \<Rightarrow> (Reg_wait existing, sh)
                | None \<Rightarrow> (Reg_own, sh\<lparr>sh_in_flight := (k, fresh) # sh_in_flight sh\<rparr>))
      | None \<Rightarrow>
          (case map_of (sh_in_flight sh) k of
             Some existing \<Rightarrow> (Reg_wait existing, sh)
           | None \<Rightarrow> (Reg_own, sh\<lparr>sh_in_flight := (k, fresh) # sh_in_flight sh\<rparr>)))"

definition publish :: "int \<Rightarrow> 'k \<Rightarrow> 'v entry \<Rightarrow> ('k, 'v) shard \<Rightarrow> 'v \<times> ('k, 'v) shard" where
  "publish now k new_entry sh =
     (case (case map_of (sh_values sh) k of
              Some e \<Rightarrow>
                if \<not> expired now e then (e_value e, sh_values sh)
                else (e_value new_entry, map_put k new_entry (sh_values sh))
            | None \<Rightarrow> (e_value new_entry, map_put k new_entry (sh_values sh))) of
        (published, values') \<Rightarrow>
          (published, sh\<lparr>sh_values := values', sh_in_flight := map_erase k (sh_in_flight sh)\<rparr>))"

definition remove_in_flight :: "'k \<Rightarrow> nat \<Rightarrow> ('k, 'v) shard \<Rightarrow> ('k, 'v) shard" where
  "remove_in_flight k expected_state sh =
     (case map_of (sh_in_flight sh) k of
        Some st \<Rightarrow> if st = expected_state then sh\<lparr>sh_in_flight := map_erase k (sh_in_flight sh)\<rparr> else sh
      | None \<Rightarrow> sh)"

text \<open>
  \<open>get_or_create\<close> without interference, with the times of its four clock readings.  The factory throws
  or returns a value.  \<open>Inr None\<close> is a call that waits on a factory that is in flight.
\<close>

definition get_or_create ::
  "int \<Rightarrow> int \<Rightarrow> int \<Rightarrow> int \<Rightarrow> nat \<Rightarrow> 'k \<Rightarrow> int \<Rightarrow> ('k \<Rightarrow> string + 'v) \<Rightarrow> ('k, 'v) cache \<Rightarrow>
     ((string + 'v option) \<times> ('k, 'v) cache) option"
where
  "get_or_create now1 now2 now3 now4 fresh k ttl factory c =
     (case internal_fast_get now1 k (shard_for k c) of
        (lookup_found, v) \<Rightarrow> Some (Inr v, c)
      | _ \<Rightarrow>
          (case register_factory now2 fresh k (shard_for k c) of
             (Reg_found v, _) \<Rightarrow> Some (Inr (Some v), c)
           | (Reg_wait st, _) \<Rightarrow> Some (Inr None, c)
           | (Reg_own, sh1) \<Rightarrow>
               (case factory k of
                  Inl err \<Rightarrow> Some (Inl err, put_shard k (remove_in_flight k fresh sh1) c)
                | Inr v \<Rightarrow>
                    (case expiration_time now3 ttl of
                       None \<Rightarrow> None
                     | Some t \<Rightarrow>
                         (case publish now4 k \<lparr>e_value = v, e_expires_at = t\<rparr> sh1 of
                            (published, sh2) \<Rightarrow> Some (Inr (Some published), put_shard k sh2 c))))))"

definition get_or_create_default ::
  "int \<Rightarrow> int \<Rightarrow> int \<Rightarrow> int \<Rightarrow> nat \<Rightarrow> 'k \<Rightarrow> ('k \<Rightarrow> string + 'v) \<Rightarrow> ('k, 'v) cache \<Rightarrow>
     ((string + 'v option) \<times> ('k, 'v) cache) option"
where
  "get_or_create_default now1 now2 now3 now4 fresh k factory c =
     get_or_create now1 now2 now3 now4 fresh k default_entry_opts factory c"

section \<open>Association lists\<close>

lemma map_of_map_put [simp]: "map_of (map_put k v xs) = (map_of xs)(k \<mapsto> v)"
  by (induction xs) auto

lemma map_of_map_erase [simp]: "map_of (map_erase k xs) = (map_of xs)(k := None)"
  by (induction xs) (auto simp: map_erase_def)

lemma keys_map_put: "fst ` set (map_put k v xs) = insert k (fst ` set xs)"
  by (induction xs) auto

lemma distinct_map_put: "distinct (map fst xs) \<Longrightarrow> distinct (map fst (map_put k v xs))"
proof (induction xs)
  case (Cons p xs)
  then show ?case using keys_map_put [of k v xs] by auto
qed simp

lemma keys_map_erase: "fst ` set (map_erase k xs) = fst ` set xs - {k}"
  by (auto simp: map_erase_def)

lemma distinct_filter_keys: "distinct (map fst xs) \<Longrightarrow> distinct (map fst (filter P xs))"
  by (induction xs) auto

section \<open>Well-formed caches and their contents\<close>

definition shard_ok :: "('k \<Rightarrow> nat) \<Rightarrow> nat \<Rightarrow> ('k, 'v) shard \<Rightarrow> bool" where
  "shard_ok index i sh \<longleftrightarrow>
     distinct (map fst (sh_values sh)) \<and> (\<forall>k \<in> fst ` set (sh_values sh). index k = i)"

definition cache_ok :: "('k, 'v) cache \<Rightarrow> bool" where
  "cache_ok c \<longleftrightarrow>
     c_shards c \<noteq> [] \<and> length (c_shards c) < 2 ^ 64
     \<and> (\<forall>i < length (c_shards c). shard_ok (\<lambda>k. shard_index k c) i (c_shards c ! i))"

definition entries :: "('k, 'v) cache \<Rightarrow> 'k \<Rightarrow> 'v entry option" where
  "entries c k = map_of (sh_values (shard_for k c)) k"

text \<open>The value a lookup at time \<open>now\<close> may return.\<close>

fun live :: "int \<Rightarrow> 'v entry option \<Rightarrow> 'v option" where
  "live now None = None"
| "live now (Some e) = (if expired now e then None else Some (e_value e))"

lemma live_Some_iff: "live now x = Some v \<longleftrightarrow> (\<exists>e. x = Some e \<and> \<not> expired now e \<and> e_value e = v)"
  by (cases x) auto

lemma live_None_iff: "live now x = None \<longleftrightarrow> (\<forall>e. x = Some e \<longrightarrow> expired now e)"
  by (cases x) auto

lemma shard_index_less: "cache_ok c \<Longrightarrow> shard_index k c < length (c_shards c)"
proof -
  assume ok: "cache_ok c"
  then have "unat (span_size (c_shards c)) = length (c_shards c)" "0 < length (c_shards c)"
    by (auto simp: cache_ok_def unat_span_size)
  then show ?thesis by (simp add: shard_index_def unat_mod)
qed

lemma put_shard_simps [simp]:
  "c_hash (put_shard k sh c) = c_hash c" "length (c_shards (put_shard k sh c)) = length (c_shards c)"
  "shard_index k' (put_shard k sh c) = shard_index k' c"
  by (simp_all add: put_shard_def shard_index_def span_size_def)

lemma shard_for_put:
  "cache_ok c \<Longrightarrow> shard_for k' (put_shard k sh c) = (if shard_index k' c = shard_index k c then sh else shard_for k' c)"
  using shard_index_less [of c k] by (simp add: shard_for_def) (simp add: put_shard_def nth_list_update)

lemma shard_for_ok: "cache_ok c \<Longrightarrow> shard_ok (\<lambda>k'. shard_index k' c) (shard_index k c) (shard_for k c)"
  using shard_index_less [of c k] by (simp add: cache_ok_def shard_for_def)

lemma put_shard_ok:
  assumes "cache_ok c" and "shard_ok (\<lambda>k'. shard_index k' c) (shard_index k c) sh"
  shows "cache_ok (put_shard k sh c)"
  using assms shard_index_less [OF assms(1), of k]
  by (auto simp: cache_ok_def) (auto simp: put_shard_def nth_list_update)

lemma entries_put_shard:
  assumes "cache_ok c" and "\<And>k'. shard_index k' c = shard_index k c \<Longrightarrow> map_of (sh_values sh) k' = m k'"
    and "\<And>k'. shard_index k' c \<noteq> shard_index k c \<Longrightarrow> entries c k' = m k'"
  shows "entries (put_shard k sh c) = m"
  using assms by (auto simp: entries_def shard_for_put fun_eq_iff)

lemma same_shard: "shard_index k' c = shard_index k c \<Longrightarrow> shard_for k' c = shard_for k c"
  by (simp add: shard_for_def)

definition cache_put :: "'k \<Rightarrow> 'v entry \<Rightarrow> ('k, 'v) cache \<Rightarrow> ('k, 'v) cache" where
  "cache_put k e c = put_shard k ((shard_for k c)\<lparr>sh_values := map_put k e (sh_values (shard_for k c))\<rparr>) c"

lemma cache_put_ok:
  assumes "cache_ok c"
  shows "cache_ok (cache_put k e c)" and "entries (cache_put k e c) = (entries c)(k \<mapsto> e)"
proof -
  have "shard_ok (\<lambda>k'. shard_index k' c) (shard_index k c)
      ((shard_for k c)\<lparr>sh_values := map_put k e (sh_values (shard_for k c))\<rparr>)"
    using shard_for_ok [OF assms, of k] by (simp add: shard_ok_def distinct_map_put keys_map_put)
  then show "cache_ok (cache_put k e c)" unfolding cache_put_def by (rule put_shard_ok [OF assms])
  show "entries (cache_put k e c) = (entries c)(k \<mapsto> e)"
    unfolding cache_put_def
    by (rule entries_put_shard [OF assms]) (auto simp: entries_def dest: same_shard)
qed

lemma insert_or_assign_eq:
  "insert_or_assign now k ttl v c =
     map_option (\<lambda>t. (v, cache_put k \<lparr>e_value = v, e_expires_at = t\<rparr> c)) (expiration_time now ttl)"
  by (simp add: insert_or_assign_def cache_put_def Let_def split: option.split)

lemma erase_ok:
  assumes "cache_ok c"
  shows "cache_ok (snd (erase k c))" and "entries (snd (erase k c)) = (entries c)(k := None)"
    and "fst (erase k c) = (entries c k \<noteq> None)"
proof -
  let ?sh = "(shard_for k c)\<lparr>sh_values := map_erase k (sh_values (shard_for k c))\<rparr>"
  have "shard_ok (\<lambda>k'. shard_index k' c) (shard_index k c) ?sh"
    using shard_for_ok [OF assms, of k] by (auto simp: shard_ok_def map_erase_def distinct_filter_keys)
  then have ok: "cache_ok (put_shard k ?sh c)" by (rule put_shard_ok [OF assms])
  have e: "entries (put_shard k ?sh c) = (entries c)(k := None)"
    by (rule entries_put_shard [OF assms]) (auto simp: entries_def dest: same_shard)
  show "cache_ok (snd (erase k c))" "fst (erase k c) = (entries c k \<noteq> None)"
    using assms ok by (auto simp: erase_def entries_def Let_def split: option.split)
  show "entries (snd (erase k c)) = (entries c)(k := None)"
    using e by (auto simp: erase_def Let_def entries_def fun_eq_iff split: option.split)
qed

lemma put_shard_self: "cache_ok c \<Longrightarrow> put_shard k (shard_for k c) c = c"
  by (simp add: put_shard_def shard_for_def)

lemma get_unchanged:
  assumes "cache_ok c" and "now1 \<le> now2"
  shows "get now1 now2 k c = (live now1 (entries c k), c)"
  using assms put_shard_self [of c k]
  by (auto simp: get_def internal_fast_get_def entries_def get_remove_def expired_def split: option.splits if_splits)

lemma contains_eq: "contains now k c \<longleftrightarrow> live now (entries c k) \<noteq> None"
  by (auto simp: contains_def entries_def split: option.splits)

lemma cache_make_ok:
  assumes "cache_make n h = Some c"
  shows "cache_ok c" and "entries c = (\<lambda>_. None)"
proof -
  have n: "0 < unat n" and c: "c = \<lparr>c_hash = h, c_shards = replicate (unat n) \<lparr>sh_values = [], sh_in_flight = []\<rparr>\<rparr>"
    using assms by (auto simp: cache_make_def unat_gt_0 word_neq_0_conv split: if_splits)
  show ok: "cache_ok c"
    using n unat_size_bound [of n] by (simp add: c cache_ok_def shard_ok_def)
  show "entries c = (\<lambda>_. None)"
    using shard_index_less [OF ok] by (simp add: entries_def shard_for_def fun_eq_iff) (simp add: c)
qed

section \<open>The contract of an expiring map\<close>

text \<open>An operation with its clock reading; a lookup records what it returned.\<close>

datatype ('k, 'v) map_op = Op_insert int 'k int 'v | Op_erase 'k | Op_lookup int 'k

fun map_run ::
  "(int \<Rightarrow> 'k \<Rightarrow> int \<Rightarrow> 'v \<Rightarrow> 'c \<Rightarrow> 'c) \<Rightarrow> ('k \<Rightarrow> 'c \<Rightarrow> 'c) \<Rightarrow> (int \<Rightarrow> 'k \<Rightarrow> 'c \<Rightarrow> 'v option \<times> 'c) \<Rightarrow>
     ('k, 'v) map_op list \<Rightarrow> 'c \<Rightarrow> 'v option list \<times> 'c"
where
  "map_run ins del look [] c = ([], c)"
| "map_run ins del look (Op_insert now k ttl v # ops) c = map_run ins del look ops (ins now k ttl v c)"
| "map_run ins del look (Op_erase k # ops) c = map_run ins del look ops (del k c)"
| "map_run ins del look (Op_lookup now k # ops) c =
     (case look now k c of (r, c') \<Rightarrow>
        (case map_run ins del look ops c' of (rs, c'') \<Rightarrow> (r # rs, c'')))"

text \<open>The specification: a map from keys to values with their time of expiry.\<close>

definition spec_insert :: "int \<Rightarrow> 'k \<Rightarrow> int \<Rightarrow> 'v \<Rightarrow> ('k \<rightharpoonup> 'v entry) \<Rightarrow> ('k \<rightharpoonup> 'v entry)" where
  "spec_insert now k ttl v m =
     (case expiration_time now ttl of None \<Rightarrow> m | Some t \<Rightarrow> m(k \<mapsto> \<lparr>e_value = v, e_expires_at = t\<rparr>))"

definition spec_erase :: "'k \<Rightarrow> ('k \<rightharpoonup> 'v entry) \<Rightarrow> ('k \<rightharpoonup> 'v entry)" where
  "spec_erase k m = m(k := None)"

definition spec_lookup :: "int \<Rightarrow> 'k \<Rightarrow> ('k \<rightharpoonup> 'v entry) \<Rightarrow> 'v option \<times> ('k \<rightharpoonup> 'v entry)" where
  "spec_lookup now k m = (live now (m k), m)"

locale expiring_map =
  fixes ok :: "'c \<Rightarrow> bool"
    and contents :: "'c \<Rightarrow> 'k \<rightharpoonup> 'v entry"
    and ins :: "int \<Rightarrow> 'k \<Rightarrow> int \<Rightarrow> 'v \<Rightarrow> 'c \<Rightarrow> 'c"
    and del :: "'k \<Rightarrow> 'c \<Rightarrow> 'c"
    and look :: "int \<Rightarrow> 'k \<Rightarrow> 'c \<Rightarrow> 'v option \<times> 'c"
  assumes ins_refines: "ok c \<Longrightarrow> ok (ins now k ttl v c) \<and> contents (ins now k ttl v c) = spec_insert now k ttl v (contents c)"
    and del_refines: "ok c \<Longrightarrow> ok (del k c) \<and> contents (del k c) = spec_erase k (contents c)"
    and look_refines: "ok c \<Longrightarrow> ok (snd (look now k c)) \<and> contents (snd (look now k c)) = contents c
        \<and> fst (look now k c) = live now (contents c k)"
begin

lemma map_run_refines:
  assumes "ok c" and "map_run ins del look ops c = (rs, c')"
  shows "map_run spec_insert spec_erase spec_lookup ops (contents c) = (rs, contents c') \<and> ok c'"
  using assms
proof (induction ops arbitrary: c rs)
  case (Cons op ops)
  show ?case
  proof (cases op)
    case (Op_lookup now k)
    obtain rs' where rs': "map_run ins del look ops (snd (look now k c)) = (rs', c')" "rs = fst (look now k c) # rs'"
      using Cons.prems(2) Op_lookup by (auto split: prod.splits)
    with Cons.IH [OF _ rs'(1)] look_refines [OF Cons.prems(1), of now k] Op_lookup show ?thesis
      by (simp add: spec_lookup_def)
  next
    case (Op_insert now k ttl v)
    with Cons.IH [of "ins now k ttl v c" rs] Cons.prems ins_refines [OF Cons.prems(1), of now k ttl v]
    show ?thesis by simp
  next
    case (Op_erase k)
    with Cons.IH [of "del k c" rs] Cons.prems del_refines [OF Cons.prems(1), of k] show ?thesis by simp
  qed
qed simp

end

definition cache_insert :: "int \<Rightarrow> 'k \<Rightarrow> int \<Rightarrow> 'v \<Rightarrow> ('k, 'v) cache \<Rightarrow> ('k, 'v) cache" where
  "cache_insert now k ttl v c = (case insert_or_assign now k ttl v c of None \<Rightarrow> c | Some (_, c') \<Rightarrow> c')"

interpretation cache: expiring_map cache_ok entries cache_insert "\<lambda>k c. snd (erase k c)" "\<lambda>now k c. get now now k c"
proof unfold_locales
  fix c :: "('k, 'v) cache" and now k ttl v
  assume "cache_ok c"
  then show "cache_ok (cache_insert now k ttl v c)
      \<and> entries (cache_insert now k ttl v c) = spec_insert now k ttl v (entries c)"
    by (simp add: cache_insert_def insert_or_assign_eq spec_insert_def cache_put_ok split: option.split)
qed (simp_all add: erase_ok spec_erase_def get_unchanged)

section \<open>Properties\<close>


definition demo_cache :: "(nat, nat) cache" where
  "demo_cache = \<lparr>c_hash = of_nat, c_shards = [\<lparr>sh_values = [], sh_in_flight = []\<rparr>, \<lparr>sh_values = [], sh_in_flight = []\<rparr>]\<rparr>"

lemma demo_cache_make: "cache_make 2 of_nat = Some demo_cache"
proof -
  have "unat (2 :: size_t) = Suc (Suc 0)" by simp
  then have "replicate (unat (2 :: size_t)) sh = [sh, sh]" for sh :: "(nat, nat) shard"
    by (simp only: replicate_Suc replicate_0)
  then show ?thesis by (simp add: cache_make_def demo_cache_def)
qed

definition demo_ops :: "(nat, nat) map_op list" where
  "demo_ops = [Op_insert 100 1 50 7, Op_insert 100 3 0 8, Op_lookup 120 1, Op_lookup 150 1, Op_erase 3, Op_lookup 160 3]"


subsection \<open>Scans\<close>

text \<open>All entries of the cache, shard after shard.\<close>

definition all_entries :: "('k, 'v) cache \<Rightarrow> ('k \<times> 'v entry) list" where
  "all_entries c = concat (map sh_values (c_shards c))"

lemma distinct_concat_indexed:
  assumes "\<And>i. i < length xss \<Longrightarrow> distinct (map fst (xss ! i)) \<and> (\<forall>k \<in> fst ` set (xss ! i). f k = off + i)"
  shows "distinct (map fst (concat xss)) \<and> (\<forall>k \<in> fst ` set (concat xss). off \<le> f k)"
  using assms
proof (induction xss arbitrary: off)
  case (Cons xs xss)
  have hd: "distinct (map fst xs)" "\<forall>k \<in> fst ` set xs. f k = off" using Cons.prems [of 0] by auto
  have "distinct (map fst (xss ! i)) \<and> (\<forall>k \<in> fst ` set (xss ! i). f k = Suc off + i)" if "i < length xss" for i
    using Cons.prems [of "Suc i"] that by simp
  from Cons.IH [OF this] have tl: "distinct (map fst (concat xss))" "\<forall>k \<in> fst ` set (concat xss). Suc off \<le> f k"
    by auto
  have "fst ` set xs \<inter> fst ` set (concat xss) = {}" using hd(2) tl(2) by force
  with hd tl show ?case by (auto dest: Suc_leD)
qed simp

lemma distinct_all_entries:
  assumes "cache_ok c"
  shows "distinct (map fst (all_entries c))"
  unfolding all_entries_def
  by (rule distinct_concat_indexed [where off = 0 and f = "\<lambda>k. shard_index k c", THEN conjunct1])
    (use assms in \<open>auto simp: cache_ok_def shard_ok_def\<close>)

lemma all_entries_iff:
  assumes "cache_ok c"
  shows "(k, e) \<in> set (all_entries c) \<longleftrightarrow> entries c k = Some e"
proof
  assume "(k, e) \<in> set (all_entries c)"
  then obtain i where i: "i < length (c_shards c)" "(k, e) \<in> set (sh_values (c_shards c ! i))"
    unfolding all_entries_def by (auto simp: in_set_conv_nth [of _ "c_shards c"])
  then have "shard_ok (\<lambda>k. shard_index k c) i (c_shards c ! i)" using assms by (simp add: cache_ok_def)
  moreover from this have "shard_index k c = i" using i(2) by (force simp: shard_ok_def)
  ultimately show "entries c k = Some e"
    using i(2) by (simp add: entries_def shard_for_def shard_ok_def)
next
  assume "entries c k = Some e"
  then have "(k, e) \<in> set (sh_values (shard_for k c))" by (simp add: entries_def map_of_SomeD)
  then show "(k, e) \<in> set (all_entries c)"
    using shard_index_less [OF assms, of k] by (auto simp: all_entries_def shard_for_def intro!: bexI)
qed

lemma length_filter_entries:
  assumes "cache_ok c"
  shows "length (filter (\<lambda>p. P (snd p)) (all_entries c)) = card {k. \<exists>e. entries c k = Some e \<and> P e}"
proof -
  have "distinct (map fst (filter (\<lambda>p. P (snd p)) (all_entries c)))"
    by (rule distinct_filter_keys [OF distinct_all_entries [OF assms]])
  then have "length (filter (\<lambda>p. P (snd p)) (all_entries c)) = card (fst ` set (filter (\<lambda>p. P (snd p)) (all_entries c)))"
    by (metis distinct_card length_map list.set_map)
  also have "fst ` set (filter (\<lambda>p. P (snd p)) (all_entries c)) = {k. \<exists>e. entries c k = Some e \<and> P e}"
    using all_entries_iff [OF assms] by force
  finally show ?thesis .
qed

lemma size_shard_eq: "size_shard now ps result = result + of_nat (length (filter (\<lambda>p. \<not> expired now (snd p)) ps))"
  by (induction ps arbitrary: result) simp_all

lemma cache_size_eq: "cache_size now c = of_nat (length (filter (\<lambda>p. \<not> expired now (snd p)) (all_entries c)))"
proof -
  have "fold (\<lambda>sh result. size_shard now (sh_values sh) result) shs r
      = r + of_nat (length (filter (\<lambda>p. \<not> expired now (snd p)) (concat (map sh_values shs))))"
    for shs :: "('a, 'b) shard list" and r :: size_t
    by (induction shs arbitrary: r) (simp_all add: size_shard_eq)
  then show ?thesis by (simp add: cache_size_def all_entries_def)
qed

lemma cache_empty_eq: "cache_empty now c \<longleftrightarrow> filter (\<lambda>p. \<not> expired now (snd p)) (all_entries c) = []"
proof -
  have "empty_loop now shs \<longleftrightarrow> filter (\<lambda>p. \<not> expired now (snd p)) (concat (map sh_values shs)) = []"
    for shs :: "('a, 'b) shard list"
    by (induction shs) (auto simp: list_ex_iff filter_empty_conv)
  then show ?thesis by (simp add: cache_empty_def all_entries_def)
qed

lemma purge_loop_eq:
  "purge_loop now shs r =
     (r + of_nat (length (filter (\<lambda>p. expired now (snd p)) (concat (map sh_values shs)))),
      map (snd \<circ> purge_shard now) shs)"
  by (induction shs arbitrary: r) (simp_all add: purge_shard_def)

lemma map_of_filter_values:
  assumes "distinct (map fst xs)"
  shows "map_of (filter (\<lambda>p. P (snd p)) xs) k = (case map_of xs k of None \<Rightarrow> None | Some e \<Rightarrow> if P e then Some e else None)"
  using assms by (induction xs) (auto split: option.splits simp: image_iff dest: map_of_SomeD)

text \<open>The scans see the whole cache.  \<open>size\<close> is the number of keys with a live entry and \<open>empty\<close> tells
  whether it is zero; \<open>purge_expired\<close> returns the number of expired entries, removes exactly these, and
  so changes no lookup now or later.\<close>

lemma cache_scans_correct:
  assumes "cache_ok c" and "length (all_entries c) < 2 ^ 64"
  shows "unat (cache_size now c) = card {k. live now (entries c k) \<noteq> None}
       \<and> (cache_empty now c \<longleftrightarrow> (\<forall>k. live now (entries c k) = None))
       \<and> unat (fst (purge_expired now c)) = card {k. \<exists>e. entries c k = Some e \<and> expired now e}
       \<and> cache_ok (snd (purge_expired now c))
       \<and> entries (snd (purge_expired now c)) k
           = (case entries c k of None \<Rightarrow> None | Some e \<Rightarrow> if expired now e then None else Some e)"
proof (intro conjI)
  have small: "length (filter P (all_entries c)) < 2 ^ 64" for P
    using assms(2) length_filter_le [of P "all_entries c"] by (rule le_less_trans [rotated])
  have liveset: "{k. live now (entries c k) \<noteq> None} = {k. \<exists>e. entries c k = Some e \<and> \<not> expired now e}"
    by (auto simp: live_Some_iff)
  show "unat (cache_size now c) = card {k. live now (entries c k) \<noteq> None}"
    unfolding cache_size_eq liveset unat_of_nat_size [OF small]
    by (rule length_filter_entries [OF assms(1)])
  show "cache_empty now c \<longleftrightarrow> (\<forall>k. live now (entries c k) = None)"
    by (auto simp: cache_empty_eq filter_empty_conv live_None_iff simp flip: all_entries_iff [OF assms(1)])
  show "unat (fst (purge_expired now c)) = card {k. \<exists>e. entries c k = Some e \<and> expired now e}"
    using length_filter_entries [OF assms(1), of "expired now"] unat_of_nat_size [OF small, of "\<lambda>p. expired now (snd p)"]
    by (simp add: purge_expired_def purge_loop_eq flip: all_entries_def)
  have idx: "shard_index k (snd (purge_expired now c)) = shard_index k c" for k
    by (simp add: purge_expired_def purge_loop_eq shard_index_def span_size_def)
  show "cache_ok (snd (purge_expired now c))"
    using assms(1) unfolding cache_ok_def idx
    by (auto simp: purge_expired_def purge_loop_eq shard_ok_def purge_shard_def distinct_filter_keys)
  have "distinct (map fst (sh_values (shard_for k c)))"
    using shard_for_ok [OF assms(1), of k] by (simp add: shard_ok_def)
  moreover have "sh_values (shard_for k (snd (purge_expired now c)))
      = filter (\<lambda>p. \<not> expired now (snd p)) (sh_values (shard_for k c))"
    using shard_index_less [OF assms(1), of k] unfolding shard_for_def idx
    by (simp add: purge_expired_def purge_loop_eq purge_shard_def)
  ultimately show "entries (snd (purge_expired now c)) k
      = (case entries c k of None \<Rightarrow> None | Some e \<Rightarrow> if expired now e then None else Some e)"
    using map_of_filter_values [of "sh_values (shard_for k c)" "\<lambda>e. \<not> expired now e" k]
    by (cases "entries c k") (simp_all add: entries_def)
qed

text \<open>Two entries in the same shard, one of them expired at time 200.\<close>

definition demo_filled :: "(nat, nat) cache" where
  "demo_filled = demo_cache\<lparr>c_shards :=
     [\<lparr>sh_values = [(2, \<lparr>e_value = 20, e_expires_at = 150\<rparr>), (4, \<lparr>e_value = 40, e_expires_at = 900\<rparr>)],
       sh_in_flight = []\<rparr>, \<lparr>sh_values = [], sh_in_flight = []\<rparr>]\<rparr>"

lemma demo_filled_ok: "cache_ok demo_filled"
  by (auto simp: cache_ok_def demo_filled_def demo_cache_def shard_ok_def shard_index_def span_size_def less_Suc_eq)

lemma cache_scans_correct_witness:
  "unat (cache_size 200 demo_filled) = card {k. live 200 (entries demo_filled k) \<noteq> None}
   \<and> \<not> cache_empty 200 demo_filled
   \<and> unat (fst (purge_expired 200 demo_filled)) = card {k. \<exists>e. entries demo_filled k = Some e \<and> expired 200 e}
   \<and> entries (snd (purge_expired 200 demo_filled)) 2 = None"
proof -
  have len: "length (all_entries demo_filled) < 2 ^ 64"
    by (simp add: all_entries_def demo_filled_def demo_cache_def)
  have e: "entries demo_filled 2 = Some \<lparr>e_value = 20, e_expires_at = 150\<rparr>"
      "live 200 (entries demo_filled 4) = Some 40"
    by (simp_all add: entries_def shard_for_def shard_index_def demo_filled_def demo_cache_def span_size_def
        expired_def no_expiration_time_def min_time_def)
  from cache_scans_correct [OF demo_filled_ok len, of 200 2] e show ?thesis
    by (auto simp: expired_def no_expiration_time_def min_time_def)
qed

subsection \<open>Expiry\<close>

text \<open>With a clock that has not yet run past the range the options leave, no expiry time overflows: every
  time to live that \<open>cache_entry_opts\<close> accepts gives an entry that is live exactly until it has elapsed,
  and forever for a zero time to live.\<close>

lemma expiry_exact:
  assumes "cache_ok c" and "cache_entry_opts ttl = Some ttl" and "0 \<le> now" and "now + ttl \<le> max_time"
    and "now \<le> t"
  shows "\<exists>c'. insert_or_assign now k ttl v c = Some (v, c')
           \<and> (contains t k c' \<longleftrightarrow> ttl = 0 \<or> t < now + ttl)
           \<and> fst (get t t k c') = (if ttl = 0 \<or> t < now + ttl then Some v else None)"
proof -
  have ttl: "0 \<le> ttl" using assms(2) by (simp add: cache_entry_opts_def split: if_splits)
  define e where "e = \<lparr>e_value = v, e_expires_at = (if ttl = 0 then no_expiration_time else now + ttl)\<rparr>"
  have ins: "insert_or_assign now k ttl v c = Some (v, cache_put k e c)"
    using assms(4) by (simp add: insert_or_assign_eq expiration_time_def e_def)
  have "entries (cache_put k e c) k = Some e" using cache_put_ok(2) [OF assms(1)] by simp
  moreover have "expired t e \<longleftrightarrow> \<not> (ttl = 0 \<or> t < now + ttl)"
    using ttl assms(3) by (auto simp: expired_def e_def no_expiration_time_def min_time_def)
  ultimately show ?thesis
    using ins get_unchanged [OF cache_put_ok(1) [OF assms(1)], of t t k k e] by (auto simp: contains_eq e_def)
qed

lemma expiry_exact_witness:
  "\<exists>c'. insert_or_assign 100 1 50 (7::nat) demo_cache = Some (7, c')
     \<and> contains 149 1 c' \<and> (\<exists>d. insert_or_assign 100 1 50 (7::nat) demo_cache = Some (7, d) \<and> \<not> contains 150 1 d)"
proof -
  have ok: "cache_ok demo_cache" by (rule cache_make_ok(1) [OF demo_cache_make])
  have opts: "cache_entry_opts 50 = Some 50" by (simp add: cache_entry_opts_def max_supported_ttl_def)
  show ?thesis
    using expiry_exact [OF ok opts, of 100 149 1 7] expiry_exact [OF ok opts, of 100 150 1 7]
    by (simp add: max_time_def) blast
qed

text \<open>The bound that \<open>cache_entry_opts\<close> asserts does not exclude the overflow: with the largest accepted time to
  live and a steady clock that has run for 180 days, the expiry time is not representable.\<close>

lemma max_ttl_overflows:
  "cache_entry_opts max_supported_ttl = Some max_supported_ttl
   \<and> expiration_time (180 * 24 * 3600 * 1000000000) max_supported_ttl = None"
  by (simp add: cache_entry_opts_def max_supported_ttl_def expiration_time_def max_time_def)

text \<open>C35: \<open>get\<close> does not remove the expired entry it finds: it reports a miss and leaves the cache as it was.  Its
  second critical section removes the entry exactly when it is not expired, that is when another thread
  has replaced it by a live one in between: the new value is lost.\<close>

theorem get_removes_only_live:
  fixes c :: "('k, 'v) cache"
  assumes "cache_ok c" and "now1 \<le> now2" and "entries c k = Some e" and "expired now1 e"
  shows "get now1 now2 k c = (None, c)
       \<and> (\<forall>e'. \<not> expired now2 e' \<longrightarrow>
            entries (put_shard k (get_remove now2 k (shard_for k (cache_put k e' c))) (cache_put k e' c)) k = None)"
proof (intro conjI allI impI)
  show "get now1 now2 k c = (None, c)" using get_unchanged [OF assms(1,2)] assms(3,4) by simp
  fix e' :: "'v entry" assume e': "\<not> expired now2 e'"
  have ok: "cache_ok (cache_put k e' c)" by (rule cache_put_ok(1) [OF assms(1)])
  have "map_of (sh_values (shard_for k (cache_put k e' c))) k = Some e'"
    using cache_put_ok(2) [OF assms(1), of k e'] by (simp add: entries_def fun_eq_iff)
  with e' show "entries (put_shard k (get_remove now2 k (shard_for k (cache_put k e' c))) (cache_put k e' c)) k = None"
    using shard_for_put [OF ok, of k k] by (simp add: entries_def get_remove_def)
qed

lemma get_removes_only_live_witness:
  "get 200 200 2 demo_filled = (None, demo_filled)
   \<and> entries (put_shard 2 (get_remove 200 2 (shard_for 2 (cache_put 2 \<lparr>e_value = 21, e_expires_at = 900\<rparr> demo_filled)))
        (cache_put 2 \<lparr>e_value = 21, e_expires_at = 900\<rparr> demo_filled)) 2 = None"
proof -
  have e: "entries demo_filled 2 = Some \<lparr>e_value = 20, e_expires_at = 150\<rparr>"
    by (simp add: entries_def shard_for_def shard_index_def demo_filled_def demo_cache_def span_size_def)
  have "expired 200 \<lparr>e_value = 20::nat, e_expires_at = 150\<rparr>" "\<not> expired 200 \<lparr>e_value = 21::nat, e_expires_at = 900\<rparr>"
    by (simp_all add: expired_def no_expiration_time_def min_time_def)
  with get_removes_only_live [OF demo_filled_ok _ e, of 200 200] show ?thesis by simp
qed

end
