(* ===== verification/Cache_System.thy ===== *)
theory Cache_System
  imports Cache
begin

text \<open>
  Threads on one cache.  \<open>get_or_create\<close> is split at its locks: the fast lookup, the registration under the
  exclusive lock, the factory, the publication, and the promise; other threads insert, erase, purge and
  look up in between.  Clock readings and the outcome of the factory are part of the label of a step.
  \<open>g_results\<close> are the promises that have been set: the shared state of a factory state's future.
\<close>

section \<open>The step relation\<close>

datatype ('k, 'v) gpc =
    G_idle
  | G_miss 'k int
  | G_factory 'k int nat
  | G_publish 'k "'v entry" nat
  | G_set nat 'v
  | G_fail 'k nat string
  | G_remove 'k nat string
  | G_wait 'k nat
  | G_done "string + 'v"
  | G_get_expired 'k

record ('k, 'v) gsys =
  g_cache :: "('k, 'v) cache"
  g_threads :: "nat \<Rightarrow> ('k, 'v) gpc"
  g_results :: "nat \<rightharpoonup> string + 'v"
  g_next :: nat

datatype ('k, 'v) glabel =
    GL_call nat 'k int int
  | GL_register nat int
  | GL_factory nat "string + 'v" int
  | GL_publish nat int
  | GL_promise nat
  | GL_wait nat
  | GL_return nat
  | GL_insert nat int 'k int 'v
  | GL_erase nat 'k
  | GL_get nat 'k int
  | GL_get_remove nat int
  | GL_purge nat int nat

definition set_thread :: "nat \<Rightarrow> ('k, 'v) gpc \<Rightarrow> ('k, 'v) gsys \<Rightarrow> ('k, 'v) gsys" where
  "set_thread i p s = s\<lparr>g_threads := (g_threads s)(i := p)\<rparr>"

definition after_lookup :: "'k \<Rightarrow> int \<Rightarrow> lookup_status \<times> 'v option \<Rightarrow> ('k, 'v) gpc" where
  "after_lookup k ttl r =
     (case r of (lookup_found, Some v) \<Rightarrow> G_done (Inr v) | _ \<Rightarrow> G_miss k ttl)"

definition after_register ::
  "nat \<Rightarrow> 'k \<Rightarrow> int \<Rightarrow> ('k, 'v) gsys \<Rightarrow> 'v registration \<times> ('k, 'v) shard \<Rightarrow> ('k, 'v) gsys"
where
  "after_register i k ttl s r =
     (case r of
        (Reg_found v, sh) \<Rightarrow> set_thread i (G_done (Inr v)) s
      | (Reg_wait st, sh) \<Rightarrow> set_thread i (G_wait k st) s
      | (Reg_own, sh) \<Rightarrow>
          set_thread i (G_factory k ttl (g_next s))
            (s\<lparr>g_cache := put_shard k sh (g_cache s), g_next := Suc (g_next s)\<rparr>))"

definition replace_shard :: "nat \<Rightarrow> ('k, 'v) shard \<Rightarrow> ('k, 'v) cache \<Rightarrow> ('k, 'v) cache" where
  "replace_shard n sh c = c\<lparr>c_shards := (c_shards c)[n := sh]\<rparr>"

inductive gstep :: "('k, 'v) gsys \<Rightarrow> ('k, 'v) glabel \<Rightarrow> ('k, 'v) gsys \<Rightarrow> bool" where
  gs_call: "g_threads s i = G_idle \<Longrightarrow>
     gstep s (GL_call i k ttl now)
       (set_thread i (after_lookup k ttl (internal_fast_get now k (shard_for k (g_cache s)))) s)"
| gs_register: "g_threads s i = G_miss k ttl \<Longrightarrow>
     gstep s (GL_register i now)
       (after_register i k ttl s (register_factory now (g_next s) k (shard_for k (g_cache s))))"
| gs_factory_returns: "g_threads s i = G_factory k ttl st \<Longrightarrow> expiration_time now ttl = Some t \<Longrightarrow>
     gstep s (GL_factory i (Inr v) now) (set_thread i (G_publish k \<lparr>e_value = v, e_expires_at = t\<rparr> st) s)"
| gs_factory_throws: "g_threads s i = G_factory k ttl st \<Longrightarrow>
     gstep s (GL_factory i (Inl err) now) (set_thread i (G_fail k st err) s)"
| gs_publish: "g_threads s i = G_publish k e st \<Longrightarrow> publish now k e (shard_for k (g_cache s)) = (v, sh) \<Longrightarrow>
     gstep s (GL_publish i now) (set_thread i (G_set st v) (s\<lparr>g_cache := put_shard k sh (g_cache s)\<rparr>))"
| gs_set: "g_threads s i = G_set st v \<Longrightarrow>
     gstep s (GL_promise i) (set_thread i (G_done (Inr v)) (s\<lparr>g_results := (g_results s)(st \<mapsto> Inr v)\<rparr>))"
| gs_fail: "g_threads s i = G_fail k st err \<Longrightarrow>
     gstep s (GL_promise i) (set_thread i (G_remove k st err) (s\<lparr>g_results := (g_results s)(st \<mapsto> Inl err)\<rparr>))"
| gs_remove: "g_threads s i = G_remove k st err \<Longrightarrow>
     gstep s (GL_return i)
       (set_thread i (G_done (Inl err))
          (s\<lparr>g_cache := put_shard k (remove_in_flight k st (shard_for k (g_cache s))) (g_cache s)\<rparr>))"
| gs_wait: "g_threads s i = G_wait k st \<Longrightarrow> g_results s st = Some r \<Longrightarrow>
     gstep s (GL_wait i) (set_thread i (G_done r) s)"
| gs_return: "g_threads s i = G_done r \<Longrightarrow> gstep s (GL_return i) (set_thread i G_idle s)"
| gs_insert: "g_threads s i = G_idle \<Longrightarrow> insert_or_assign now k ttl v (g_cache s) = Some (v', c) \<Longrightarrow>
     gstep s (GL_insert i now k ttl v) (s\<lparr>g_cache := c\<rparr>)"
| gs_erase: "g_threads s i = G_idle \<Longrightarrow>
     gstep s (GL_erase i k) (s\<lparr>g_cache := snd (erase k (g_cache s))\<rparr>)"
| gs_get: "g_threads s i = G_idle \<Longrightarrow>
     gstep s (GL_get i k now)
       (set_thread i (case internal_fast_get now k (shard_for k (g_cache s)) of
                        (lookup_expired, v) \<Rightarrow> G_get_expired k | _ \<Rightarrow> G_idle) s)"
| gs_get_remove: "g_threads s i = G_get_expired k \<Longrightarrow>
     gstep s (GL_get_remove i now)
       (set_thread i G_idle
          (s\<lparr>g_cache := put_shard k (get_remove now k (shard_for k (g_cache s))) (g_cache s)\<rparr>))"
| gs_purge: "g_threads s i = G_idle \<Longrightarrow> n < length (c_shards (g_cache s)) \<Longrightarrow>
     gstep s (GL_purge i now n)
       (s\<lparr>g_cache := replace_shard n (snd (purge_shard now (c_shards (g_cache s) ! n))) (g_cache s)\<rparr>)"

inductive_cases gstep_cases: "gstep s l t"

definition g_init :: "size_t \<Rightarrow> ('k \<Rightarrow> size_t) \<Rightarrow> ('k, 'v) gsys \<Rightarrow> bool" where
  "g_init n hash s \<longleftrightarrow>
     (\<exists>c. cache_make n hash = Some c
        \<and> s = \<lparr>g_cache = c, g_threads = (\<lambda>_. G_idle), g_results = (\<lambda>_. None), g_next = 0\<rparr>)"

section \<open>The invariant\<close>

definition flights :: "('k, 'v) cache \<Rightarrow> 'k \<Rightarrow> nat option" where
  "flights c k = map_of (sh_in_flight (shard_for k c)) k"

text \<open>The key and factory state a thread has registered, and the promise it still has to set.\<close>

fun holds :: "('k, 'v) gpc \<Rightarrow> ('k \<times> nat) option" where
  "holds (G_factory k ttl st) = Some (k, st)"
| "holds (G_publish k e st) = Some (k, st)"
| "holds (G_fail k st err) = Some (k, st)"
| "holds (G_remove k st err) = Some (k, st)"
| "holds _ = None"

fun promises :: "('k, 'v) gpc \<Rightarrow> nat option" where
  "promises (G_factory k ttl st) = Some st"
| "promises (G_publish k e st) = Some st"
| "promises (G_fail k st err) = Some st"
| "promises (G_set st v) = Some st"
| "promises _ = None"

definition flight_inv :: "('k \<Rightarrow> nat option) \<Rightarrow> (nat \<Rightarrow> ('k, 'v) gpc) \<Rightarrow> bool" where
  "flight_inv fl pc \<longleftrightarrow>
     (\<forall>i k st. holds (pc i) = Some (k, st) \<longrightarrow> fl k = Some st)
     \<and> (\<forall>k st. fl k = Some st \<longrightarrow> (\<exists>i. holds (pc i) = Some (k, st)))
     \<and> (\<forall>i j k k' st. holds (pc i) = Some (k, st) \<and> holds (pc j) = Some (k', st) \<longrightarrow> i = j)"

definition promise_inv :: "nat \<Rightarrow> (nat \<rightharpoonup> string + 'v) \<Rightarrow> (nat \<Rightarrow> ('k, 'v) gpc) \<Rightarrow> bool" where
  "promise_inv nxt res pc \<longleftrightarrow>
     (\<forall>i j st. promises (pc i) = Some st \<and> promises (pc j) = Some st \<longrightarrow> i = j)
     \<and> (\<forall>i st. promises (pc i) = Some st \<longrightarrow> res st = None \<and> st < nxt)
     \<and> (\<forall>st. res st \<noteq> None \<longrightarrow> st < nxt)
     \<and> (\<forall>i k st err. pc i = G_remove k st err \<longrightarrow> res st = Some (Inl err))
     \<and> (\<forall>i k st. pc i = G_wait k st \<longrightarrow> res st \<noteq> None \<or> (\<exists>j. promises (pc j) = Some st))"

definition g_inv :: "('k, 'v) gsys \<Rightarrow> bool" where
  "g_inv s \<longleftrightarrow>
     cache_ok (g_cache s) \<and> flight_inv (flights (g_cache s)) (g_threads s)
     \<and> promise_inv (g_next s) (g_results s) (g_threads s)"

lemma holds_promise: "holds p = Some (k, st) \<Longrightarrow> promises p = Some st \<or> (\<exists>err. p = G_remove k st err)"
  by (cases p) auto

section \<open>The effect on the cache\<close>

lemma flights_put:
  "cache_ok c \<Longrightarrow>
   flights (put_shard k sh c) k' =
     (if shard_index k' c = shard_index k c then map_of (sh_in_flight sh) k' else flights c k')"
  by (simp add: flights_def shard_for_put)

lemma flights_put_same:
  assumes "cache_ok c" and "sh_in_flight sh = sh_in_flight (shard_for k c)"
  shows "flights (put_shard k sh c) = flights c"
  using assms by (auto simp: fun_eq_iff flights_put) (auto simp: flights_def dest: same_shard)

lemma flights_put_update:
  assumes "cache_ok c" and "map_of (sh_in_flight sh) = (map_of (sh_in_flight (shard_for k c)))(k := x)"
  shows "flights (put_shard k sh c) = (flights c)(k := x)"
  using assms by (auto simp: fun_eq_iff flights_put) (auto simp: flights_def dest: same_shard)

lemma shard_ok_same_values: "sh_values sh' = sh_values sh \<Longrightarrow> shard_ok f i sh' = shard_ok f i sh"
  by (simp add: shard_ok_def)

lemma register_effect:
  assumes "register_factory now n k sh = (r, sh')"
  shows "case r of
           Reg_found v \<Rightarrow> sh' = sh
         | Reg_wait st \<Rightarrow> sh' = sh \<and> map_of (sh_in_flight sh) k = Some st
         | Reg_own \<Rightarrow> map_of (sh_in_flight sh) k = None \<and> sh_values sh' = sh_values sh
             \<and> map_of (sh_in_flight sh') = (map_of (sh_in_flight sh))(k \<mapsto> n)"
  using assms by (auto simp: register_factory_def split: option.splits if_splits)

lemma publish_effect:
  assumes "publish now k e sh = (v, sh')"
  shows "map_of (sh_in_flight sh') = (map_of (sh_in_flight sh))(k := None)"
    and "sh_values sh' = sh_values sh \<or> sh_values sh' = map_put k e (sh_values sh)"
  using assms by (auto simp: publish_def split: option.splits if_splits)

lemma get_remove_effect:
  "sh_in_flight (get_remove now k sh) = sh_in_flight sh"
  "sh_values (get_remove now k sh) = sh_values sh \<or> sh_values (get_remove now k sh) = map_erase k (sh_values sh)"
  by (auto simp: get_remove_def split: option.splits)

lemma remove_in_flight_effect:
  assumes "map_of (sh_in_flight sh) k = Some st"
  shows "map_of (sh_in_flight (remove_in_flight k st sh)) = (map_of (sh_in_flight sh))(k := None)"
    and "sh_values (remove_in_flight k st sh) = sh_values sh"
  using assms by (simp_all add: remove_in_flight_def)

lemma put_shard_values_ok:
  assumes ok: "cache_ok c"
    and "sh_values sh = sh_values (shard_for k c) \<or> sh_values sh = map_put k e (sh_values (shard_for k c))
         \<or> sh_values sh = map_erase k (sh_values (shard_for k c))"
  shows "cache_ok (put_shard k sh c)"
proof (rule put_shard_ok [OF ok])
  let ?vs = "sh_values (shard_for k c)"
  have vs: "distinct (map fst ?vs)" "\<forall>k' \<in> fst ` set ?vs. shard_index k' c = shard_index k c"
    using shard_for_ok [OF ok, of k] by (simp_all add: shard_ok_def)
  from assms(2) have "distinct (map fst (sh_values sh))"
    using vs(1) by (elim disjE) (simp_all add: distinct_map_put map_erase_def distinct_filter_keys)
  moreover from assms(2) have "fst ` set (sh_values sh) \<subseteq> insert k (fst ` set ?vs)"
    by (elim disjE) (auto simp: keys_map_put map_erase_def)
  ultimately show "shard_ok (\<lambda>k'. shard_index k' c) (shard_index k c) sh"
    using vs(2) unfolding shard_ok_def by blast
qed

lemma cache_put_flights: "cache_ok c \<Longrightarrow> flights (cache_put k e c) = flights c"
  unfolding cache_put_def by (rule flights_put_same) simp_all

lemma erase_flights: "cache_ok c \<Longrightarrow> flights (snd (erase k c)) = flights c"
  by (auto simp: erase_def Let_def intro!: flights_put_same split: option.split)

lemma purge_effect:
  fixes c now n
  defines "c' \<equiv> replace_shard n (snd (purge_shard now (c_shards c ! n))) c"
  assumes ok: "cache_ok c" and n: "n < length (c_shards c)"
  shows "cache_ok c'" and "flights c' = flights c"
proof -
  have idx: "shard_index k c' = shard_index k c" for k
    by (simp add: c'_def replace_shard_def shard_index_def span_size_def)
  have sh: "c_shards c' = (c_shards c)[n := snd (purge_shard now (c_shards c ! n))]"
    by (simp add: c'_def replace_shard_def)
  show "cache_ok c'"
    using ok n unfolding cache_ok_def idx
    by (auto simp: sh nth_list_update shard_ok_def purge_shard_def distinct_filter_keys)
  show "flights c' = flights c"
    using n by (auto simp: fun_eq_iff flights_def shard_for_def idx sh nth_list_update purge_shard_def)
qed

section \<open>The effect on the threads\<close>

lemma flight_invD:
  assumes "flight_inv fl pc"
  shows "holds (pc j) = Some (k, st) \<Longrightarrow> fl k = Some st"
    and "fl k = Some st \<Longrightarrow> \<exists>j. holds (pc j) = Some (k, st)"
    and "holds (pc j) = Some (k, st) \<Longrightarrow> holds (pc j') = Some (k', st) \<Longrightarrow> j = j'"
  using assms unfolding flight_inv_def by blast+

lemma promise_invD:
  assumes "promise_inv nxt res pc"
  shows "promises (pc j) = Some st \<Longrightarrow> promises (pc j') = Some st \<Longrightarrow> j = j'"
    and "promises (pc j) = Some st \<Longrightarrow> res st = None \<and> st < nxt"
    and "res st \<noteq> None \<Longrightarrow> st < nxt"
    and "pc j = G_remove k st err \<Longrightarrow> res st = Some (Inl err)"
    and "pc j = G_wait k st \<Longrightarrow> res st \<noteq> None \<or> (\<exists>j'. promises (pc j') = Some st)"
  using assms unfolding promise_inv_def by blast+

lemma flight_keep: "flight_inv fl pc \<Longrightarrow> holds p = holds (pc i) \<Longrightarrow> flight_inv fl (pc(i := p))"
proof -
  assume inv: "flight_inv fl pc" and "holds p = holds (pc i)"
  then have h: "holds ((pc(i := p)) j) = holds (pc j)" for j by simp
  show ?thesis using inv unfolding flight_inv_def h by blast
qed

lemma flight_acquire:
  assumes "flight_inv fl pc" and "holds (pc i) = None" and "fl k = None" and "holds p = Some (k, st)"
    and fresh: "\<And>j k'. holds (pc j) \<noteq> Some (k', st)"
  shows "flight_inv (fl(k \<mapsto> st)) (pc(i := p))"
proof -
  note a = flight_invD(1) [OF assms(1)] and b = flight_invD(2) [OF assms(1)] and c = flight_invD(3) [OF assms(1)]
  have "\<exists>j. holds ((pc(i := p)) j) = Some (k', st')" if "(fl(k \<mapsto> st)) k' = Some st'" for k' st'
  proof (cases "k' = k")
    case True
    with that assms(4) show ?thesis by (auto intro!: exI [of _ i])
  next
    case False
    with that b obtain j where "holds (pc j) = Some (k', st')" by auto
    moreover from this assms(2) have "j \<noteq> i" by auto
    ultimately show ?thesis by (auto intro!: exI [of _ j])
  qed
  moreover have "(fl(k \<mapsto> st)) k' = Some st'" if "holds ((pc(i := p)) j) = Some (k', st')" for j k' st'
    using that a [of j k' st'] assms(3,4) by (auto split: if_splits)
  moreover have "j = j'"
    if "holds ((pc(i := p)) j) = Some (k', st')" "holds ((pc(i := p)) j') = Some (k'', st')" for j j' k' k'' st'
    using that c [of j k' st' j' k''] assms(4) fresh by (auto split: if_splits)
  ultimately show ?thesis unfolding flight_inv_def by blast
qed

lemma flight_release:
  assumes "flight_inv fl pc" and "holds (pc i) = Some (k, st)" and "holds p = None"
  shows "flight_inv (fl(k := None)) (pc(i := p))"
proof -
  note a = flight_invD(1) [OF assms(1)] and b = flight_invD(2) [OF assms(1)] and c = flight_invD(3) [OF assms(1)]
  have "(fl(k := None)) k' = Some st'" if "holds ((pc(i := p)) j) = Some (k', st')" for j k' st'
  proof -
    have j: "j \<noteq> i" "holds (pc j) = Some (k', st')" using that assms(3) by (auto split: if_splits)
    moreover have "k' \<noteq> k" using j a [of j k' st'] a [OF assms(2)] c [OF assms(2), of j k'] by auto
    ultimately show ?thesis using a by simp
  qed
  moreover have "\<exists>j. holds ((pc(i := p)) j) = Some (k', st')" if "(fl(k := None)) k' = Some st'" for k' st'
  proof -
    from that b obtain j where j: "holds (pc j) = Some (k', st')" "k' \<noteq> k" by (auto split: if_splits)
    with assms(2) have "j \<noteq> i" by auto
    with j show ?thesis by (auto intro!: exI [of _ j])
  qed
  moreover have "j = j'"
    if "holds ((pc(i := p)) j) = Some (k', st')" "holds ((pc(i := p)) j') = Some (k'', st')" for j j' k' k'' st'
    using that c [of j k' st' j' k''] assms(3) by (auto split: if_splits)
  ultimately show ?thesis unfolding flight_inv_def by blast
qed

lemma promise_keep:
  assumes "promise_inv nxt res pc" and "promises p = promises (pc i)"
    and "\<And>k st err. p \<noteq> G_remove k st err" and "\<And>k st. p = G_wait k st \<Longrightarrow> res st \<noteq> None \<or> (\<exists>j. promises (pc j) = Some st)"
  shows "promise_inv nxt res (pc(i := p))"
proof -
  have pr: "promises ((pc(i := p)) j) = promises (pc j)" for j using assms(2) by simp
  note e = promise_invD(5) [OF assms(1)] and d = promise_invD(4) [OF assms(1)]
  have "res st \<noteq> None \<or> (\<exists>j'. promises (pc j') = Some st)" if "(pc(i := p)) j = G_wait k st" for j k st
    using that e [of j k st] assms(4) [of k st] by (auto split: if_splits)
  moreover have "res st = Some (Inl err)" if "(pc(i := p)) j = G_remove k st err" for j k st err
    using that d [of j k st err] assms(3) [of k st err] by (auto split: if_splits)
  ultimately show ?thesis using assms(1) unfolding promise_inv_def pr by blast
qed

lemma promise_acquire:
  assumes "promise_inv nxt res pc" and "promises (pc i) = None" and "promises p = Some nxt"
    and "\<And>k st. p \<noteq> G_wait k st"
  shows "promise_inv (Suc nxt) res (pc(i := p))"
proof -
  have pr: "promises ((pc(i := p)) j) = (if j = i then Some nxt else promises (pc j))" for j using assms(3) by simp
  note a = promise_invD(1) [OF assms(1)] and b = promise_invD(2) [OF assms(1)] and c = promise_invD(3) [OF assms(1)]
    and d = promise_invD(4) [OF assms(1)] and e = promise_invD(5) [OF assms(1)]
  have rn: "res nxt = None" using c [of nxt] by (cases "res nxt") auto
  have "res st \<noteq> None \<or> (\<exists>j'. promises ((pc(i := p)) j') = Some st)" if "(pc(i := p)) j = G_wait k st" for j k st
  proof -
    have "j \<noteq> i" using that assms(4) by auto
    with that e consider "res st \<noteq> None" | j' where "promises (pc j') = Some st" by fastforce
    then show ?thesis unfolding pr using assms(2) by (cases, simp) (metis option.distinct(1))
  qed
  moreover have "(pc(i := p)) j = G_remove k st err \<Longrightarrow> res st = Some (Inl err)" for j k st err
    using d assms(3) by (auto split: if_splits)
  moreover have "j = j'" if "promises ((pc(i := p)) j) = Some st" "promises ((pc(i := p)) j') = Some st" for j j' st
    using that a [of j st j'] b [of j st] b [of j' st] unfolding pr by (auto split: if_splits)
  moreover have "res st = None \<and> st < Suc nxt" if "promises ((pc(i := p)) j) = Some st" for j st
    using that b [of j st] rn unfolding pr by (auto split: if_splits)
  moreover have "st < Suc nxt" if "res st \<noteq> None" for st using c [OF that] by simp
  ultimately show ?thesis unfolding promise_inv_def by blast
qed

lemma promise_resolve:
  assumes "promise_inv nxt res pc" and "promises (pc i) = Some st" and "promises p = None"
    and "\<And>k st'. p \<noteq> G_wait k st'" and "\<And>k st' err. p = G_remove k st' err \<Longrightarrow> st' = st \<and> r = Inl err"
  shows "promise_inv nxt (res(st \<mapsto> r)) (pc(i := p))"
proof -
  have pr: "promises ((pc(i := p)) j) = (if j = i then None else promises (pc j))" for j using assms(3) by simp
  note a = promise_invD(1) [OF assms(1)] and b = promise_invD(2) [OF assms(1)] and c = promise_invD(3) [OF assms(1)]
    and d = promise_invD(4) [OF assms(1)] and e = promise_invD(5) [OF assms(1)]
  have "(res(st \<mapsto> r)) st' \<noteq> None \<or> (\<exists>j'. promises ((pc(i := p)) j') = Some st')"
    if "(pc(i := p)) j = G_wait k st'" for j k st'
  proof (cases "st' = st")
    case False
    have "j \<noteq> i" using that assms(4) by auto
    with that e consider "res st' \<noteq> None" | j' where "promises (pc j') = Some st'" by fastforce
    then show ?thesis unfolding pr using assms(2) False by (cases, simp) (metis option.inject)
  qed simp
  moreover have "(res(st \<mapsto> r)) st' = Some (Inl err)" if "(pc(i := p)) j = G_remove k st' err" for j k st' err
  proof (cases "j = i")
    case True
    with that assms(5) show ?thesis by auto
  next
    case False
    with that d have "res st' = Some (Inl err)" by auto
    moreover have "res st = None" using b [OF assms(2)] by simp
    ultimately show ?thesis by auto
  qed
  moreover have "j = j'" if "promises ((pc(i := p)) j) = Some st'" "promises ((pc(i := p)) j') = Some st'" for j j' st'
    using that a [of j st' j'] unfolding pr by (auto split: if_splits)
  moreover have "(res(st \<mapsto> r)) st' = None \<and> st' < nxt" if "promises ((pc(i := p)) j) = Some st'" for j st'
    using that a [of j st' i] b [of j st'] assms(2) unfolding pr by (auto split: if_splits)
  moreover have "st' < nxt" if "(res(st \<mapsto> r)) st' \<noteq> None" for st'
    using that c b [OF assms(2)] by (auto split: if_splits)
  ultimately show ?thesis unfolding promise_inv_def by blast
qed

lemma holder_bound:
  assumes "promise_inv nxt res pc" and "holds (pc i) = Some (k, st)"
  shows "st < nxt"
  using holds_promise [OF assms(2)] promise_invD [OF assms(1)] by (metis option.distinct(1))

section \<open>Every step keeps the invariant\<close>

lemma cache_only_step:
  assumes "g_inv s" and "cache_ok c" and "flights c = flights (g_cache s)"
  shows "g_inv (s\<lparr>g_cache := c\<rparr>)"
  using assms by (simp add: g_inv_def)

lemma quiet_thread_step:
  assumes "g_inv s" and "holds p = holds (g_threads s i)" and "promises p = promises (g_threads s i)"
    and "\<And>k st err. p \<noteq> G_remove k st err"
    and "\<And>k st. p = G_wait k st \<Longrightarrow> g_results s st \<noteq> None \<or> (\<exists>j. promises (g_threads s j) = Some st)"
  shows "g_inv (set_thread i p s)"
  using assms flight_keep [of "flights (g_cache s)" "g_threads s" p i] promise_keep [of "g_next s" "g_results s" "g_threads s" p i]
  by (simp add: g_inv_def set_thread_def)

lemma register_step:
  assumes inv: "g_inv s" and pc: "g_threads s i = G_miss k ttl"
  shows "g_inv (after_register i k ttl s (register_factory now (g_next s) k (shard_for k (g_cache s))))"
proof -
  obtain r sh where reg: "register_factory now (g_next s) k (shard_for k (g_cache s)) = (r, sh)" by fastforce
  note eff = register_effect [OF reg]
  have ok: "cache_ok (g_cache s)" and fl: "flight_inv (flights (g_cache s)) (g_threads s)"
    and pr: "promise_inv (g_next s) (g_results s) (g_threads s)" using inv by (simp_all add: g_inv_def)
  show ?thesis
  proof (cases r)
    case (Reg_found v)
    then show ?thesis using quiet_thread_step [OF inv, of "G_done (Inr v)" i] pc by (simp add: reg after_register_def)
  next
    case (Reg_wait st)
    then have "flights (g_cache s) k = Some st" using eff by (simp add: flights_def)
    then obtain j where j: "holds (g_threads s j) = Some (k, st)" using flight_invD(2) [OF fl] by blast
    have "g_results s st \<noteq> None \<or> (\<exists>j. promises (g_threads s j) = Some st)"
      using holds_promise [OF j] promise_invD(4) [OF pr] by fastforce
    then show ?thesis
      using Reg_wait quiet_thread_step [OF inv, of "G_wait k st" i] pc by (simp add: reg after_register_def)
  next
    case Reg_own
    then have none: "flights (g_cache s) k = None" and vals: "sh_values sh = sh_values (shard_for k (g_cache s))"
      and upd: "map_of (sh_in_flight sh) = (map_of (sh_in_flight (shard_for k (g_cache s))))(k \<mapsto> g_next s)"
      using eff by (simp_all add: flights_def)
    let ?c = "put_shard k sh (g_cache s)" and ?p = "G_factory k ttl (g_next s)"
    have "cache_ok ?c" by (rule put_shard_values_ok [OF ok]) (simp add: vals)
    moreover have "flights ?c = (flights (g_cache s))(k \<mapsto> g_next s)" by (rule flights_put_update [OF ok upd])
    moreover have "flight_inv ((flights (g_cache s))(k \<mapsto> g_next s)) ((g_threads s)(i := ?p))"
      by (rule flight_acquire [OF fl _ none]) (use pc holder_bound [OF pr] in auto)
    moreover have "promise_inv (Suc (g_next s)) (g_results s) ((g_threads s)(i := ?p))"
      by (rule promise_acquire [OF pr]) (simp_all add: pc)
    ultimately show ?thesis
      using Reg_own by (simp add: reg after_register_def set_thread_def g_inv_def)
  qed
qed

lemma publish_step:
  assumes inv: "g_inv s" and pc: "g_threads s i = G_publish k e st"
    and pub: "publish now k e (shard_for k (g_cache s)) = (v, sh)"
  shows "g_inv (set_thread i (G_set st v) (s\<lparr>g_cache := put_shard k sh (g_cache s)\<rparr>))"
proof -
  have ok: "cache_ok (g_cache s)" and fl: "flight_inv (flights (g_cache s)) (g_threads s)"
    and pr: "promise_inv (g_next s) (g_results s) (g_threads s)" using inv by (simp_all add: g_inv_def)
  have "cache_ok (put_shard k sh (g_cache s))"
    using publish_effect(2) [OF pub] by (intro put_shard_values_ok [OF ok]) auto
  moreover have "flights (put_shard k sh (g_cache s)) = (flights (g_cache s))(k := None)"
    by (rule flights_put_update [OF ok publish_effect(1) [OF pub]])
  moreover have "flight_inv ((flights (g_cache s))(k := None)) ((g_threads s)(i := G_set st v))"
    by (rule flight_release [OF fl]) (simp_all add: pc)
  moreover have "promise_inv (g_next s) (g_results s) ((g_threads s)(i := G_set st v))"
    by (rule promise_keep [OF pr]) (simp_all add: pc)
  ultimately show ?thesis by (simp add: set_thread_def g_inv_def)
qed

lemma remove_step:
  assumes inv: "g_inv s" and pc: "g_threads s i = G_remove k st err"
  shows "g_inv (set_thread i (G_done (Inl err))
          (s\<lparr>g_cache := put_shard k (remove_in_flight k st (shard_for k (g_cache s))) (g_cache s)\<rparr>))"
proof -
  have ok: "cache_ok (g_cache s)" and fl: "flight_inv (flights (g_cache s)) (g_threads s)"
    and pr: "promise_inv (g_next s) (g_results s) (g_threads s)" using inv by (simp_all add: g_inv_def)
  have "flights (g_cache s) k = Some st" using flight_invD(1) [OF fl, of i] pc by simp
  then have here: "map_of (sh_in_flight (shard_for k (g_cache s))) k = Some st" by (simp add: flights_def)
  let ?c = "put_shard k (remove_in_flight k st (shard_for k (g_cache s))) (g_cache s)"
  have "cache_ok ?c" by (rule put_shard_values_ok [OF ok]) (simp add: remove_in_flight_effect [OF here])
  moreover have "flights ?c = (flights (g_cache s))(k := None)"
    by (rule flights_put_update [OF ok remove_in_flight_effect(1) [OF here]])
  moreover have "flight_inv ((flights (g_cache s))(k := None)) ((g_threads s)(i := G_done (Inl err)))"
    by (rule flight_release [OF fl]) (simp_all add: pc)
  moreover have "promise_inv (g_next s) (g_results s) ((g_threads s)(i := G_done (Inl err)))"
    by (rule promise_keep [OF pr]) (simp_all add: pc)
  ultimately show ?thesis by (simp add: set_thread_def g_inv_def)
qed

lemma resolve_step:
  assumes inv: "g_inv s" and "promises (g_threads s i) = Some st" and "promises p = None"
    and "\<And>k st'. p \<noteq> G_wait k st'" and "\<And>k st' err. p = G_remove k st' err \<Longrightarrow> st' = st \<and> r = Inl err"
    and "holds p = holds (g_threads s i)"
  shows "g_inv (set_thread i p (s\<lparr>g_results := (g_results s)(st \<mapsto> r)\<rparr>))"
  using assms promise_resolve [of "g_next s" "g_results s" "g_threads s" i st p r]
    flight_keep [of "flights (g_cache s)" "g_threads s" p i]
  by (simp add: g_inv_def set_thread_def)

lemma after_lookup_cases: "after_lookup k ttl x = G_miss k ttl \<or> (\<exists>v. after_lookup k ttl x = G_done (Inr v))"
  by (auto simp: after_lookup_def split: prod.split lookup_status.split option.split)

lemma g_step:
  assumes inv: "g_inv s" and st: "gstep s l t"
  shows "g_inv t"
  using st
proof (cases rule: gstep.cases)
  case (gs_call i k ttl now)
  have "g_inv (set_thread i (after_lookup k ttl (internal_fast_get now k (shard_for k (g_cache s)))) s)"
    using after_lookup_cases [of k ttl "internal_fast_get now k (shard_for k (g_cache s))"] gs_call(3)
    by (auto intro!: quiet_thread_step [OF inv])
  with gs_call(2) show ?thesis by simp
next
  case (gs_register i k ttl now)
  then show ?thesis using register_step [OF inv] by simp
next
  case (gs_factory_returns i k ttl st now tm v)
  then show ?thesis by (auto intro!: quiet_thread_step [OF inv])
next
  case (gs_factory_throws i k ttl st err now)
  then show ?thesis by (auto intro!: quiet_thread_step [OF inv])
next
  case (gs_publish i k e st now v sh)
  then show ?thesis using publish_step [OF inv] by simp
next
  case (gs_set i st v)
  then show ?thesis by (auto intro!: resolve_step [OF inv])
next
  case (gs_fail i k st err)
  then show ?thesis by (auto intro!: resolve_step [OF inv])
next
  case (gs_remove i k st err)
  then show ?thesis using remove_step [OF inv] by simp
next
  case (gs_wait i k st r)
  then show ?thesis by (auto intro!: quiet_thread_step [OF inv])
next
  case (gs_return i r)
  then show ?thesis by (auto intro!: quiet_thread_step [OF inv])
next
  case (gs_insert i now k ttl v v' c)
  then show ?thesis
    using inv by (auto simp: insert_or_assign_eq g_inv_def cache_put_ok(1) cache_put_flights)
next
  case (gs_erase i k)
  then show ?thesis using inv by (simp add: g_inv_def erase_ok(1) erase_flights)
next
  case (gs_get i k now)
  then show ?thesis
    by (auto intro!: quiet_thread_step [OF inv] split: prod.split lookup_status.split)
next
  case (gs_get_remove i k now)
  let ?sh = "get_remove now k (shard_for k (g_cache s))"
  have ok: "cache_ok (g_cache s)" using inv by (simp add: g_inv_def)
  have "g_inv (s\<lparr>g_cache := put_shard k ?sh (g_cache s)\<rparr>)"
    using get_remove_effect [of now k "shard_for k (g_cache s)"]
    by (intro cache_only_step [OF inv] put_shard_values_ok [OF ok] flights_put_same [OF ok]) auto
  from quiet_thread_step [OF this, of G_idle i] gs_get_remove show ?thesis by simp
next
  case (gs_purge i n now)
  then show ?thesis using purge_effect [of "g_cache s" n now] inv by (simp add: g_inv_def)
qed

interpretation flight: inductive_invariant "g_init n hash" gstep "\<lambda>_. True" g_inv
  for n hash
proof unfold_locales
  fix s
  assume "g_init n hash s"
  then obtain c where c: "cache_make n hash = Some c"
      "s = \<lparr>g_cache = c, g_threads = (\<lambda>_. G_idle), g_results = (\<lambda>_. None), g_next = 0\<rparr>"
    by (auto simp: g_init_def)
  have "sh_in_flight (shard_for k c) = []" for k
    using c(1) shard_index_less [OF cache_make_ok(1) [OF c(1)], of k]
    by (auto simp: cache_make_def shard_for_def split: if_splits)
  then show "g_inv s"
    using cache_make_ok(1) [OF c(1)] by (simp add: c(2) g_inv_def flight_inv_def promise_inv_def flights_def)
qed (rule g_step)

section \<open>Properties\<close>

text \<open>C5: Stampede protection.  In every state that any interleaving of \<open>get_or_create\<close> with itself and with
  insertions, erasures, lookups and purges reaches, two threads never run the factory for the same key.\<close>

theorem single_flight:
  assumes "reach (g_init n hash) gstep (\<lambda>_. True) s"
    and "g_threads s i = G_factory k ttl st" and "g_threads s j = G_factory k' ttl' st'" and "i \<noteq> j"
  shows "k \<noteq> k'"
proof
  assume kk: "k = k'"
  have fl: "flight_inv (flights (g_cache s)) (g_threads s)"
    using flight.reach_inv [OF assms(1)] by (simp add: g_inv_def)
  have "flights (g_cache s) k = Some st" "flights (g_cache s) k = Some st'"
    using flight_invD(1) [OF fl, of i k st] flight_invD(1) [OF fl, of j k' st'] assms(2,3) kk by simp_all
  with flight_invD(3) [OF fl, of i k st j k'] assms(2-4) show False by simp
qed


text \<open>A factory state's promise is set at most once: a thread that is about to set one finds it unset, so
  \<open>set_value\<close> and \<open>set_exception\<close> never throw \<open>promise_already_satisfied\<close>; and the thread that publishes
  still owns the registration it erases.\<close>

lemma promise_set_once:
  assumes "reach (g_init n hash) gstep (\<lambda>_. True) s"
  shows "(promises (g_threads s i) = Some st \<longrightarrow> g_results s st = None)
       \<and> (holds (g_threads s i) = Some (k, st) \<longrightarrow> flights (g_cache s) k = Some st)"
  using flight.reach_inv [OF assms] flight_invD(1) promise_invD(2) unfolding g_inv_def by fast

text \<open>A run: thread 0 registers for key 5, thread 1 finds it in flight and waits.\<close>

definition demo_g0 :: "(nat, nat) gsys" where
  "demo_g0 = \<lparr>g_cache = demo_cache, g_threads = (\<lambda>_. G_idle), g_results = (\<lambda>_. None), g_next = 0\<rparr>"

definition demo_flight :: "(nat, nat) cache" where
  "demo_flight = demo_cache\<lparr>c_shards := [\<lparr>sh_values = [], sh_in_flight = []\<rparr>, \<lparr>sh_values = [], sh_in_flight = [(5, 0)]\<rparr>]\<rparr>"

definition demo_waiting :: "(nat, nat) gsys" where
  "demo_waiting = \<lparr>g_cache = demo_flight, g_threads = (\<lambda>_. G_idle)(0 := G_factory 5 60 0, 1 := G_wait 5 0),
     g_results = (\<lambda>_. None), g_next = 1\<rparr>"

definition demo_owner :: "(nat, nat) gsys" where
  "demo_owner = \<lparr>g_cache = demo_flight, g_threads = (\<lambda>_. G_idle)(0 := G_factory 5 60 0),
     g_results = (\<lambda>_. None), g_next = 1\<rparr>"

lemmas demo_eval =
  demo_g0_def demo_cache_def demo_flight_def demo_owner_def after_lookup_def internal_fast_get_def after_register_def
  register_factory_def set_thread_def shard_for_def shard_index_def put_shard_def span_size_def

lemma demo_owner_reach: "reach (g_init 2 of_nat) gstep (\<lambda>_. True) demo_owner"
proof -
  have init: "reach (g_init 2 of_nat) gstep (\<lambda>_. True) demo_g0"
    by (intro reach_init) (simp add: g_init_def demo_cache_make demo_g0_def)
  let ?s = "set_thread 0 (G_miss 5 60) demo_g0"
  have "gstep demo_g0 (GL_call 0 5 60 10) ?s"
    using gs_call [of demo_g0 0 5 60 10] by (simp add: demo_eval)
  moreover have "gstep ?s (GL_register 0 10) demo_owner"
    using gs_register [of ?s 0 5 60 10] by (simp add: demo_eval)
  ultimately show ?thesis using reach_run [OF _ init] by (fastforce intro: run.intros)
qed

lemma demo_waiting_reach: "reach (g_init 2 of_nat) gstep (\<lambda>_. True) demo_waiting"
proof -
  let ?s = "set_thread 1 (G_miss 5 60) demo_owner"
  have "gstep demo_owner (GL_call 1 5 60 11) ?s"
    using gs_call [of demo_owner 1 5 60 11] by (simp add: demo_eval)
  moreover have "gstep ?s (GL_register 1 11) demo_waiting"
    using gs_register [of ?s 1 5 60 11] by (simp add: demo_eval demo_waiting_def)
  ultimately show ?thesis using reach_run [OF _ demo_owner_reach] by (fastforce intro: run.intros)
qed

text \<open>A run with two factories, for different keys.\<close>

definition demo_two :: "(nat, nat) gsys" where
  "demo_two = demo_owner
     \<lparr>g_cache := demo_cache\<lparr>c_shards := [\<lparr>sh_values = [], sh_in_flight = [(4, 1)]\<rparr>,
                                          \<lparr>sh_values = [], sh_in_flight = [(5, 0)]\<rparr>]\<rparr>,
      g_threads := (\<lambda>_. G_idle)(0 := G_factory 5 60 0, 1 := G_factory 4 60 1), g_next := Suc (Suc 0)\<rparr>"

lemma demo_two_reach: "reach (g_init 2 of_nat) gstep (\<lambda>_. True) demo_two"
proof -
  let ?s = "set_thread 1 (G_miss 4 60) demo_owner"
  have "gstep demo_owner (GL_call 1 4 60 11) ?s"
    using gs_call [of demo_owner 1 4 60 11] by (simp add: demo_eval)
  moreover have "gstep ?s (GL_register 1 11) demo_two"
    using gs_register [of ?s 1 4 60 11] by (simp add: demo_eval demo_two_def)
  ultimately show ?thesis using reach_run [OF _ demo_owner_reach] by (fastforce intro: run.intros)
qed

lemma single_flight_witness:
  "g_threads demo_two 0 = G_factory 5 60 0 \<and> g_threads demo_two 1 = G_factory 4 60 1 \<and> (5::nat) \<noteq> 4"
  using single_flight [OF demo_two_reach, of 0 5 60 0 1 4 60 1] by (simp add: demo_two_def)


lemma promise_set_once_witness:
  "promises (g_threads demo_waiting 0) = Some 0 \<and> g_results demo_waiting 0 = None \<and> flights (g_cache demo_waiting) 5 = Some 0"
  using promise_set_once [OF demo_waiting_reach, of 0 0 5] by (simp add: demo_waiting_def)

section \<open>Creation without interference\<close>

lemma live_mono: "t \<le> t' \<Longrightarrow> live t x = None \<Longrightarrow> live t' x = None"
  by (cases x) (auto simp: expired_def split: if_splits)

lemma publish_miss:
  assumes "live now (map_of (sh_values sh) k) = None"
  shows "publish now k e sh = (e_value e, sh\<lparr>sh_values := map_put k e (sh_values sh), sh_in_flight := map_erase k (sh_in_flight sh)\<rparr>)"
  using assms by (auto simp: publish_def live_None_iff split: option.split)

lemma register_miss:
  assumes "live now (map_of (sh_values sh) k) = None" and "map_of (sh_in_flight sh) k = None"
  shows "register_factory now n k sh = (Reg_own, sh\<lparr>sh_in_flight := (k, n) # sh_in_flight sh\<rparr>)"
  using assms by (auto simp: register_factory_def live_None_iff split: option.split)

lemma fast_get_miss:
  assumes "live now (map_of (sh_values sh) k) = None"
  shows "\<exists>r. internal_fast_get now k sh = (r, None) \<and> r \<noteq> lookup_found"
  using assms by (auto simp: internal_fast_get_def live_None_iff split: option.split)

lemma map_erase_id: "map_of xs k = None \<Longrightarrow> map_erase k xs = xs"
  by (induction xs) (auto simp: map_erase_def split: if_splits)

text \<open>C6: \<open>get_or_create\<close> without interference.  A live entry is returned and the factory is not called.  On a miss
  the value of the factory is stored with its time to live and returned; if the factory throws, its
  exception is passed on, the contents are unchanged and no registration is left behind.\<close>

theorem get_or_create_correct:
  assumes "cache_ok c" and "flights c k = None"
    and "now1 \<le> now2" and "now2 \<le> now4" and "expiration_time now3 ttl = Some t"
  shows "\<exists>c'. get_or_create now1 now2 now3 now4 fresh k ttl factory c =
             Some (case live now1 (entries c k) of
                     Some v \<Rightarrow> Inr (Some v)
                   | None \<Rightarrow> (case factory k of Inl err \<Rightarrow> Inl err | Inr v \<Rightarrow> Inr (Some v)), c')
         \<and> cache_ok c' \<and> flights c' = flights c
         \<and> entries c' = (case live now1 (entries c k) of
             Some v \<Rightarrow> entries c
           | None \<Rightarrow> (case factory k of Inl err \<Rightarrow> entries c
                      | Inr v \<Rightarrow> (entries c)(k \<mapsto> \<lparr>e_value = v, e_expires_at = t\<rparr>)))"
proof (cases "live now1 (entries c k)")
  case (Some v)
  then have "internal_fast_get now1 k (shard_for k c) = (lookup_found, Some v)"
    by (auto simp: internal_fast_get_def entries_def live_Some_iff)
  with Some assms(1) show ?thesis by (simp add: get_or_create_def)
next
  case None
  let ?sh = "shard_for k c"
  have miss: "live now1 (map_of (sh_values ?sh) k) = None" "live now2 (map_of (sh_values ?sh) k) = None"
      "live now4 (map_of (sh_values ?sh) k) = None"
    using None live_mono [of now1 now2 "entries c k"] live_mono [of now1 now4 "entries c k"] assms(3,4) by (simp_all add: entries_def)
  have fl: "map_of (sh_in_flight ?sh) k = None" using assms(2) by (simp add: flights_def)
  let ?sh1 = "?sh\<lparr>sh_in_flight := (k, fresh) # sh_in_flight ?sh\<rparr>"
  have restored: "map_erase k ((k, fresh) # sh_in_flight ?sh) = sh_in_flight ?sh"
    using map_erase_id [OF fl] by (simp add: map_erase_def)
  obtain r where r: "internal_fast_get now1 k ?sh = (r, None)" "r \<noteq> lookup_found"
    using fast_get_miss [OF miss(1)] by blast
  show ?thesis
  proof (cases "factory k")
    case (Inl err)
    have "remove_in_flight k fresh ?sh1 = ?sh" using restored by (simp add: remove_in_flight_def)
    then have "get_or_create now1 now2 now3 now4 fresh k ttl factory c = Some (Inl err, c)"
      using r register_miss [OF miss(2) fl] Inl put_shard_self [OF assms(1)]
      by (cases r) (simp_all add: get_or_create_def)
    with None Inl assms(1) show ?thesis by simp
  next
    case (Inr v)
    let ?e = "\<lparr>e_value = v, e_expires_at = t\<rparr>"
    have "publish now4 k ?e ?sh1 = (v, ?sh\<lparr>sh_values := map_put k ?e (sh_values ?sh)\<rparr>)"
      using publish_miss [of now4 ?sh1 k ?e] miss(3) restored by simp
    then have "get_or_create now1 now2 now3 now4 fresh k ttl factory c = Some (Inr (Some v), cache_put k ?e c)"
      using r register_miss [OF miss(2) fl] Inr assms(5)
      by (cases r) (simp_all add: get_or_create_def cache_put_def)
    with None Inr cache_put_ok [OF assms(1)] cache_put_flights [OF assms(1)] show ?thesis by simp
  qed
qed

lemma get_or_create_correct_witness:
  "\<exists>c'. get_or_create 200 200 201 202 0 2 50 (\<lambda>k. Inr (k + 1)) demo_filled = Some (Inr (Some 3), c')
     \<and> entries c' 2 = Some \<lparr>e_value = 3, e_expires_at = 251\<rparr> \<and> flights c' = flights demo_filled"
proof -
  have e: "entries demo_filled 2 = Some \<lparr>e_value = 20, e_expires_at = 150\<rparr>" "flights demo_filled 2 = None"
    by (simp_all add: entries_def flights_def shard_for_def shard_index_def demo_filled_def demo_cache_def span_size_def)
  have t: "expiration_time 201 50 = Some 251" by (simp add: expiration_time_def max_time_def)
  have "live 200 (entries demo_filled 2) = None" by (simp add: e(1) expired_def no_expiration_time_def min_time_def)
  with get_or_create_correct [OF demo_filled_ok e(2) _ _ t, of 200 200 202 0 "\<lambda>k. Inr (k + 1)"] show ?thesis
    by auto
qed

end
