(* ===== verification/Text_Format.thy ===== *)
theory Text_Format
  imports Xtd_Prelude
begin

text \<open>
  The conversions of \<open>std::format\<close> and \<open>std::to_string\<close> that the logging code uses: \<open>{}\<close> and
  \<open>{:06}\<close> on integers and \<open>{:04x}\<close> on a byte; and of the string operations \<open>starts_with\<close>, \<open>find\<close>,
  \<open>rfind\<close> and \<open>substr\<close>.  A \<open>std::string\<close> is a HOL string; a \<open>char\<close> counts as unsigned where the code
  casts it.
\<close>

section \<open>Digits\<close>

definition digit :: "nat \<Rightarrow> char" where
  "digit n = char_of (if n < 10 then 48 + n else 87 + n)"

definition is_digit :: "char \<Rightarrow> bool" where
  "is_digit c \<longleftrightarrow> 48 \<le> (of_char c :: nat) \<and> of_char c \<le> (57 :: nat)"

definition digit_value :: "char \<Rightarrow> nat" where
  "digit_value c = of_char c - 48"

fun dec :: "nat \<Rightarrow> string" where
  "dec n = (if n < 10 then [digit n] else dec (n div 10) @ [digit (n mod 10)])"

declare dec.simps [simp del]

definition undec :: "string \<Rightarrow> nat" where
  "undec ds = foldl (\<lambda>n c. 10 * n + digit_value c) 0 ds"

text \<open>\<open>std::to_string\<close> and \<open>{}\<close> on a signed integer.\<close>

definition int_dec :: "int \<Rightarrow> string" where
  "int_dec k = (if k < 0 then CHR ''-'' # dec (nat (- k)) else dec (nat k))"

text \<open>Zero padding goes between the sign and the digits, as in \<open>{:06}\<close>.\<close>

definition pad_zeros :: "nat \<Rightarrow> string \<Rightarrow> string" where
  "pad_zeros w s = replicate (w - length s) (CHR ''0'') @ s"

definition int_dec_padded :: "nat \<Rightarrow> int \<Rightarrow> string" where
  "int_dec_padded w k =
     (if k < 0 then CHR ''-'' # pad_zeros (w - 1) (dec (nat (- k))) else pad_zeros w (dec (nat k)))"

definition hex4 :: "nat \<Rightarrow> string" where
  "hex4 n = [digit (n div 4096 mod 16), digit (n div 256 mod 16), digit (n div 16 mod 16), digit (n mod 16)]"

lemma of_char_digit [simp]: "n < 10 \<Longrightarrow> (of_char (digit n) :: nat) = 48 + n"
  by (simp add: digit_def)

lemma of_char_hex_digit: "n < 16 \<Longrightarrow> (of_char (digit n) :: nat) = (if n < 10 then 48 + n else 87 + n)"
  by (simp add: digit_def)

lemma digit_value_digit [simp]: "n < 10 \<Longrightarrow> digit_value (digit n) = n"
  by (simp add: digit_value_def)

lemma is_digit_digit [simp]: "n < 10 \<Longrightarrow> is_digit (digit n)"
  by (simp add: is_digit_def)

lemma dec_digits: "c \<in> set (dec n) \<Longrightarrow> is_digit c"
proof (induction n rule: dec.induct)
  case (1 n)
  show ?case
  proof (cases "n < 10")
    case True
    with 1(2) show ?thesis by (simp add: dec.simps [of n])
  next
    case False
    with 1 show ?thesis by (auto simp: dec.simps [of n])
  qed
qed

lemma dec_not_Nil [simp]: "dec n \<noteq> []"
  by (simp add: dec.simps [of n])

lemma undec_append: "undec (xs @ [c]) = 10 * undec xs + digit_value c"
  by (simp add: undec_def)

lemma undec_dec [simp]: "undec (dec n) = n"
proof (induction n rule: dec.induct)
  case (1 n)
  show ?case
  proof (cases "n < 10")
    case True
    then show ?thesis by (simp add: dec.simps [of n] undec_def)
  next
    case False
    with 1 show ?thesis by (subst dec.simps) (simp add: undec_append)
  qed
qed

lemma dec_inj: "dec m = dec n \<longleftrightarrow> m = n"
  by (metis undec_dec)

section \<open>Searching strings\<close>

fun find_char :: "char \<Rightarrow> string \<Rightarrow> nat option" where
  "find_char c [] = None"
| "find_char c (x # xs) = (if x = c then Some 0 else map_option Suc (find_char c xs))"

definition rfind_char :: "char \<Rightarrow> string \<Rightarrow> nat option" where
  "rfind_char c s = map_option (\<lambda>i. length s - Suc i) (find_char c (rev s))"

definition starts_with :: "string \<Rightarrow> string \<Rightarrow> bool" where
  "starts_with p s \<longleftrightarrow> take (length p) s = p"

lemma find_char_None [simp]: "find_char c s = None \<longleftrightarrow> c \<notin> set s"
  by (induction s) auto

lemma find_char_append: "c \<notin> set xs \<Longrightarrow> find_char c (xs @ c # ys) = Some (length xs)"
  by (induction xs) auto

lemma find_char_Some:
  "find_char c s = Some i \<Longrightarrow> i < length s \<and> s ! i = c \<and> c \<notin> set (take i s)"
  by (induction s arbitrary: i) (auto split: if_splits)

lemma rfind_char_None [simp]: "rfind_char c s = None \<longleftrightarrow> c \<notin> set s"
  by (simp add: rfind_char_def)

lemma rfind_char_append: "c \<notin> set ys \<Longrightarrow> rfind_char c (xs @ c # ys) = Some (length xs)"
  by (simp add: rfind_char_def find_char_append)

end
