(* ===== verification/Json.thy ===== *)
theory Json
  imports Text_Format
begin

text \<open>
  JSON, the reference for the serializer: values, a printer, and a strict parser for texts without
  white space.  Strings are byte strings: bytes from \<open>0x20\<close> stand for themselves, the parser refuses
  raw control characters, and an escape \<open>\u\<close> is accepted for code points below \<open>0x80\<close>.

  \<open>escape_json\<close> is the function of \<open>logging/sinks/otel_serializer.h\<close>.  In the templates of this
  development a backquote stands for the double quote of the source.
\<close>

section \<open>Escaping\<close>

definition quote :: char where "quote = CHR 0x22"

definition backslash :: char where "backslash = CHR 0x5C"

text \<open>A template of the source: each backquote is a double quote.\<close>

definition tmpl :: "string \<Rightarrow> string" where
  "tmpl s = map (\<lambda>c. if c = CHR 0x60 then CHR 0x22 else c) s"

definition escape_char :: "char \<Rightarrow> string" where
  "escape_char c =
     (if c = CHR 0x22 then [CHR 0x5C, CHR 0x22]
      else if c = CHR 0x5C then [CHR 0x5C, CHR 0x5C]
      else if c = CHR 0x08 then [CHR 0x5C, CHR ''b'']
      else if c = CHR 0x0C then [CHR 0x5C, CHR ''f'']
      else if c = CHR 0x0A then [CHR 0x5C, CHR ''n'']
      else if c = CHR 0x0D then [CHR 0x5C, CHR ''r'']
      else if c = CHR 0x09 then [CHR 0x5C, CHR ''t'']
      else if (of_char c :: nat) < 0x20 then CHR 0x5C # CHR ''u'' # hex4 (of_char c)
      else [c])"

fun escape_json :: "string \<Rightarrow> string" where
  "escape_json [] = []"
| "escape_json (c # cs) = escape_char c @ escape_json cs"

section \<open>Values and their printer\<close>

datatype json = JStr string | JNum nat | JArr "json list" | JObj "(string \<times> json) list"

fun commas :: "string list \<Rightarrow> string" where
  "commas [] = []"
| "commas [s] = s"
| "commas (s # t # ss) = s @ '','' @ commas (t # ss)"

definition print_string :: "string \<Rightarrow> string" where
  "print_string s = [quote] @ escape_json s @ [quote]"

fun print_json :: "json \<Rightarrow> string" where
  "print_json (JStr s) = print_string s"
| "print_json (JNum n) = dec n"
| "print_json (JArr vs) = ''['' @ commas (map print_json vs) @ '']''"
| "print_json (JObj kvs) = ''{'' @ commas (map (\<lambda>(k, v). print_string k @ '':'' @ print_json v) kvs) @ ''}''"

section \<open>The parser\<close>

definition hex_value :: "char \<Rightarrow> nat option" where
  "hex_value c =
     (let n = of_char c :: nat in
      if 48 \<le> n \<and> n \<le> 57 then Some (n - 48)
      else if 97 \<le> n \<and> n \<le> 102 then Some (n - 87)
      else if 65 \<le> n \<and> n \<le> 70 then Some (n - 55)
      else None)"

definition unhex4 :: "char \<Rightarrow> char \<Rightarrow> char \<Rightarrow> char \<Rightarrow> char option" where
  "unhex4 a b c d =
     (case (hex_value a, hex_value b, hex_value c, hex_value d) of
        (Some w, Some x, Some y, Some z) \<Rightarrow>
          let n = 4096 * w + 256 * x + 16 * y + z in if n < 0x80 then Some (char_of n) else None
      | _ \<Rightarrow> None)"

definition unescape_char :: "char \<Rightarrow> char option" where
  "unescape_char c =
     (if c = CHR 0x22 then Some (CHR 0x22)
      else if c = CHR 0x5C then Some (CHR 0x5C)
      else if c = CHR ''/'' then Some (CHR ''/'')
      else if c = CHR ''b'' then Some (CHR 0x08)
      else if c = CHR ''f'' then Some (CHR 0x0C)
      else if c = CHR ''n'' then Some (CHR 0x0A)
      else if c = CHR ''r'' then Some (CHR 0x0D)
      else if c = CHR ''t'' then Some (CHR 0x09)
      else None)"

definition push_char :: "char \<Rightarrow> (string \<times> string) option \<Rightarrow> (string \<times> string) option" where
  "push_char c r = map_option (\<lambda>(s, rest). (c # s, rest)) r"

text \<open>The characters of a string up to the closing quote, and the text after it.\<close>

fun parse_chars :: "string \<Rightarrow> (string \<times> string) option" where
  "parse_chars [] = None"
| "parse_chars (c # cs) =
     (if c = CHR 0x22 then Some ([], cs)
      else if c = CHR 0x5C then
        (case cs of
           [] \<Rightarrow> None
         | e # es \<Rightarrow>
             if e = CHR ''u'' then
               (case es of
                  h1 # h2 # h3 # h4 # rest \<Rightarrow>
                    (case unhex4 h1 h2 h3 h4 of None \<Rightarrow> None | Some x \<Rightarrow> push_char x (parse_chars rest))
                | _ \<Rightarrow> None)
             else (case unescape_char e of None \<Rightarrow> None | Some x \<Rightarrow> push_char x (parse_chars es)))
      else if (of_char c :: nat) < 0x20 then None
      else push_char c (parse_chars cs))"

definition parse_number :: "string \<Rightarrow> (json \<times> string) option" where
  "parse_number s =
     (let ds = takeWhile is_digit s in
      if ds = [] \<or> (length ds > 1 \<and> hd ds = CHR ''0'') then None
      else Some (JNum (undec ds), dropWhile is_digit s))"

fun parse_value :: "nat \<Rightarrow> string \<Rightarrow> (json \<times> string) option"
  and parse_elements :: "nat \<Rightarrow> string \<Rightarrow> (json list \<times> string) option"
  and parse_members :: "nat \<Rightarrow> string \<Rightarrow> ((string \<times> json) list \<times> string) option"
where
  "parse_value 0 s = None"
| "parse_value (Suc n) s =
     (case s of
        [] \<Rightarrow> None
      | c # cs \<Rightarrow>
          if c = CHR 0x22 then map_option (\<lambda>(t, rest). (JStr t, rest)) (parse_chars cs)
          else if c = CHR ''['' then
            (if cs \<noteq> [] \<and> hd cs = CHR '']'' then Some (JArr [], tl cs)
             else map_option (\<lambda>(vs, rest). (JArr vs, rest)) (parse_elements n cs))
          else if c = CHR ''{'' then
            (if cs \<noteq> [] \<and> hd cs = CHR ''}'' then Some (JObj [], tl cs)
             else map_option (\<lambda>(kvs, rest). (JObj kvs, rest)) (parse_members n cs))
          else parse_number s)"
| "parse_elements 0 s = None"
| "parse_elements (Suc n) s =
     (case parse_value n s of
        None \<Rightarrow> None
      | Some (v, rest) \<Rightarrow>
          (case rest of
             [] \<Rightarrow> None
           | c # cs \<Rightarrow>
               if c = CHR '']'' then Some ([v], cs)
               else if c = CHR '','' then map_option (\<lambda>(vs, r). (v # vs, r)) (parse_elements n cs)
               else None))"
| "parse_members 0 s = None"
| "parse_members (Suc n) s =
     (case s of
        [] \<Rightarrow> None
      | q # qs \<Rightarrow>
          if q \<noteq> CHR 0x22 then None
          else
            (case parse_chars qs of
               None \<Rightarrow> None
             | Some (k, r1) \<Rightarrow>
                 (case r1 of
                    [] \<Rightarrow> None
                  | d # ds \<Rightarrow>
                      if d \<noteq> CHR '':'' then None
                      else
                        (case parse_value n ds of
                           None \<Rightarrow> None
                         | Some (v, rest) \<Rightarrow>
                             (case rest of
                                [] \<Rightarrow> None
                              | c # cs \<Rightarrow>
                                  if c = CHR ''}'' then Some ([(k, v)], cs)
                                  else if c = CHR '','' then
                                    map_option (\<lambda>(kvs, r). ((k, v) # kvs, r)) (parse_members n cs)
                                  else None)))))"

definition parse_json :: "string \<Rightarrow> json option" where
  "parse_json s = (case parse_value (length s) s of Some (v, []) \<Rightarrow> Some v | _ \<Rightarrow> None)"

section \<open>Strings: parsing after escaping\<close>

lemma hex_value_digit [simp]: "n < 16 \<Longrightarrow> hex_value (digit n) = Some n"
  by (auto simp: hex_value_def of_char_hex_digit Let_def)

lemma unhex4_hex4:
  assumes "n < 0x20"
  shows "\<exists>a b c d. hex4 n = [a, b, c, d] \<and> unhex4 a b c d = Some (char_of n)"
proof -
  have "n div 4096 = 0" "n div 256 = 0" "n div 16 mod 16 = n div 16" using assms by simp_all
  then show ?thesis using assms by (simp add: hex4_def unhex4_def Let_def)
qed

lemma push_char_Some [simp]: "push_char c (Some (s, rest)) = Some (c # s, rest)"
  by (simp add: push_char_def)

lemma parse_escaped_char:
  assumes "parse_chars t = Some (s, rest)"
  shows "parse_chars (escape_char c @ t) = Some (c # s, rest)"
proof (cases "(of_char c :: nat) < 0x20")
  case True
  from unhex4_hex4 [OF True] obtain h1 h2 h3 h4 where
    "hex4 (of_char c) = [h1, h2, h3, h4]" "unhex4 h1 h2 h3 h4 = Some c"
    by (auto simp: of_char_of)
  then show ?thesis using assms True by (auto simp: escape_char_def unescape_char_def)
next
  case False
  then show ?thesis using assms by (auto simp: escape_char_def unescape_char_def)
qed

lemma parse_escape_json: "parse_chars (escape_json s @ quote # rest) = Some (s, rest)"
  by (induction s) (simp_all add: quote_def parse_escaped_char del: parse_chars.simps(2), simp)

lemma escape_char_safe: "x \<in> set (escape_char c) \<Longrightarrow> (of_char x :: nat) \<ge> 0x20"
  by (auto simp: escape_char_def hex4_def of_char_hex_digit split: if_splits)

text \<open>Text without quotes, backslashes and control characters is its own escaped form.\<close>

definition plain_char :: "char \<Rightarrow> bool" where
  "plain_char c \<longleftrightarrow> c \<noteq> CHR 0x22 \<and> c \<noteq> CHR 0x5C \<and> (of_char c :: nat) \<ge> 0x20"

lemma escape_char_plain: "plain_char c \<Longrightarrow> escape_char c = [c]"
  by (auto simp: plain_char_def escape_char_def)

lemma escape_json_plain: "(\<And>c. c \<in> set s \<Longrightarrow> plain_char c) \<Longrightarrow> escape_json s = s"
  by (induction s) (simp_all add: escape_char_plain)

lemma escape_json_append [simp]: "escape_json (s @ t) = escape_json s @ escape_json t"
  by (induction s) simp_all

lemma plain_digit: "is_digit c \<Longrightarrow> plain_char c"
  by (auto simp: plain_char_def is_digit_def)

lemma escape_dec [simp]: "escape_json (dec n) = dec n"
  by (rule escape_json_plain) (rule plain_digit, rule dec_digits)

section \<open>Values: parsing after printing\<close>

definition stops_number :: "string \<Rightarrow> bool" where
  "stops_number s \<longleftrightarrow> (case s of [] \<Rightarrow> True | c # cs \<Rightarrow> \<not> is_digit c)"

lemma hd_dec_append [simp]: "hd (dec n @ s) = hd (dec n)"
  by simp

lemma dec_first: "is_digit (hd (dec n))"
  by (rule dec_digits [of _ n]) simp

lemma dec_no_leading_zero: "length (dec n) > 1 \<Longrightarrow> hd (dec n) \<noteq> CHR ''0''"
proof (induction n rule: dec.induct)
  case (1 n)
  show ?case
  proof (cases "n < 10")
    case True
    with 1(2) show ?thesis by (simp add: dec.simps [of n])
  next
    case big: False
    show ?thesis
    proof (cases "n div 10 < 10")
      case True
      moreover have "n div 10 \<noteq> 0" using big by auto
      moreover have "digit k \<noteq> CHR ''0''" if "0 < k" "k < 10" for k
      proof
        assume "digit k = CHR ''0''"
        then have "(of_char (digit k) :: nat) = 48" by simp
        with that show False by simp
      qed
      ultimately show ?thesis using big by (subst dec.simps) (simp add: dec.simps [of "n div 10"])
    next
      case False
      then have "length (dec (n div 10)) > 1" by (simp add: dec.simps [of "n div 10"])
      from 1(1) [OF big this] big show ?thesis by (subst dec.simps) simp
    qed
  qed
qed

lemma takeWhile_dec: "stops_number rest \<Longrightarrow> takeWhile is_digit (dec n @ rest) = dec n"
  by (cases rest) (simp_all add: takeWhile_append2 dec_digits stops_number_def)

lemma dropWhile_dec: "stops_number rest \<Longrightarrow> dropWhile is_digit (dec n @ rest) = rest"
  by (cases rest) (simp_all add: dropWhile_append2 dec_digits stops_number_def)

lemma parse_dec: "stops_number rest \<Longrightarrow> parse_number (dec n @ rest) = Some (JNum n, rest)"
  using dec_no_leading_zero [of n]
  by (auto simp: parse_number_def Let_def takeWhile_dec dropWhile_dec)

lemma print_json_first:
  "\<exists>c cs. print_json v = c # cs \<and> c \<noteq> CHR '']'' \<and> c \<noteq> CHR ''}''"
proof (cases v)
  case (JNum n)
  have "hd (dec n) \<noteq> CHR '']''" "hd (dec n) \<noteq> CHR ''}''" using dec_first [of n] by (auto simp: is_digit_def)
  moreover have "dec n = hd (dec n) # tl (dec n)" by simp
  ultimately show ?thesis using JNum by (metis print_json.simps(2))
qed (auto simp: print_string_def quote_def)

lemma parse_value_number:
  assumes "stops_number rest" and "n > 0"
  shows "parse_value n (dec k @ rest) = Some (JNum k, rest)"
proof -
  obtain c cs where dec: "dec k = c # cs" by (cases "dec k") auto
  with dec_first [of k] have "c \<noteq> CHR 0x22" "c \<noteq> CHR ''[''" "c \<noteq> CHR ''{''" by (auto simp: is_digit_def)
  with assms parse_dec [OF assms(1), of k] dec show ?thesis by (cases n) simp_all
qed

text \<open>What a value has to satisfy for lists of values to be parsed back.\<close>

definition parses_back :: "json \<Rightarrow> bool" where
  "parses_back v \<longleftrightarrow>
     (\<forall>n rest. stops_number rest \<longrightarrow> length (print_json v) \<le> n
        \<longrightarrow> parse_value n (print_json v @ rest) = Some (v, rest))"

lemma parses_backD:
  "parses_back v \<Longrightarrow> stops_number rest \<Longrightarrow> length (print_json v) \<le> n
     \<Longrightarrow> parse_value n (print_json v @ rest) = Some (v, rest)"
  by (simp add: parses_back_def)

lemma parse_printed_elements:
  assumes "vs \<noteq> []" and "\<And>v. v \<in> set vs \<Longrightarrow> parses_back v"
    and "length (commas (map print_json vs)) < n"
  shows "parse_elements n (commas (map print_json vs) @ '']'' @ rest) = Some (vs, rest)"
  using assms
proof (induction vs arbitrary: n)
  case (Cons v vs)
  then obtain m where n: "n = Suc m" by (cases n) auto
  show ?case
  proof (cases vs)
    case Nil
    have "parse_value m (print_json v @ '']'' @ rest) = Some (v, '']'' @ rest)"
      using Cons.prems n Nil by (intro parses_backD) (simp_all add: stops_number_def is_digit_def)
    then show ?thesis by (simp add: n Nil)
  next
    case (Cons w ws)
    let ?more = "commas (map print_json vs)"
    have len: "length (commas (map print_json (v # vs))) = length (print_json v) + 1 + length ?more"
      using Cons by simp
    have "parse_value m (print_json v @ '','' @ ?more @ '']'' @ rest)
        = Some (v, '','' @ ?more @ '']'' @ rest)"
      using Cons.prems n len by (intro parses_backD) (simp_all add: stops_number_def is_digit_def)
    moreover have "parse_elements m (?more @ '']'' @ rest) = Some (vs, rest)"
      using Cons.prems n len Cons by (intro Cons.IH) simp_all
    ultimately show ?thesis using Cons by (simp add: n)
  qed
qed simp

definition print_member :: "string \<times> json \<Rightarrow> string" where
  "print_member kv = print_string (fst kv) @ '':'' @ print_json (snd kv)"

lemma print_object: "print_json (JObj kvs) = ''{'' @ commas (map print_member kvs) @ ''}''"
  by (simp add: print_member_def case_prod_beta cong: map_cong)

lemma parse_printed_members:
  assumes "kvs \<noteq> []" and "\<And>k v. (k, v) \<in> set kvs \<Longrightarrow> parses_back v"
    and "length (commas (map print_member kvs)) < n"
  shows "parse_members n (commas (map print_member kvs) @ ''}'' @ rest) = Some (kvs, rest)"
  using assms
proof (induction kvs arbitrary: n)
  case (Cons kv kvs)
  obtain k v where kv: "kv = (k, v)" by (cases kv)
  from Cons.prems obtain m where n: "n = Suc m" by (cases n) auto
  have vback: "parses_back v" using Cons.prems(2) [of k v] kv by simp
  have key: "parse_chars (escape_json k @ quote # s) = Some (k, s)" for s
    by (rule parse_escape_json)
  show ?case
  proof (cases kvs)
    case Nil
    have "parse_value m (print_json v @ ''}'' @ rest) = Some (v, ''}'' @ rest)"
      using Cons.prems(3) n Nil kv vback
      by (intro parses_backD) (simp_all add: stops_number_def is_digit_def print_member_def)
    then show ?thesis using key by (simp add: n Nil kv print_member_def print_string_def quote_def)
  next
    case (Cons w ws)
    let ?more = "commas (map print_member kvs)"
    have len: "length (commas (map print_member (kv # kvs)))
        = length (print_string k) + 2 + length (print_json v) + length ?more"
      using Cons kv by (simp add: print_member_def)
    have "parse_value m (print_json v @ '','' @ ?more @ ''}'' @ rest)
        = Some (v, '','' @ ?more @ ''}'' @ rest)"
      using Cons.prems(3) n len vback by (intro parses_backD) (simp_all add: stops_number_def is_digit_def)
    moreover have "parse_members m (?more @ ''}'' @ rest) = Some (kvs, rest)"
      using Cons.prems n len Cons by (intro Cons.IH) auto
    ultimately show ?thesis using key Cons
      by (simp add: n kv print_member_def [of "(k, v)"] print_string_def quote_def)
  qed
qed simp

lemma commas_Cons_first: "\<exists>t. commas (s # ss) = s @ t"
  by (cases ss) auto

lemma print_parses_back: "parses_back v"
proof (induction v)
  case (JStr s)
  show ?case unfolding parses_back_def
  proof (intro allI impI)
    fix n :: nat and rest :: string
    assume "length (print_json (JStr s)) \<le> n"
    then obtain m where "n = Suc m" by (cases n) (auto simp: print_string_def)
    then show "parse_value n (print_json (JStr s) @ rest) = Some (JStr s, rest)"
      using parse_escape_json [of s rest] by (simp add: print_string_def quote_def)
  qed
next
  case (JNum k)
  have "0 < n" if "length (dec k) \<le> n" for n using that by (cases n) auto
  then show ?case by (auto simp: parses_back_def intro!: parse_value_number)
next
  case (JArr vs)
  show ?case unfolding parses_back_def
  proof (intro allI impI)
    fix n :: nat and rest :: string
    assume len: "length (print_json (JArr vs)) \<le> n"
    then obtain m where n: "n = Suc m" by (cases n) auto
    show "parse_value n (print_json (JArr vs) @ rest) = Some (JArr vs, rest)"
    proof (cases vs)
      case Nil
      then show ?thesis by (simp add: n)
    next
      case (Cons w ws)
      obtain c cs where "commas (map print_json vs) = c # cs" "c \<noteq> CHR '']''"
        using print_json_first [of w] commas_Cons_first [of "print_json w" "map print_json ws"] Cons by auto
      moreover have "parse_elements m (commas (map print_json vs) @ '']'' @ rest) = Some (vs, rest)"
        using len n Cons JArr by (intro parse_printed_elements) auto
      ultimately show ?thesis by (simp add: n)
    qed
  qed
next
  case (JObj kvs)
  show ?case unfolding parses_back_def
  proof (intro allI impI)
    fix n :: nat and rest :: string
    assume len: "length (print_json (JObj kvs)) \<le> n"
    then obtain m where n: "n = Suc m" by (cases n) (auto simp: print_object)
    show "parse_value n (print_json (JObj kvs) @ rest) = Some (JObj kvs, rest)"
    proof (cases kvs)
      case Nil
      then show ?thesis by (simp add: n)
    next
      case (Cons w ws)
      obtain cs where "commas (map print_member kvs) = quote # cs"
        using commas_Cons_first [of "print_member w" "map print_member ws"] Cons
        by (auto simp: print_member_def print_string_def)
      moreover have "parse_members m (commas (map print_member kvs) @ ''}'' @ rest) = Some (kvs, rest)"
      proof (rule parse_printed_members)
        show "length (commas (map print_member kvs)) < m" using len n unfolding print_object by simp
      qed (use Cons JObj in auto)
      ultimately show ?thesis by (simp add: n print_object quote_def del: print_json.simps)
    qed
  qed
qed

lemma parse_print_json: "parse_json (print_json v) = Some v"
  using parses_backD [OF print_parses_back, of "[]" v "length (print_json v)"]
  by (simp add: parse_json_def stops_number_def)

end
