(* ===== verification/Log_Message.thy ===== *)
theory Log_Message
  imports Text_Format "HOL-Library.Signed_Division"
begin

text \<open>
  \<open>logging/log_message.h\<close>: levels, exceptions, log messages with their two caches, and timestamps.

  An argument of a log call has a type of the caller's; formatting it is a parameter.  \<open>vformat\<close>
  stands for \<open>std::vformat_to\<close> on the whole message, which may throw, and \<open>format_arg\<close> for
  \<open>std::format("{}", arg)\<close>.  A \<open>std::once_flag\<close> together with the value it guards is an option.  The
  broken-down time of \<open>gmtime_r\<close> and \<open>localtime_r\<close> is a parameter as well, since it depends on the time
  zone of the process.
\<close>

section \<open>Levels\<close>

datatype log_level = trace | debug | information | warning | error | critical

definition level_number :: "log_level \<Rightarrow> nat" where
  "level_number l =
     (case l of trace \<Rightarrow> 0 | debug \<Rightarrow> 1 | information \<Rightarrow> 2 | warning \<Rightarrow> 3 | error \<Rightarrow> 4 | critical \<Rightarrow> 5)"

lemma level_number_inj: "level_number a = level_number b \<Longrightarrow> a = b"
  by (cases a; cases b) (simp_all add: level_number_def)

lemma level_number_less_6: "level_number l < 6"
  by (cases l) (simp_all add: level_number_def)

instantiation log_level :: linorder
begin

definition less_eq_log_level :: "log_level \<Rightarrow> log_level \<Rightarrow> bool" where
  "less_eq_log_level a b \<longleftrightarrow> level_number a \<le> level_number b"

definition less_log_level :: "log_level \<Rightarrow> log_level \<Rightarrow> bool" where
  "less_log_level a b \<longleftrightarrow> level_number a < level_number b"

instance
  by standard (auto simp: less_eq_log_level_def less_log_level_def dest: level_number_inj)

end

section \<open>Messages\<close>

record exception_info =
  ex_type :: string
  ex_message :: string

record source_location =
  file_name :: string
  line_number :: nat
  function_name :: string

text \<open>
  What \<open>own\<close> does with an argument: text that the message might outlive is copied into a string, a null
  pointer becomes the empty string, and everything else is stored by value.  A character array is
  read up to its first null character.
\<close>

datatype 'a log_arg = String_view string | Char_array string | Char_pointer "string option" | Other_arg 'a

datatype 'a owned_arg = Owned_string string | Owned_value 'a

fun own :: "'a log_arg \<Rightarrow> 'a owned_arg" where
  "own (String_view s) = Owned_string s"
| "own (Char_array cs) = Owned_string (takeWhile (\<lambda>c. c \<noteq> CHR 0x00) cs)"
| "own (Char_pointer (Some s)) = Owned_string s"
| "own (Char_pointer None) = Owned_string []"
| "own (Other_arg a) = Owned_value a"

record 'a log_message =
  m_timestamp :: int
  m_exception :: "exception_info option"
  m_format :: string
  m_location :: source_location
  m_level :: log_level
  m_args :: "'a owned_arg list"
  m_formatted_message :: "string option"
  m_formatted_args :: "string list option"

text \<open>The constructor; \<open>now\<close> is the clock reading, in nanoseconds since the epoch.\<close>

definition log_message_make ::
  "int \<Rightarrow> exception_info option \<Rightarrow> source_location \<Rightarrow> log_level \<Rightarrow> string \<Rightarrow> 'a log_arg list \<Rightarrow> 'a log_message"
where
  "log_message_make now ex_info location level fmt args =
     \<lparr>m_timestamp = now, m_exception = ex_info, m_format = fmt, m_location = location, m_level = level,
      m_args = map own args, m_formatted_message = None, m_formatted_args = None\<rparr>"

definition has_exception :: "'a log_message \<Rightarrow> bool" where
  "has_exception m \<longleftrightarrow> m_exception m \<noteq> None"

section \<open>Formatting\<close>

fun what :: "cpp_exception \<Rightarrow> string" where
  "what (std_out_of_range s) = s"
| "what (std_logic_error s) = s"
| "what (std_invalid_argument s) = s"
| "what (std_runtime_error s) = s"

type_synonym 'a formatter = "(string \<Rightarrow> 'a owned_arg list \<Rightarrow> string throws) \<times> ('a owned_arg \<Rightarrow> string)"

definition message_text :: "'a formatter \<Rightarrow> 'a log_message \<Rightarrow> string" where
  "message_text fmt m =
     (case fst fmt (m_format m) (m_args m) of
        Inr s \<Rightarrow> s
      | Inl ex \<Rightarrow> ''Error formatting message: '' @ what ex @ '' -> format=`'' @ m_format m @ ''`'')"

definition get_formatted_message :: "'a formatter \<Rightarrow> 'a log_message \<Rightarrow> string \<times> 'a log_message" where
  "get_formatted_message fmt m =
     (case m_formatted_message m of
        Some s \<Rightarrow> (s, m)
      | None \<Rightarrow> (let s = message_text fmt m in (s, m\<lparr>m_formatted_message := Some s\<rparr>)))"

definition get_formatted_args :: "'a formatter \<Rightarrow> 'a log_message \<Rightarrow> string list \<times> 'a log_message" where
  "get_formatted_args fmt m =
     (case m_formatted_args m of
        Some ss \<Rightarrow> (ss, m)
      | None \<Rightarrow> (let ss = map (snd fmt) (m_args m) in (ss, m\<lparr>m_formatted_args := Some ss\<rparr>)))"

section \<open>Timestamps\<close>

record tm =
  tm_year :: int
  tm_mon :: int
  tm_mday :: int
  tm_hour :: int
  tm_min :: int
  tm_sec :: int
  tm_gmtoff :: int

definition tm_zero :: tm where
  "tm_zero = \<lparr>tm_year = 0, tm_mon = 0, tm_mday = 0, tm_hour = 0, tm_min = 0, tm_sec = 0, tm_gmtoff = 0\<rparr>"

text \<open>\<open>strftime\<close> with \<open>%Y-%m-%dT%H:%M:%S\<close> and with \<open>%z\<close>; the offset is in seconds east of UTC.\<close>

definition two :: "int \<Rightarrow> string" where
  "two k = int_dec_padded 2 k"

definition strftime_date_time :: "tm \<Rightarrow> string" where
  "strftime_date_time t =
     int_dec (tm_year t + 1900) @ ''-'' @ two (tm_mon t + 1) @ ''-'' @ two (tm_mday t) @ ''T''
     @ two (tm_hour t) @ '':'' @ two (tm_min t) @ '':'' @ two (tm_sec t)"

definition strftime_zone :: "tm \<Rightarrow> string" where
  "strftime_zone t =
     (if tm_gmtoff t < 0 then ''-'' else ''+'')
     @ two (\<bar>tm_gmtoff t\<bar> div 3600) @ two (\<bar>tm_gmtoff t\<bar> div 60 mod 60)"

text \<open>
  \<open>get_timestamp\<close>; \<open>broken_down use_local_time time\<close> is the result of \<open>localtime_r\<close> or \<open>gmtime_r\<close>.  Integer
  division truncates towards zero, as in \<open>duration_cast\<close> and \<open>%\<close>.
\<close>

definition get_timestamp :: "(bool \<Rightarrow> int \<Rightarrow> tm option) \<Rightarrow> bool \<Rightarrow> 'a log_message \<Rightarrow> string \<times> int \<times> string" where
  "get_timestamp broken_down use_local_time m =
     (let time = m_timestamp m sdiv 1000000000;
          t = (case broken_down use_local_time time of None \<Rightarrow> tm_zero | Some t \<Rightarrow> t);
          microseconds = (m_timestamp m sdiv 1000) smod 1000000;
          zone = strftime_zone t;
          tz = (if use_local_time
                then if length zone = 5 then take 3 zone @ '':'' @ drop 3 zone else zone
                else ''Z'')
      in (strftime_date_time t, microseconds, tz))"

section \<open>Lemmas\<close>

text \<open>A message whose caches hold what formatting would give; true of every message that was built.\<close>

definition caches_ok :: "'a formatter \<Rightarrow> 'a log_message \<Rightarrow> bool" where
  "caches_ok fmt m \<longleftrightarrow>
     (\<forall>s. m_formatted_message m = Some s \<longrightarrow> s = message_text fmt m)
     \<and> (\<forall>ss. m_formatted_args m = Some ss \<longrightarrow> ss = map (snd fmt) (m_args m))"

lemma message_text_update [simp]:
  "message_text fmt (m\<lparr>m_formatted_message := x\<rparr>) = message_text fmt m"
  "message_text fmt (m\<lparr>m_formatted_args := y\<rparr>) = message_text fmt m"
  by (simp_all add: message_text_def split: sum.splits)

lemma caches_ok_make: "caches_ok fmt (log_message_make now ex_info location level f args)"
  by (simp add: caches_ok_def log_message_make_def)

lemma get_formatted_message_ok:
  "caches_ok fmt m \<Longrightarrow> \<exists>m'. get_formatted_message fmt m = (message_text fmt m, m') \<and> caches_ok fmt m'
     \<and> m' = m\<lparr>m_formatted_message := Some (message_text fmt m)\<rparr>"
  by (auto simp: get_formatted_message_def caches_ok_def Let_def split: option.splits)

lemma get_formatted_args_ok:
  "caches_ok fmt m \<Longrightarrow> \<exists>m'. get_formatted_args fmt m = (map (snd fmt) (m_args m), m') \<and> caches_ok fmt m'
     \<and> m' = m\<lparr>m_formatted_args := Some (map (snd fmt) (m_args m))\<rparr>"
  by (auto simp: get_formatted_args_def caches_ok_def Let_def split: option.splits)

lemma dec_length_le: "n < 10 ^ Suc k \<Longrightarrow> length (dec n) \<le> Suc k"
proof (induction k arbitrary: n)
  case 0
  then show ?case by (simp add: dec.simps [of n])
next
  case (Suc k)
  show ?case
  proof (cases "n < 10")
    case True
    then show ?thesis by (simp add: dec.simps [of n])
  next
    case False
    from Suc.prems have "n div 10 < 10 ^ Suc k" by auto
    from Suc.IH [OF this] False show ?thesis by (subst dec.simps) simp
  qed
qed

lemma length_pad_zeros: "length s \<le> w \<Longrightarrow> length (pad_zeros w s) = w"
  by (simp add: pad_zeros_def)

lemma length_two:
  assumes "0 \<le> k" and "k < 100"
  shows "length (two k) = 2"
proof -
  have "nat k < 10 ^ Suc 1" using assms by simp
  from dec_length_le [OF this] have "length (dec (nat k)) \<le> 2" by simp
  with assms show ?thesis by (simp add: two_def int_dec_padded_def length_pad_zeros)
qed

end
