(* ===== verification/Otel_Serializer.thy ===== *)
theory Otel_Serializer
  imports Json Log_Message
begin

text \<open>
  \<open>logging/sinks/otel_serializer.h\<close>: one log message as a JSON object of the OpenTelemetry protocol.
  \<open>record_tree\<close> is the abstract value; the code's string building prints exactly this value, so that no
  content of a message can change the structure of the document.
\<close>

section \<open>The serializer\<close>

definition severity_texts :: "string list" where
  "severity_texts = [''TRACE'', ''DEBUG'', ''INFO'', ''WARN'', ''ERROR'', ''FATAL'']"

text \<open>The local function \<open>attribute\<close>, with the variables \<open>json\<close> and \<open>first\<close> it captures.\<close>

definition attribute :: "string \<Rightarrow> string \<Rightarrow> string \<times> bool \<Rightarrow> string \<times> bool" where
  "attribute key val state =
     (case state of (json, first) \<Rightarrow>
        (json @ (if \<not> first then '','' else [])
           @ tmpl ''{`key`:`'' @ key @ tmpl ''`,`value`:'' @ val @ ''}'', False))"

definition string_value :: "string \<Rightarrow> string" where
  "string_value s = tmpl ''{`stringValue`:`'' @ s @ tmpl ''`}''"

fun args_values :: "nat \<Rightarrow> string list \<Rightarrow> string" where
  "args_values i [] = []"
| "args_values i (a # as) =
     (if i \<noteq> 0 then '','' else [])
     @ tmpl ''{`key`:`arg'' @ dec i @ tmpl ''`,`value`:{`stringValue`:`'' @ escape_json a @ tmpl ''`}}''
     @ args_values (Suc i) as"

definition record_start :: "int \<Rightarrow> nat \<Rightarrow> string \<Rightarrow> string" where
  "record_start time_nanos level text =
     tmpl ''{`timeUnixNano`:`'' @ int_dec time_nanos
     @ tmpl ''`,`severityNumber`:'' @ dec (1 + level * 4)
     @ tmpl '',`severityText`:`'' @ severity_texts ! level
     @ tmpl ''`,`body`:{`stringValue`:`'' @ escape_json text
     @ tmpl ''`},`attributes`:[''"

definition serialize_record :: "'a formatter \<Rightarrow> 'a log_message \<Rightarrow> string \<times> 'a log_message" where
  "serialize_record fmt m =
     (let level = level_number (m_level m);
          time_nanos = m_timestamp m;
          (text, m1) = get_formatted_message fmt m;
          s0 = (record_start time_nanos level text, True);
          s1 = attribute ''log.format'' (string_value (escape_json (m_format m1))) s0;
          (args, m2) = get_formatted_args fmt m1;
          s2 = (if args \<noteq> []
                then attribute ''log.args''
                       (tmpl ''{`kvlistValue`:{`values`:['' @ args_values 0 args @ '']}}'') s1
                else s1);
          location = m_location m2;
          s3 = attribute ''code.file.path''
                 (string_value (escape_json (file_name location) @ '':'' @ dec (line_number location))) s2;
          s4 = attribute ''code.function.name'' (string_value (escape_json (function_name location))) s3;
          s5 = (case m_exception m2 of
                  None \<Rightarrow> s4
                | Some ex \<Rightarrow>
                    attribute ''exception.message'' (string_value (escape_json (ex_message ex)))
                      (attribute ''exception.type'' (string_value (escape_json (ex_type ex))) s4))
      in (fst s5 @ '']}'', m2))"

section \<open>The value it denotes\<close>

definition string_tree :: "string \<Rightarrow> json" where
  "string_tree s = JObj [(''stringValue'', JStr s)]"

definition attribute_tree :: "string \<Rightarrow> json \<Rightarrow> json" where
  "attribute_tree key v = JObj [(''key'', JStr key), (''value'', v)]"

definition args_tree :: "string list \<Rightarrow> json" where
  "args_tree args =
     JObj [(''kvlistValue'', JObj [(''values'',
       JArr (map (\<lambda>(i, a). attribute_tree (''arg'' @ dec i) (string_tree a)) (enumerate 0 args)))])]"

definition record_tree :: "'a formatter \<Rightarrow> 'a log_message \<Rightarrow> json" where
  "record_tree fmt m =
     (let args = map (snd fmt) (m_args m); location = m_location m in
      JObj
       [(''timeUnixNano'', JStr (int_dec (m_timestamp m))),
        (''severityNumber'', JNum (1 + level_number (m_level m) * 4)),
        (''severityText'', JStr (severity_texts ! level_number (m_level m))),
        (''body'', string_tree (message_text fmt m)),
        (''attributes'', JArr
          ([attribute_tree ''log.format'' (string_tree (m_format m))]
           @ (if args \<noteq> [] then [attribute_tree ''log.args'' (args_tree args)] else [])
           @ [attribute_tree ''code.file.path''
                (string_tree (file_name location @ '':'' @ dec (line_number location))),
              attribute_tree ''code.function.name'' (string_tree (function_name location))]
           @ (case m_exception m of
                None \<Rightarrow> []
              | Some ex \<Rightarrow>
                  [attribute_tree ''exception.type'' (string_tree (ex_type ex)),
                   attribute_tree ''exception.message'' (string_tree (ex_message ex))])))])"

section \<open>The text is the printed value\<close>

lemma escape_literal: "list_all plain_char s \<Longrightarrow> escape_json s = s"
  by (rule escape_json_plain) (simp add: list_all_iff)

lemma print_literal:
  "list_all plain_char s \<Longrightarrow> print_string (s @ t) = CHR 0x22 # s @ escape_json t @ [CHR 0x22]"
  by (simp add: print_string_def quote_def escape_literal)

lemma print_escaped: "print_string s = CHR 0x22 # escape_json s @ [CHR 0x22]"
  by (simp add: print_string_def quote_def)

lemma escape_int_dec [simp]: "escape_json (int_dec k) = int_dec k"
  by (simp add: int_dec_def escape_char_def)

lemma print_string_tree: "print_json (string_tree s) = string_value (escape_json s)"
  by (simp add: string_tree_def string_value_def print_escaped tmpl_def escape_literal escape_char_plain plain_char_def)

lemma print_attribute_tree:
  "list_all plain_char key \<Longrightarrow>
     print_json (attribute_tree key v) = tmpl ''{`key`:`'' @ key @ tmpl ''`,`value`:'' @ print_json v @ ''}''"
  by (simp add: attribute_tree_def print_escaped tmpl_def escape_literal escape_char_plain plain_char_def)

lemma commas_Cons: "commas (s # ss) = s @ (if ss = [] then [] else '','' @ commas ss)"
  by (cases ss) simp_all

lemma plain_dec: "list_all plain_char (dec n)"
  by (auto simp: list_all_iff intro: plain_digit dec_digits)

lemma args_values_print:
  "args_values i as =
     (if as \<noteq> [] \<and> i \<noteq> 0 then '','' else [])
     @ commas (map print_json
         (map (\<lambda>(j, a). attribute_tree (''arg'' @ dec j) (string_tree a)) (enumerate i as)))"
proof (induction as arbitrary: i)
  case (Cons a as)
  have "print_json (attribute_tree (''arg'' @ dec i) (string_tree a))
      = tmpl ''{`key`:`arg'' @ dec i @ tmpl ''`,`value`:{`stringValue`:`'' @ escape_json a @ tmpl ''`}}''"
    by (subst print_attribute_tree)
      (simp_all add: plain_dec plain_char_def print_string_tree string_value_def tmpl_def)
  with Cons show ?case by (cases as) (simp_all add: commas_Cons)
qed simp

lemma print_args_tree:
  "print_json (args_tree args) = tmpl ''{`kvlistValue`:{`values`:['' @ args_values 0 args @ '']}}''"
  by (simp add: args_tree_def args_values_print print_escaped escape_literal escape_char_plain plain_char_def tmpl_def)

lemma print_record_start:
  "print_json (JObj
     [(''timeUnixNano'', JStr (int_dec t)), (''severityNumber'', JNum (Suc (level_number l * 4))),
      (''severityText'', JStr (severity_texts ! level_number l)), (''body'', string_tree text),
      (''attributes'', JArr vs)])
   = record_start t (level_number l) text @ commas (map print_json vs) @ '']}''"
proof -
  have "escape_json (severity_texts ! level_number l) = severity_texts ! level_number l"
    by (cases l) (simp_all add: level_number_def severity_texts_def escape_literal escape_char_plain plain_char_def)
  then show ?thesis
    by (simp add: record_start_def print_escaped escape_literal escape_char_plain plain_char_def tmpl_def print_string_tree
        string_value_def)
qed

lemma attribute_print:
  "list_all plain_char key \<Longrightarrow>
     attribute key (print_json v) (json, first)
       = (json @ (if first then [] else '','') @ print_json (attribute_tree key v), False)"
  by (simp add: attribute_def print_attribute_tree)

lemma serialize_record_print:
  assumes "caches_ok fmt m"
  shows "fst (serialize_record fmt m) = print_json (record_tree fmt m)"
proof -
  note m1 = get_formatted_message_ok [OF assms]
  let ?m1 = "m\<lparr>m_formatted_message := Some (message_text fmt m)\<rparr>"
  have "caches_ok fmt ?m1" using m1 by auto
  note m2 = get_formatted_args_ok [OF this]
  have path: "escape_json f @ CHR '':'' # dec k = escape_json (f @ CHR '':'' # dec k)" for f k
    by (simp add: escape_char_plain plain_char_def)
  show ?thesis
    using m1 m2
    by (auto simp: serialize_record_def record_tree_def print_record_start Let_def path
        print_string_tree [symmetric] print_args_tree [symmetric] attribute_print plain_char_def commas_Cons
        simp del: print_json.simps escape_json_append split: option.splits)
qed

section \<open>Property\<close>

text \<open>C17: A serialized record is well-formed JSON that says what the message says: a strict JSON parser
  accepts it and returns the object with the time, the severity, the text and the attributes of the
  message.  Quotes, backslashes and control characters in the text, the format, the arguments, the
  location or the exception never change the structure.\<close>

theorem serialize_record_parses:
  assumes "caches_ok fmt m"
  shows "parse_json (fst (serialize_record fmt m)) = Some (record_tree fmt m)"
  by (simp add: serialize_record_print [OF assms] parse_print_json)

definition demo_formatter :: "nat formatter" where
  "demo_formatter =
     ((\<lambda>f args. if args = [] then Inl (std_runtime_error ''argument not found'') else Inr f),
      (\<lambda>a. case a of Owned_string s \<Rightarrow> s | Owned_value n \<Rightarrow> dec n))"

definition demo_message :: "nat log_message" where
  "demo_message =
     log_message_make 1500000000 (Some \<lparr>ex_type = ''E'', ex_message = [CHR 0x22]\<rparr>)
       \<lparr>file_name = ''a.cpp'', line_number = 12, function_name = ''f''\<rparr> warning [CHR 0x0A]
       [Char_pointer None, Other_arg 7]"

lemma serialize_record_parses_witness:
  "parse_json (fst (serialize_record demo_formatter demo_message))
     = Some (record_tree demo_formatter demo_message)"
  by (rule serialize_record_parses) (simp add: demo_message_def caches_ok_make)

end
