(* ===== verification/Log_Sink.thy ===== *)
theory Log_Sink
  imports Log_Message
begin

text \<open>
  \<open>logging/sinks/sinks_opts.h\<close>, \<open>log_sink.h\<close> and \<open>file_sink.h\<close>: options and their validation, the text
  sink and the file sink.

  The results of successive system calls are a list, in the order in which the calls are made.  A
  function that makes another call after the end of the list is still inside that call: its result
  is \<open>None\<close>.
\<close>

section \<open>Options\<close>

definition isspace :: "char \<Rightarrow> bool" where
  "isspace c \<longleftrightarrow> c = CHR '' '' \<or> (9 \<le> (of_char c :: nat) \<and> of_char c \<le> (13 :: nat))"

fun has_non_whitespace :: "string \<Rightarrow> bool" where
  "has_non_whitespace [] = False"
| "has_non_whitespace (ch # rest) = (if \<not> isspace ch then True else has_non_whitespace rest)"

definition validate_required_string :: "string \<Rightarrow> string \<Rightarrow> unit throws" where
  "validate_required_string name val =
     (if val = [] then Inl (std_invalid_argument (name @ '' cannot be empty''))
      else if \<not> has_non_whitespace val
        then Inl (std_invalid_argument (name @ '' cannot be empty or whitespace''))
      else Inr ())"

definition validate_optional_non_whitespace_string :: "string \<Rightarrow> string \<Rightarrow> unit throws" where
  "validate_optional_non_whitespace_string name val =
     (if val = [] then Inr ()
      else if \<not> has_non_whitespace val
        then Inl (std_invalid_argument (name @ '' cannot be empty or whitespace''))
      else Inr ())"

record log_sink_opts =
  lo_min_log_level :: log_level
  lo_fd :: int
  lo_use_local_time :: bool
  lo_use_structured_log :: bool
  lo_use_colors :: bool
  lo_flush_on_write :: bool

definition default_log_sink_opts :: log_sink_opts where
  "default_log_sink_opts =
     \<lparr>lo_min_log_level = information, lo_fd = 1, lo_use_local_time = True, lo_use_structured_log = False,
      lo_use_colors = True, lo_flush_on_write = True\<rparr>"

record file_sink_opts =
  fo_min_log_level :: log_level
  fo_file_path :: string
  fo_use_local_time :: bool
  fo_flush_on_write :: bool

definition file_sink_opts_validate :: "file_sink_opts \<Rightarrow> unit throws" where
  "file_sink_opts_validate opts = validate_required_string ''file_path'' (fo_file_path opts)"

record otel_sink_opts =
  oo_min_log_level :: log_level
  oo_endpoint :: string
  oo_auth_token :: string
  oo_service_namespace :: string
  oo_service_name :: string
  oo_service_version :: string
  oo_service_instance_id :: string
  oo_environment_name :: string
  oo_batch_size :: size_t
  oo_use_local_time :: bool

text \<open>Checks that run one after the other until the first that throws.\<close>

fun checks :: "unit throws list \<Rightarrow> unit throws" where
  "checks [] = Inr ()"
| "checks (c # cs) = (case c of Inl e \<Rightarrow> Inl e | Inr _ \<Rightarrow> checks cs)"

definition otel_sink_opts_validate :: "otel_sink_opts \<Rightarrow> unit throws" where
  "otel_sink_opts_validate opts =
     checks
       [validate_required_string ''endpoint'' (oo_endpoint opts),
        validate_required_string ''service_namespace'' (oo_service_namespace opts),
        validate_required_string ''service_name'' (oo_service_name opts),
        validate_required_string ''service_version'' (oo_service_version opts),
        validate_required_string ''service_instance_id'' (oo_service_instance_id opts),
        validate_required_string ''environment_name'' (oo_environment_name opts),
        validate_optional_non_whitespace_string ''auth_token'' (oo_auth_token opts),
        if oo_batch_size opts = 0
          then Inl (std_invalid_argument ''batch_size must be greater than zero'') else Inr ()]"

section \<open>The text sink\<close>

record log_sink =
  ls_min_log_level :: log_level
  ls_use_local_time :: bool
  ls_use_colors :: bool
  ls_flush_on_write :: bool
  ls_own_channel :: bool
  ls_fd :: int

definition log_sink_make :: "log_sink_opts \<Rightarrow> bool \<Rightarrow> log_sink" where
  "log_sink_make opts owns_channel =
     \<lparr>ls_min_log_level = lo_min_log_level opts, ls_use_local_time = lo_use_local_time opts,
      ls_use_colors = lo_use_colors opts, ls_flush_on_write = lo_flush_on_write opts,
      ls_own_channel = owns_channel, ls_fd = lo_fd opts\<rparr>"

definition plain_level_strings :: "string list" where
  "plain_level_strings = [''TRACE'', ''DEBUG'', ''INFO.'', ''WARN.'', ''ERROR'', ''FATAL'']"

definition colored :: "string \<Rightarrow> string \<Rightarrow> string" where
  "colored code text = CHR 0x1B # ''['' @ code @ ''m'' @ text @ CHR 0x1B # ''[0m''"

definition colored_level_strings :: "string list" where
  "colored_level_strings =
     [colored ''90'' ''TRACE'', colored ''36'' ''DEBUG'', colored ''32'' ''INFO.'',
      colored ''33'' ''WARN.'', colored ''31'' ''ERROR'', colored ''35'' ''FATAL'']"

text \<open>The line that \<open>write_message_log\<close> formats, and the message with its cache filled.\<close>

definition log_line ::
  "'a formatter \<Rightarrow> (bool \<Rightarrow> int \<Rightarrow> tm option) \<Rightarrow> log_sink \<Rightarrow> 'a log_message \<Rightarrow> string \<times> 'a log_message"
where
  "log_line fmt broken_down sink m =
     (let (date_time, us, tz) = get_timestamp broken_down (ls_use_local_time sink) m;
          level_str = (if ls_use_colors sink then colored_level_strings ! level_number (m_level m)
                       else plain_level_strings ! level_number (m_level m));
          location = m_location m;
          (text, m') = get_formatted_message fmt m;
          start = ''['' @ date_time @ ''.'' @ int_dec_padded 6 us @ tz @ ''] '' @ level_str @ '' <''
                    @ file_name location @ '':'' @ dec (line_number location) @ ''> '' @ text @ [CHR 0x0A]
      in (case m_exception m of
            Some ex \<Rightarrow> (start @ ''    -> [Exception] '' @ ex_type ex @ '': '' @ ex_message ex @ [CHR 0x0A], m')
          | None \<Rightarrow> (start, m')))"

text \<open>The result of one call of \<open>::write\<close>, or of another call that transfers bytes.\<close>

datatype transfer = Transferred nat | Interrupted | Failed

datatype fd_event = Output string | Fsync

text \<open>
  \<open>write_to_output\<close>: what reaches the descriptor, for the results of the successive calls.  A call
  transfers at most what it was given.
\<close>

fun write_to_output :: "bool \<Rightarrow> transfer list \<Rightarrow> nat \<Rightarrow> string \<Rightarrow> fd_event list option" where
  "write_to_output flush rets offset data =
     (if offset < length data then
        (case rets of
           [] \<Rightarrow> None
         | Interrupted # rest \<Rightarrow> write_to_output flush rest offset data
         | Failed # rest \<Rightarrow> Some []
         | Transferred n # rest \<Rightarrow>
             (let written = min n (length data - offset) in
              map_option (\<lambda>out. Output (take written (drop offset data)) # out)
                (write_to_output flush rest (offset + written) data)))
      else Some (if flush then [Fsync] else []))"

declare write_to_output.simps [simp del]

definition log_sink_write ::
  "'a formatter \<Rightarrow> (bool \<Rightarrow> int \<Rightarrow> tm option) \<Rightarrow> transfer list \<Rightarrow> log_sink \<Rightarrow> 'a log_message
     \<Rightarrow> (fd_event list \<times> 'a log_message) option"
where
  "log_sink_write fmt broken_down rets sink m =
     (if m_level m < ls_min_log_level sink then Some ([], m)
      else
        (case log_line fmt broken_down sink m of (line, m') \<Rightarrow>
           map_option (\<lambda>out. (out, m')) (write_to_output (ls_flush_on_write sink) rets 0 line)))"

section \<open>The file sink\<close>

text \<open>
  Construction and destruction, with the operations on the file system in their order.  \<open>parent\<close> is
  \<open>parent_path()\<close>, \<open>dir_exists\<close> is \<open>std::filesystem::exists\<close> and \<open>open_fd\<close> the result of \<open>::open\<close>.
\<close>

datatype file_op = Create_directories string | Open_truncate string | Close int

definition open_file ::
  "(string \<Rightarrow> string) \<Rightarrow> (string \<Rightarrow> bool) \<Rightarrow> int \<Rightarrow> string \<Rightarrow> log_sink \<Rightarrow> file_op list \<times> log_sink throws"
where
  "open_file parent dir_exists open_fd path sink =
     (let parent_path = parent path;
          made = (if parent_path \<noteq> [] \<and> \<not> dir_exists parent_path then [Create_directories parent_path] else [])
      in if open_fd < 0
         then (made @ [Open_truncate path], Inl (std_runtime_error (''failed to open log file: '' @ path)))
         else (made @ [Open_truncate path], Inr (sink\<lparr>ls_fd := open_fd\<rparr>)))"

definition file_sink_make ::
  "(string \<Rightarrow> string) \<Rightarrow> (string \<Rightarrow> bool) \<Rightarrow> int \<Rightarrow> file_sink_opts \<Rightarrow> file_op list \<times> log_sink throws"
where
  "file_sink_make parent dir_exists open_fd opts =
     (let base = log_sink_make
            (default_log_sink_opts
               \<lparr>lo_min_log_level := fo_min_log_level opts, lo_use_local_time := fo_use_local_time opts,
                lo_use_colors := False, lo_flush_on_write := fo_flush_on_write opts\<rparr>) False
      in case file_sink_opts_validate opts of
           Inl e \<Rightarrow> ([], Inl e)
         | Inr _ \<Rightarrow> open_file parent dir_exists open_fd (fo_file_path opts) base)"

definition file_sink_destroy :: "log_sink \<Rightarrow> file_op list" where
  "file_sink_destroy sink = (if ls_fd sink \<ge> 0 then [Close (ls_fd sink)] else [])"

text \<open>
  The defaulted move constructor.  \<open>log_sink\<close> declares its destructor, so it has no move constructor
  and its members, the descriptor among them, are copied: the result is the new and the old object.
\<close>

definition file_sink_move :: "log_sink \<Rightarrow> log_sink \<times> log_sink" where
  "file_sink_move sink = (sink, sink)"

section \<open>Lemmas\<close>

lemma has_non_whitespace_iff: "has_non_whitespace s \<longleftrightarrow> (\<exists>c \<in> set s. \<not> isspace c)"
  by (induction s) auto

lemma validate_required_iff:
  "validate_required_string name val = Inr () \<longleftrightarrow> has_non_whitespace val"
  by (auto simp: validate_required_string_def)

lemma validate_optional_iff:
  "validate_optional_non_whitespace_string name val = Inr () \<longleftrightarrow> val = [] \<or> has_non_whitespace val"
  by (auto simp: validate_optional_non_whitespace_string_def)

lemma checks_iff: "checks cs = Inr () \<longleftrightarrow> (\<forall>c \<in> set cs. c = Inr ())"
  by (induction cs) (auto split: sum.splits)

fun written :: "fd_event list \<Rightarrow> string" where
  "written [] = []"
| "written (Output s # out) = s @ written out"
| "written (Fsync # out) = written out"

text \<open>A result that ends the loop or brings it forward.\<close>

definition productive :: "transfer \<Rightarrow> bool" where
  "productive r \<longleftrightarrow> (case r of Transferred n \<Rightarrow> 0 < n | Interrupted \<Rightarrow> False | Failed \<Rightarrow> True)"

lemma productive_simps [simp]:
  "productive (Transferred n) \<longleftrightarrow> 0 < n" "\<not> productive Interrupted" "productive Failed"
  by (simp_all add: productive_def)

lemma write_to_output_cases [simp]:
  "\<not> offset < length data \<Longrightarrow> write_to_output flush rets offset data = Some (if flush then [Fsync] else [])"
  "offset < length data \<Longrightarrow> write_to_output flush [] offset data = None"
  "offset < length data \<Longrightarrow> write_to_output flush (Interrupted # rets) offset data = write_to_output flush rets offset data"
  "offset < length data \<Longrightarrow> write_to_output flush (Failed # rets) offset data = Some []"
  "offset < length data \<Longrightarrow> write_to_output flush (Transferred n # rets) offset data =
     map_option (\<lambda>out. Output (take (min n (length data - offset)) (drop offset data)) # out)
       (write_to_output flush rets (offset + min n (length data - offset)) data)"
  by (simp_all add: write_to_output.simps [of flush _ offset data] Let_def)

lemma write_to_output_returns:
  "length data - offset \<le> length (filter productive rets) \<Longrightarrow> \<exists>out. write_to_output flush rets offset data = Some out"
proof (induction rets arbitrary: offset)
  case (Cons r rets)
  show ?case
  proof (cases "offset < length data")
    case more: True
    show ?thesis
    proof (cases r)
      case (Transferred n)
      have "length data - (offset + min n (length data - offset)) \<le> length (filter productive rets)"
        using Cons.prems Transferred by (auto simp: min_def split: if_splits)
      from Cons.IH [OF this] Transferred more show ?thesis by auto
    qed (use Cons more in simp_all)
  qed simp
qed simp

lemma write_to_output_effect:
  assumes "write_to_output flush rets offset data = Some out" and "offset \<le> length data"
  shows "(\<exists>rest. drop offset data = written out @ rest)
     \<and> (Fsync \<in> set out \<longrightarrow> flush \<and> written out = drop offset data)
     \<and> (Failed \<notin> set rets \<longrightarrow> written out = drop offset data \<and> (Fsync \<in> set out \<longleftrightarrow> flush))"
  using assms
proof (induction rets arbitrary: offset out)
  case Nil
  then show ?case by (cases "offset < length data") auto
next
  case (Cons r rets)
  show ?case
  proof (cases "offset < length data")
    case False
    with Cons.prems show ?thesis by auto
  next
    case more: True
    show ?thesis
    proof (cases r)
      case (Transferred n)
      define w where "w = min n (length data - offset)"
      obtain out' where rec: "write_to_output flush rets (offset + w) data = Some out'"
        and "out = Output (take w (drop offset data)) # out'"
        using Cons.prems(1) more Transferred by (auto simp: w_def)
      moreover have "drop offset data = take w (drop offset data) @ drop (offset + w) data"
        by (metis add.commute append_take_drop_id drop_drop)
      ultimately obtain h where out: "out = Output h # out'"
        and split: "drop offset data = h @ drop (offset + w) data" by blast
      have "offset + w \<le> length data" using more by (simp add: w_def)
      from Cons.IH [OF rec this] split show ?thesis by (auto simp: out Transferred)
    next
      case Interrupted
      with Cons.prems(1) more have "write_to_output flush rets offset data = Some out" by simp
      from Cons.IH [OF this Cons.prems(2)] Interrupted show ?thesis by simp
    next
      case Failed
      with Cons.prems(1) more show ?thesis by auto
    qed
  qed
qed

section \<open>Properties\<close>

text \<open>The text sink. A message below the minimum level is dropped without output.  For any other
  message the write loop returns after at most as many productive system calls as the line has
  bytes, however often it is interrupted; what reaches the descriptor is a prefix of the line, the
  whole line unless a call fails, and the descriptor is synchronised only after the whole line, and
  exactly when the option asks for it.\<close>

lemma log_sink_write_correct:
  assumes line: "log_line fmt broken_down sink m = (line, m')"
    and enough: "length line \<le> length (filter productive rets)"
  shows "if m_level m < ls_min_log_level sink
     then log_sink_write fmt broken_down rets sink m = Some ([], m)
     else \<exists>out. log_sink_write fmt broken_down rets sink m = Some (out, m')
        \<and> (\<exists>rest. line = written out @ rest)
        \<and> (Fsync \<in> set out \<longrightarrow> ls_flush_on_write sink \<and> written out = line)
        \<and> (Failed \<notin> set rets \<longrightarrow> written out = line \<and> (Fsync \<in> set out \<longleftrightarrow> ls_flush_on_write sink))"
proof -
  obtain out where "write_to_output (ls_flush_on_write sink) rets 0 line = Some out"
    using write_to_output_returns [of line 0 rets] enough by auto
  with write_to_output_effect [OF this] line show ?thesis by (simp add: log_sink_write_def)
qed

definition demo_sink :: log_sink where
  "demo_sink = log_sink_make (default_log_sink_opts\<lparr>lo_use_colors := False, lo_use_local_time := False\<rparr>) False"

definition demo_log :: "nat log_message" where
  "demo_log = log_message_make 1000 None \<lparr>file_name = ''f'', line_number = 7, function_name = ''g''\<rparr> error ''x'' []"

definition demo_format :: "nat formatter" where
  "demo_format = ((\<lambda>f args. Inr f), (\<lambda>a. []))"

lemma demo_log_line:
  "fst (log_line demo_format (\<lambda>l t. None) demo_sink demo_log) = ''[1900-01-00T00:00:00.000001Z] ERROR <f:7> x'' @ [CHR 0x0A]"
  by code_simp

lemma log_sink_write_correct_witness:
  "\<exists>out. log_sink_write demo_format (\<lambda>l t. None) (Interrupted # replicate 44 (Transferred 1)) demo_sink demo_log
       = Some (out, snd (log_line demo_format (\<lambda>l t. None) demo_sink demo_log))
     \<and> written out = ''[1900-01-00T00:00:00.000001Z] ERROR <f:7> x'' @ [CHR 0x0A] \<and> Fsync \<in> set out"
  (is "\<exists>out. _ = Some (out, snd ?l) \<and> _")
proof -
  have "?l = (fst ?l, snd ?l)" by simp
  moreover have "length (fst ?l) \<le> length (filter productive (Interrupted # replicate 44 (Transferred 1)))"
    by (simp add: demo_log_line productive_def)
  moreover have "\<not> m_level demo_log < ls_min_log_level demo_sink" "ls_flush_on_write demo_sink"
    by (simp_all add: demo_log_def demo_sink_def log_message_make_def log_sink_make_def default_log_sink_opts_def
        less_log_level_def level_number_def)
  moreover have "Failed \<notin> set (Interrupted # replicate 44 (Transferred 1))" by simp
  ultimately show ?thesis
    using log_sink_write_correct [of demo_format "\<lambda>l t. None" demo_sink demo_log "fst ?l" "snd ?l"
        "Interrupted # replicate 44 (Transferred 1)"]
    unfolding demo_log_line by auto
qed

text \<open>Validation of the exporter's options.  They are accepted exactly when the endpoint and the five
  resource strings each contain a character that is not white space, the token is empty or does, and
  the batch size is not zero; otherwise \<open>std::invalid_argument\<close> is thrown.\<close>

lemma otel_opts_validation:
  "(otel_sink_opts_validate opts = Inr () \<longleftrightarrow>
      (\<forall>s \<in> {oo_endpoint opts, oo_service_namespace opts, oo_service_name opts, oo_service_version opts,
             oo_service_instance_id opts, oo_environment_name opts}. \<exists>c \<in> set s. \<not> isspace c)
      \<and> (oo_auth_token opts = [] \<or> (\<exists>c \<in> set (oo_auth_token opts). \<not> isspace c))
      \<and> oo_batch_size opts \<noteq> 0)
   \<and> (\<forall>e. otel_sink_opts_validate opts = Inl e \<longrightarrow> (\<exists>msg. e = std_invalid_argument msg))"
  by (auto simp: otel_sink_opts_validate_def checks_iff validate_required_iff validate_optional_iff
      has_non_whitespace_iff validate_required_string_def validate_optional_non_whitespace_string_def
      split: if_splits)

text \<open>Constructing a file sink either yields a sink with a valid descriptor, which its destructor
  closes, or throws with no descriptor open; with a blank path nothing is touched.  A file sink that is
  moved from keeps its descriptor: destroying both objects closes the same descriptor twice.\<close>

lemma file_sink_descriptor:
  "(case file_sink_make parent dir_exists fd opts of
      (ops, Inr sink) \<Rightarrow> fd \<ge> 0 \<and> ls_fd sink = fd \<and> file_sink_destroy sink = [Close fd]
        \<and> last ops = Open_truncate (fo_file_path opts)
        \<and> (case file_sink_move sink of (new, old) \<Rightarrow>
             file_sink_destroy new @ file_sink_destroy old = [Close fd, Close fd])
    | (ops, Inl e) \<Rightarrow>
        if has_non_whitespace (fo_file_path opts) then fd < 0 \<and> last ops = Open_truncate (fo_file_path opts)
        else ops = [])"
  by (auto simp: file_sink_make_def file_sink_opts_validate_def open_file_def file_sink_destroy_def
      file_sink_move_def Let_def validate_required_string_def split: if_splits sum.splits)

definition demo_otel_opts :: otel_sink_opts where
  "demo_otel_opts =
     \<lparr>oo_min_log_level = information, oo_endpoint = ''http://c:4318/v1/logs'', oo_auth_token = [],
      oo_service_namespace = ''n'', oo_service_name = ''s'', oo_service_version = ''1'',
      oo_service_instance_id = ''i'', oo_environment_name = ''e'', oo_batch_size = 100,
      oo_use_local_time = False\<rparr>"

lemma otel_opts_validation_witness: "otel_sink_opts_validate demo_otel_opts = Inr ()"
  using otel_opts_validation [of demo_otel_opts] by (simp add: demo_otel_opts_def isspace_def)

end
