(* ===== verification/Otel_Sink.thy ===== *)
theory Otel_Sink
  imports Otel_Serializer Log_Sink Channel
begin

text \<open>
  \<open>logging/sinks/otel_sink.h\<close>: the exporter.  Threads that log push messages into the sink's channel; a
  worker takes them out in batches, builds one request per batch and hands it to the transport.

  \<open>otel_step\<close> interleaves the operations: a log call, the destructor's completion of the channel, and the
  worker's next action.  The bodies given to \<open>m_transport->send\<close> are recorded in \<open>os_sent\<close>.  The fields
  \<open>os_accepted\<close>, \<open>os_batches\<close> and \<open>os_batch\<close> record the messages behind the bodies; no action depends on
  them.  The host name is a parameter of the steps, what \<open>get_hostname\<close> computed once for the process.
\<close>

section \<open>The host name\<close>

text \<open>\<open>get_hostname\<close>, for the answer of \<open>::gethostname\<close> and the contents of the buffer of 256 bytes after it.
  The string ends at the first null character; without one in the buffer the behaviour is undefined,
  \<open>None\<close>.\<close>

definition get_hostname :: "int \<Rightarrow> string \<Rightarrow> string option" where
  "get_hostname answer buffer =
     (if answer = 0
      then if CHR 0x00 \<in> set buffer then Some (takeWhile (\<lambda>c. c \<noteq> CHR 0x00) buffer) else None
      else Some ''unknown'')"

section \<open>Requests\<close>

definition resource_attribute :: "string \<Rightarrow> string \<Rightarrow> string" where
  "resource_attribute key val =
     tmpl ''{`key`:`'' @ key @ tmpl ''`,`value`:{`stringValue`:`'' @ val @ tmpl ''`}}''"

definition request_header :: "otel_sink_opts \<Rightarrow> string \<Rightarrow> string" where
  "request_header opts hostname =
     tmpl ''{`resourceLogs`:[{`resource`:{`attributes`:[''
     @ resource_attribute ''service.namespace'' (oo_service_namespace opts)
     @ '','' @ resource_attribute ''service.name'' (oo_service_name opts)
     @ '','' @ resource_attribute ''service.version'' (oo_service_version opts)
     @ '','' @ resource_attribute ''service.instance.id'' (oo_service_instance_id opts)
     @ '','' @ resource_attribute ''host.name'' hostname
     @ '','' @ resource_attribute ''deployment.environment.name'' (oo_environment_name opts)
     @ '','' @ resource_attribute ''telemetry.sdk.name'' ''xtd.logging''
     @ '','' @ resource_attribute ''telemetry.sdk.language'' ''cpp''
     @ tmpl '']},`scopeLogs`:[{`scope`:{`name`:`xtd.logging`,`version`:`1.0.0`},`logRecords`:[''"

definition request_footer :: string where
  "request_footer = '']}]}]}''"

section \<open>The state and the actions\<close>

datatype worker_pc = At_read | In_read | Batching size_t | Finished

record 'a otel_sink =
  os_opts :: otel_sink_opts
  os_channel :: "'a log_message channel"
  os_body :: string
  os_pc :: worker_pc
  os_sent :: "string list"
  os_accepted :: "'a log_message list"
  os_batches :: "'a log_message list list"
  os_batch :: "'a log_message list"

text \<open>The constructor, up to the start of the worker: the options are validated first.\<close>

definition otel_sink_make :: "otel_sink_opts \<Rightarrow> 'a otel_sink throws" where
  "otel_sink_make opts =
     (case otel_sink_opts_validate opts of
        Inl e \<Rightarrow> Inl e
      | Inr _ \<Rightarrow>
          Inr \<lparr>os_opts = opts, os_channel = channel_make 0, os_body = [], os_pc = At_read, os_sent = [],
               os_accepted = [], os_batches = [], os_batch = []\<rparr>)"

text \<open>\<open>otel_sink::write\<close>.  The channel is unbounded, so that \<open>try_push\<close> fails only after completion.\<close>

definition otel_write :: "'a log_message \<Rightarrow> 'a otel_sink \<Rightarrow> 'a otel_sink" where
  "otel_write m s =
     (if m_level m < oo_min_log_level (os_opts s) then s
      else
        (case channel_writer_try_push m (os_channel s) of
           Ch_blocks c \<Rightarrow> s\<lparr>os_channel := c\<rparr>
         | Ch_done (ok, notify) c \<Rightarrow>
             s\<lparr>os_channel := c, os_accepted := (if ok then os_accepted s @ [m] else os_accepted s)\<rparr>))"

text \<open>The destructor completes the channel and waits for the worker.\<close>

definition otel_complete :: "'a otel_sink \<Rightarrow> 'a otel_sink" where
  "otel_complete s = s\<lparr>os_channel := channel_writer_complete (os_channel s)\<rparr>"

definition record_text :: "'a formatter \<Rightarrow> 'a log_message \<Rightarrow> string" where
  "record_text fmt m = fst (serialize_record fmt m)"

text \<open>The outer loop of \<open>process_messages\<close>, when \<open>reader.read()\<close> comes back.\<close>

fun after_batch_read ::
  "'a formatter \<Rightarrow> string \<Rightarrow> ((channel_read_errors + 'a log_message) \<times> bool, 'a log_message) ch_outcome
     \<Rightarrow> 'a otel_sink \<Rightarrow> 'a otel_sink"
where
  "after_batch_read fmt hostname (Ch_blocks c) s = s\<lparr>os_channel := c, os_pc := In_read\<rparr>"
| "after_batch_read fmt hostname (Ch_done (Inl e, notify) c) s = s\<lparr>os_channel := c, os_pc := Finished\<rparr>"
| "after_batch_read fmt hostname (Ch_done (Inr m, notify) c) s =
     s\<lparr>os_channel := c, os_pc := Batching 1,
       os_body := os_body s @ request_header (os_opts s) hostname @ record_text fmt m,
       os_batch := [m]\<rparr>"

definition send_batch :: "'a otel_sink \<Rightarrow> 'a otel_sink" where
  "send_batch s =
     s\<lparr>os_sent := os_sent s @ [os_body s @ request_footer], os_body := [], os_pc := At_read,
       os_batches := os_batches s @ [os_batch s], os_batch := []\<rparr>"

text \<open>One turn of the inner loop, or what follows it.\<close>

definition batch_more :: "'a formatter \<Rightarrow> size_t \<Rightarrow> 'a otel_sink \<Rightarrow> 'a otel_sink" where
  "batch_more fmt msg_count s =
     (if msg_count < oo_batch_size (os_opts s) then
        (case channel_reader_try_read (os_channel s) of
           Ch_done (Inr m, notify) c \<Rightarrow>
             s\<lparr>os_channel := c, os_pc := Batching (msg_count + 1),
               os_body := os_body s @ '','' @ record_text fmt m, os_batch := os_batch s @ [m]\<rparr>
         | _ \<Rightarrow> send_batch s)
      else send_batch s)"

definition worker_step :: "'a formatter \<Rightarrow> string \<Rightarrow> 'a otel_sink \<Rightarrow> 'a otel_sink" where
  "worker_step fmt hostname s =
     (case os_pc s of
        At_read \<Rightarrow> after_batch_read fmt hostname (channel_reader_read False (os_channel s)) s
      | In_read \<Rightarrow> after_batch_read fmt hostname (resume_read False (os_channel s)) s
      | Batching n \<Rightarrow> batch_more fmt n s
      | Finished \<Rightarrow> s)"

datatype 'a otel_event = Log_call "'a log_message" | Complete | Work

inductive otel_step :: "'a formatter \<Rightarrow> string \<Rightarrow> 'a otel_sink \<Rightarrow> 'a otel_event \<Rightarrow> 'a otel_sink \<Rightarrow> bool"
  for fmt :: "'a formatter" and hostname :: string
where
  log_call: "otel_step fmt hostname s (Log_call m) (otel_write m s)"
| complete: "otel_step fmt hostname s Complete (otel_complete s)"
| work: "otel_step fmt hostname s Work (worker_step fmt hostname s)"

inductive_cases otel_step_cases: "otel_step fmt hostname s l t"

definition otel_init :: "otel_sink_opts \<Rightarrow> 'a otel_sink \<Rightarrow> bool" where
  "otel_init opts s \<longleftrightarrow> otel_sink_make opts = Inr s"

section \<open>The invariant\<close>

definition request_start :: "'a formatter \<Rightarrow> otel_sink_opts \<Rightarrow> string \<Rightarrow> 'a log_message list \<Rightarrow> string" where
  "request_start fmt opts hostname ms = request_header opts hostname @ commas (map (record_text fmt) ms)"

definition request_body :: "'a formatter \<Rightarrow> otel_sink_opts \<Rightarrow> string \<Rightarrow> 'a log_message list \<Rightarrow> string" where
  "request_body fmt opts hostname ms = request_start fmt opts hostname ms @ request_footer"

definition batch_ok :: "otel_sink_opts \<Rightarrow> 'a log_message list \<Rightarrow> bool" where
  "batch_ok opts b \<longleftrightarrow> b \<noteq> [] \<and> length b \<le> unat (oo_batch_size opts)"

definition worker_ok :: "'a formatter \<Rightarrow> string \<Rightarrow> 'a otel_sink \<Rightarrow> bool" where
  "worker_ok fmt hostname s \<longleftrightarrow>
     (case os_pc s of
        Batching n \<Rightarrow>
          batch_ok (os_opts s) (os_batch s) \<and> unat n = length (os_batch s)
          \<and> os_body s = request_start fmt (os_opts s) hostname (os_batch s)
      | Finished \<Rightarrow>
          os_batch s = [] \<and> os_body s = [] \<and> ch_queue (os_channel s) = [] \<and> ch_writer_completed (os_channel s)
      | _ \<Rightarrow> os_batch s = [] \<and> os_body s = [])"

definition otel_inv :: "'a formatter \<Rightarrow> otel_sink_opts \<Rightarrow> string \<Rightarrow> 'a otel_sink \<Rightarrow> bool" where
  "otel_inv fmt opts hostname s \<longleftrightarrow>
     os_opts s = opts \<and> oo_batch_size opts \<noteq> 0 \<and> ch_capacity (os_channel s) = 0
     \<and> os_accepted s = concat (os_batches s) @ os_batch s @ ch_queue (os_channel s)
     \<and> os_sent s = map (request_body fmt opts hostname) (os_batches s)
     \<and> list_all (batch_ok opts) (os_batches s)
     \<and> list_all (\<lambda>m. oo_min_log_level opts \<le> m_level m) (os_accepted s)
     \<and> worker_ok fmt hostname s"

lemma commas_snoc: "ss \<noteq> [] \<Longrightarrow> commas (ss @ [s]) = commas ss @ '','' @ s"
  by (induction ss rule: commas.induct) simp_all

lemma request_start_snoc:
  "ms \<noteq> [] \<Longrightarrow> request_start fmt opts hostname (ms @ [m])
     = request_start fmt opts hostname ms @ '','' @ record_text fmt m"
  by (simp add: request_start_def commas_snoc)

lemma unbounded_not_full: "ch_capacity c = 0 \<Longrightarrow> \<not> full c"
  by (simp add: full_def)

lemma write_inv:
  assumes "otel_inv fmt opts hostname s"
  shows "otel_inv fmt opts hostname (otel_write m s)"
  using assms
  by (auto simp: otel_inv_def otel_write_def channel_writer_try_push_def try_emplace_outcome unbounded_not_full
      worker_ok_def not_less split: worker_pc.splits)

lemma complete_inv:
  "otel_inv fmt opts hostname s \<Longrightarrow> otel_inv fmt opts hostname (otel_complete s)"
  by (auto simp: otel_inv_def otel_complete_def channel_writer_complete_def channel_complete_writer_def
      worker_ok_def split: worker_pc.splits)

lemma read_inv:
  assumes inv: "otel_inv fmt opts hostname s" and pc: "os_pc s = At_read \<or> os_pc s = In_read"
    and r: "r = channel_reader_read False (os_channel s) \<or> r = resume_read False (os_channel s)"
  shows "otel_inv fmt opts hostname (after_batch_read fmt hostname r s)"
proof -
  have "0 < unat (oo_batch_size opts)" using inv by (simp add: otel_inv_def unat_gt_0)
  then have one: "batch_ok opts [m]" for m :: "'a log_message" by (simp add: batch_ok_def)
  have "os_batch s = []" "os_body s = []" using inv pc by (auto simp: otel_inv_def worker_ok_def)
  with inv r one show ?thesis
    by (cases "ch_queue (os_channel s)")
      (auto simp: otel_inv_def worker_ok_def channel_reader_read_def read_outcome resume_read_outcome
        request_start_def)
qed

lemma send_inv:
  assumes "otel_inv fmt opts hostname s" and "os_pc s = Batching n"
  shows "otel_inv fmt opts hostname (send_batch s)"
  using assms by (auto simp: otel_inv_def worker_ok_def send_batch_def request_body_def)

lemma batch_inv:
  assumes inv: "otel_inv fmt opts hostname s" and pc: "os_pc s = Batching n"
  shows "otel_inv fmt opts hostname (batch_more fmt n s)"
proof (cases "n < oo_batch_size (os_opts s) \<and> ch_queue (os_channel s) \<noteq> []")
  case True
  then obtain m ms where q: "ch_queue (os_channel s) = m # ms" by (cases "ch_queue (os_channel s)") auto
  have n: "unat n = length (os_batch s)" and ne: "os_batch s \<noteq> []" and opts: "os_opts s = opts"
    using inv pc by (simp_all add: otel_inv_def worker_ok_def batch_ok_def)
  have less: "unat n < unat (oo_batch_size opts)" using True opts by (simp add: size_less_iff)
  then have "unat n + unat (1 :: size_t) < 2 ^ 64" using unat_size_bound [of "oo_batch_size opts"] by simp
  then have "unat (n + 1) = Suc (unat n)" by (simp add: unat_add_size)
  then have "batch_ok opts (os_batch s @ [m])" "unat (n + 1) = length (os_batch s @ [m])"
    using less n by (simp_all add: batch_ok_def)
  then show ?thesis using inv pc q True ne
    by (auto simp: otel_inv_def worker_ok_def batch_more_def channel_reader_try_read_def try_read_outcome
        request_start_snoc)
next
  case False
  then have "batch_more fmt n s = send_batch s"
    by (auto simp: batch_more_def channel_reader_try_read_def try_read_outcome)
  with send_inv [OF inv pc] show ?thesis by simp
qed

lemma worker_inv: "otel_inv fmt opts hostname s \<Longrightarrow> otel_inv fmt opts hostname (worker_step fmt hostname s)"
  by (auto simp: worker_step_def intro: read_inv batch_inv split: worker_pc.splits)

lemma otel_init_inv: "otel_init opts s \<Longrightarrow> otel_inv fmt opts hostname s"
  by (auto simp: otel_init_def otel_sink_make_def otel_inv_def worker_ok_def channel_make_def
      otel_sink_opts_validate_def checks_iff split: sum.splits if_splits)

interpretation otel: inductive_invariant "otel_init opts" "otel_step fmt hostname" "\<lambda>_. True"
  "otel_inv fmt opts hostname"
  by unfold_locales
    (auto elim!: otel_step_cases intro: otel_init_inv write_inv complete_inv worker_inv)

section \<open>Draining after completion\<close>

definition remaining_work :: "'a otel_sink \<Rightarrow> nat" where
  "remaining_work s =
     3 * length (ch_queue (os_channel s))
     + (case os_pc s of Batching n \<Rightarrow> 2 | Finished \<Rightarrow> 0 | _ \<Rightarrow> 1)"

lemma worker_progress:
  assumes "ch_writer_completed (os_channel s)" and "os_pc s \<noteq> Finished"
  shows "remaining_work (worker_step fmt hostname s) < remaining_work s"
    and "ch_writer_completed (os_channel (worker_step fmt hostname s))"
    and "os_accepted (worker_step fmt hostname s) = os_accepted s"
  using assms
  by (auto simp: remaining_work_def worker_step_def channel_reader_read_def channel_reader_try_read_def
      read_outcome resume_read_outcome try_read_outcome batch_more_def send_batch_def
      split: worker_pc.splits list.splits)

lemma worker_drains:
  assumes "ch_writer_completed (os_channel s)"
  shows "\<exists>n. os_pc ((worker_step fmt hostname ^^ n) s) = Finished
     \<and> os_accepted ((worker_step fmt hostname ^^ n) s) = os_accepted s"
  using assms
proof (induction "remaining_work s" arbitrary: s rule: less_induct)
  case less
  show ?case
  proof (cases "os_pc s = Finished")
    case True
    then show ?thesis by (intro exI [of _ 0]) simp
  next
    case False
    note p = worker_progress [OF less.prems False, of fmt hostname]
    from less.hyps [OF p(1,2)] p(3) obtain n where
      "os_pc ((worker_step fmt hostname ^^ n) (worker_step fmt hostname s)) = Finished"
      "os_accepted ((worker_step fmt hostname ^^ n) (worker_step fmt hostname s)) = os_accepted s" by auto
    then show ?thesis by (intro exI [of _ "Suc n"]) (simp add: funpow_swap1)
  qed
qed

lemma workers_reach:
  "reach (otel_init opts) (otel_step fmt hostname) (\<lambda>_. True) s \<Longrightarrow>
     reach (otel_init opts) (otel_step fmt hostname) (\<lambda>_. True) ((worker_step fmt hostname ^^ n) s)"
  by (induction n) (auto intro: reach_step otel_step.work)

section \<open>The request as a JSON value\<close>

definition request_tree :: "'a formatter \<Rightarrow> otel_sink_opts \<Rightarrow> string \<Rightarrow> 'a log_message list \<Rightarrow> json" where
  "request_tree fmt opts hostname ms =
     JObj [(''resourceLogs'', JArr [JObj
       [(''resource'', JObj [(''attributes'', JArr
          [attribute_tree ''service.namespace'' (string_tree (oo_service_namespace opts)),
           attribute_tree ''service.name'' (string_tree (oo_service_name opts)),
           attribute_tree ''service.version'' (string_tree (oo_service_version opts)),
           attribute_tree ''service.instance.id'' (string_tree (oo_service_instance_id opts)),
           attribute_tree ''host.name'' (string_tree hostname),
           attribute_tree ''deployment.environment.name'' (string_tree (oo_environment_name opts)),
           attribute_tree ''telemetry.sdk.name'' (string_tree ''xtd.logging''),
           attribute_tree ''telemetry.sdk.language'' (string_tree ''cpp'')])]),
        (''scopeLogs'', JArr [JObj
          [(''scope'', JObj [(''name'', JStr ''xtd.logging''), (''version'', JStr ''1.0.0'')]),
           (''logRecords'', JArr (map (record_tree fmt) ms))]])]])]"

definition plain_resource :: "otel_sink_opts \<Rightarrow> string \<Rightarrow> bool" where
  "plain_resource opts hostname \<longleftrightarrow>
     list_all (list_all plain_char)
       [oo_service_namespace opts, oo_service_name opts, oo_service_version opts,
        oo_service_instance_id opts, hostname, oo_environment_name opts]"

lemma print_resource_attribute:
  "list_all plain_char key \<Longrightarrow> list_all plain_char val \<Longrightarrow>
     print_json (attribute_tree key (string_tree val)) = resource_attribute key val"
  by (simp add: print_attribute_tree print_string_tree string_value_def resource_attribute_def escape_literal
      tmpl_def)

lemma request_body_print:
  assumes "plain_resource opts hostname" and "\<And>m. m \<in> set ms \<Longrightarrow> caches_ok fmt m"
  shows "request_body fmt opts hostname ms = print_json (request_tree fmt opts hostname ms)"
proof -
  have records: "map (record_text fmt) ms = map (print_json \<circ> record_tree fmt) ms"
    using assms(2) by (simp add: record_text_def serialize_record_print)
  have "print_string s = quote # s @ [quote]" if "list_all plain_char s" for s
    using that by (simp add: print_string_def escape_literal)
  then show ?thesis using assms(1)
    by (simp add: records request_body_def request_start_def request_header_def request_footer_def request_tree_def
        plain_resource_def print_resource_attribute plain_char_def tmpl_def quote_def)
qed

section \<open>Texts that do not parse\<close>

lemma parse_plain_chars: "list_all plain_char s \<Longrightarrow> parse_chars (s @ CHR 0x22 # rest) = Some (s, rest)"
  using parse_escape_json [of s rest] by (simp add: escape_literal quote_def)

lemma parse_object_None:
  "(\<And>m. parse_members m (c # s) = None) \<Longrightarrow> c \<noteq> CHR ''}'' \<Longrightarrow> parse_value n (CHR ''{'' # c # s) = None"
  by (cases n) simp_all

lemma parse_array_None:
  "(\<And>m. parse_value m (c # s) = None) \<Longrightarrow> c \<noteq> CHR '']'' \<Longrightarrow> parse_value n (CHR ''['' # c # s) = None"
proof (cases n)
  case (Suc m)
  assume none: "\<And>m. parse_value m (c # s) = None" and "c \<noteq> CHR '']''"
  moreover have "parse_elements m (c # s) = None" using none by (cases m) simp_all
  ultimately show ?thesis using Suc by simp
qed simp

lemma parse_member_None:
  "parse_chars qs = Some (k, CHR '':'' # ds) \<Longrightarrow> (\<And>m. parse_value m ds = None) \<Longrightarrow>
     parse_members n (CHR 0x22 # qs) = None"
  by (cases n) simp_all

lemma parse_next_member_None:
  assumes "parse_chars qs = Some (k, CHR '':'' # CHR 0x22 # ds)" and "parse_chars ds = Some (t, CHR '','' # cs)"
    and "\<And>m. parse_members m cs = None"
  shows "parse_members n (CHR 0x22 # qs) = None"
proof (cases n)
  case (Suc m)
  have "parse_value m (CHR 0x22 # ds) = (if m = 0 then None else Some (JStr t, CHR '','' # cs))"
    using assms(2) by (cases m) simp_all
  with Suc assms(1,3) show ?thesis by simp
qed simp

lemma parse_member_junk:
  assumes "parse_chars qs = Some (k, CHR '':'' # CHR 0x22 # CHR 0x22 # CHR 0x22 # r)"
  shows "parse_members n (CHR 0x22 # qs) = None"
proof (cases n)
  case (Suc m)
  with assms show ?thesis by (cases m) simp_all
qed simp

section \<open>Properties\<close>

text \<open>C15: The exporter loses and reorders nothing.  In every state that any interleaving of log calls, the
  worker and the destructor reaches, the messages accepted are those of the requests sent, then those
  of the request being built, then the queue, in this order; all are at or above the minimum level;
  every request is the header, the records of its batch separated by commas and the footer; no batch
  is empty or larger than the batch size; and when the worker has finished, everything was sent.\<close>

theorem otel_exports_in_order:
  assumes "reach (otel_init opts) (otel_step fmt hostname) (\<lambda>_. True) s"
  shows "os_accepted s = concat (os_batches s) @ os_batch s @ ch_queue (os_channel s)
    \<and> list_all (\<lambda>m. oo_min_log_level opts \<le> m_level m) (os_accepted s)
    \<and> os_sent s = map (request_body fmt opts hostname) (os_batches s)
    \<and> list_all (\<lambda>b. b \<noteq> [] \<and> length b \<le> unat (oo_batch_size opts)) (os_batches s)
    \<and> (if os_pc s = Finished then os_accepted s = concat (os_batches s) else True)"
  using otel.reach_inv [OF assms]
  by (auto simp: otel_inv_def worker_ok_def batch_ok_def cong: list.pred_cong)

definition demo_otel :: "nat otel_sink" where
  "demo_otel =
     \<lparr>os_opts = demo_otel_opts, os_channel = channel_make 0, os_body = [], os_pc = At_read, os_sent = [],
      os_accepted = [], os_batches = [], os_batch = []\<rparr>"

lemma demo_otel_init: "otel_init demo_otel_opts demo_otel"
  by (simp add: otel_init_def otel_sink_make_def demo_otel_def otel_sink_opts_validate_def demo_otel_opts_def
      validate_required_string_def validate_optional_non_whitespace_string_def isspace_def)

lemma demo_otel_reach:
  "reach (otel_init demo_otel_opts) (otel_step demo_formatter ''h'') (\<lambda>_. True)
     (otel_complete (otel_write demo_message demo_otel))"
proof (rule reach_run)
  show "run (otel_step demo_formatter ''h'') demo_otel [Log_call demo_message, Complete]
      (otel_complete (otel_write demo_message demo_otel))"
    by (rule run_cons, rule otel_step.log_call, rule run_cons, rule otel_step.complete, rule run_nil)
qed (simp_all add: reach_init demo_otel_init)

lemma demo_otel_accepted: "os_accepted (otel_complete (otel_write demo_message demo_otel)) = [demo_message]"
  by (simp add: otel_complete_def otel_write_def demo_otel_def demo_otel_opts_def demo_message_def
      log_message_make_def less_log_level_def level_number_def channel_writer_try_push_def try_emplace_outcome
      channel_make_def full_def)

lemma otel_exports_in_order_witness:
  "[demo_message]
     = concat (os_batches (otel_complete (otel_write demo_message demo_otel)))
       @ os_batch (otel_complete (otel_write demo_message demo_otel))
       @ ch_queue (os_channel (otel_complete (otel_write demo_message demo_otel)))"
  using otel_exports_in_order [OF demo_otel_reach] by (simp only: demo_otel_accepted)

text \<open>C16: The destructor returns.  From every reachable state in which the channel is completed, finitely
  many actions of the worker alone bring it to its end, and then the requests sent contain every
  message that was ever accepted, once and in order.\<close>

theorem otel_drains_on_completion:
  assumes "reach (otel_init opts) (otel_step fmt hostname) (\<lambda>_. True) s"
    and "ch_writer_completed (os_channel s)"
  shows "\<exists>n. os_pc ((worker_step fmt hostname ^^ n) s) = Finished
     \<and> concat (os_batches ((worker_step fmt hostname ^^ n) s)) = os_accepted s"
proof -
  obtain n where n: "os_pc ((worker_step fmt hostname ^^ n) s) = Finished"
    "os_accepted ((worker_step fmt hostname ^^ n) s) = os_accepted s"
    using worker_drains [OF assms(2)] by blast
  have "otel_inv fmt opts hostname ((worker_step fmt hostname ^^ n) s)"
    using otel.reach_inv workers_reach [OF assms(1)] by blast
  with n show ?thesis by (intro exI [of _ n]) (simp add: otel_inv_def worker_ok_def)
qed

lemma otel_drains_on_completion_witness:
  "\<exists>n. concat (os_batches ((worker_step demo_formatter ''h'' ^^ n) (otel_complete (otel_write demo_message demo_otel))))
     = [demo_message]"
proof -
  have "ch_writer_completed (os_channel (otel_complete (otel_write demo_message demo_otel)))"
    by (simp add: otel_complete_def channel_writer_complete_def channel_complete_writer_def)
  from otel_drains_on_completion [OF demo_otel_reach this] show ?thesis by (auto simp: demo_otel_accepted)
qed

text \<open>C18: A request is well-formed JSON that carries the records of its batch in order, provided the
  resource strings of the options and the host name contain no quote, no backslash and no control
  character.\<close>

theorem otel_request_parses:
  assumes "plain_resource opts hostname" and "\<And>m. m \<in> set ms \<Longrightarrow> caches_ok fmt m"
  shows "parse_json (request_body fmt opts hostname ms) = Some (request_tree fmt opts hostname ms)"
  by (simp add: request_body_print [OF assms] parse_print_json)

lemma otel_request_parses_witness:
  "parse_json (request_body demo_formatter demo_otel_opts ''h'' [demo_message, demo_message])
     = Some (request_tree demo_formatter demo_otel_opts ''h'' [demo_message, demo_message])"
proof (rule otel_request_parses)
  show "plain_resource demo_otel_opts ''h''"
    by (simp add: plain_resource_def demo_otel_opts_def plain_char_def)
qed (simp add: demo_message_def caches_ok_make)

text \<open>That proviso is needed and nothing enforces it: the resource strings go into the request without
  escaping.  With a service namespace that the validation accepts, a single quote character, no request
  is JSON, whatever it carries.\<close>

lemma otel_resource_unescaped:
  "otel_sink_opts_validate (demo_otel_opts\<lparr>oo_service_namespace := [CHR 0x22]\<rparr>) = Inr ()
   \<and> parse_json (request_body fmt (demo_otel_opts\<lparr>oo_service_namespace := [CHR 0x22]\<rparr>) hostname ms) = None"
proof -
  let ?opts = "demo_otel_opts\<lparr>oo_service_namespace := [CHR 0x22]\<rparr>"
  obtain rest where body: "request_body fmt ?opts hostname ms =
      tmpl ''{`resourceLogs`:[{`resource`:{`attributes`:[{`key`:`service.namespace`,`value`:{`stringValue`:```'' @ rest"
    by (simp add: request_body_def request_start_def request_header_def resource_attribute_def tmpl_def)
  have "parse_value n (request_body fmt ?opts hostname ms) = None" for n
    unfolding body tmpl_def
    by (simp add: parse_object_None parse_array_None parse_member_None parse_next_member_None
        parse_member_junk parse_plain_chars [of "_ # _", simplified])
  moreover have "otel_sink_opts_validate ?opts = Inr ()"
    by (simp add: otel_sink_opts_validate_def demo_otel_opts_def validate_required_string_def
        validate_optional_non_whitespace_string_def isspace_def)
  ultimately show ?thesis by (simp add: parse_json_def)
qed

text \<open>The host name is the name the system gave when it fits into the buffer, and a fixed text when the call
  fails.\<close>

lemma get_hostname_name:
  assumes "CHR 0x00 \<notin> set name"
  shows "get_hostname 0 (name @ CHR 0x00 # rest) = Some name"
    and "answer \<noteq> 0 \<Longrightarrow> get_hostname answer buffer = Some ''unknown''"
  using assms by (auto simp: get_hostname_def takeWhile_append)

end
