(* ===== verification/Logger.thy ===== *)
theory Logger
  imports Otel_Sink
begin

text \<open>
  \<open>logging/logging.h\<close>: the logger.  A log call hands the message to every sink that has a channel of its
  own (the exporters) and pushes it into the logger's channel when there are other sinks; a worker takes
  the messages out of that channel and hands each to these sinks.

  \<open>logger_step\<close> interleaves log calls, the logger's worker, the workers of the exporters and the
  destructor.  Sinks are added before the first log call: the code does not synchronise \<open>add_sink\<close> with
  the worker's loop over the sinks.  \<open>lg_logged\<close> and \<open>lg_handled\<close> record the messages logged and those the
  worker has handed out; no action depends on them.
\<close>

section \<open>The state and the actions\<close>

text \<open>A text sink with the messages it was given and did not drop, or an exporter.\<close>

datatype 'a any_sink = Text_sink log_sink "'a log_message list" | Exporter "'a otel_sink"

fun own_channel :: "'a any_sink \<Rightarrow> bool" where
  "own_channel (Text_sink s ms) = ls_own_channel s"
| "own_channel (Exporter s) = True"

fun sink_write :: "'a log_message \<Rightarrow> 'a any_sink \<Rightarrow> 'a any_sink" where
  "sink_write m (Text_sink s ms) = Text_sink s (if m_level m < ls_min_log_level s then ms else ms @ [m])"
| "sink_write m (Exporter s) = Exporter (otel_write m s)"

datatype logger_pc = Lg_at_read | Lg_in_read | Lg_finished

record 'a logger =
  lg_channel :: "'a log_message channel"
  lg_sinks :: "'a any_sink list"
  lg_own_channel_sinks :: "'a any_sink list"
  lg_pc :: logger_pc
  lg_handled :: "'a log_message list"
  lg_logged :: "'a log_message list"

definition logger_make :: "'a logger" where
  "logger_make =
     \<lparr>lg_channel = channel_make 0, lg_sinks = [], lg_own_channel_sinks = [], lg_pc = Lg_at_read,
      lg_handled = [], lg_logged = []\<rparr>"

definition add_sink :: "'a any_sink \<Rightarrow> 'a logger \<Rightarrow> 'a logger" where
  "add_sink sink l =
     (if own_channel sink then l\<lparr>lg_own_channel_sinks := lg_own_channel_sinks l @ [sink]\<rparr>
      else l\<lparr>lg_sinks := lg_sinks l @ [sink]\<rparr>)"

definition log :: "'a log_message \<Rightarrow> 'a logger \<Rightarrow> 'a logger" where
  "log message l =
     (let l1 = l\<lparr>lg_own_channel_sinks := map (sink_write message) (lg_own_channel_sinks l),
                 lg_logged := lg_logged l @ [message]\<rparr>
      in if lg_sinks l \<noteq> [] then
           (case channel_writer_try_push message (lg_channel l) of
              Ch_blocks c \<Rightarrow> l1\<lparr>lg_channel := c\<rparr>
            | Ch_done r c \<Rightarrow> l1\<lparr>lg_channel := c\<rparr>)
         else l1)"

text \<open>The loop of \<open>process_logs\<close>, when the generator resumes its read.\<close>

fun process_after ::
  "((channel_read_errors + 'a log_message) \<times> bool, 'a log_message) ch_outcome \<Rightarrow> 'a logger \<Rightarrow> 'a logger"
where
  "process_after (Ch_blocks c) l = l\<lparr>lg_channel := c, lg_pc := Lg_in_read\<rparr>"
| "process_after (Ch_done (Inl e, notify) c) l = l\<lparr>lg_channel := c, lg_pc := Lg_finished\<rparr>"
| "process_after (Ch_done (Inr message, notify) c) l =
     l\<lparr>lg_channel := c, lg_pc := Lg_at_read, lg_sinks := map (sink_write message) (lg_sinks l),
       lg_handled := lg_handled l @ [message]\<rparr>"

definition process_logs :: "'a logger \<Rightarrow> 'a logger" where
  "process_logs l =
     (case lg_pc l of
        Lg_at_read \<Rightarrow> process_after (channel_reader_read False (lg_channel l)) l
      | Lg_in_read \<Rightarrow> process_after (resume_read False (lg_channel l)) l
      | Lg_finished \<Rightarrow> l)"

text \<open>The destructor completes the channel and waits for the worker.\<close>

definition logger_complete :: "'a logger \<Rightarrow> 'a logger" where
  "logger_complete l = l\<lparr>lg_channel := channel_writer_complete (lg_channel l)\<rparr>"

fun sink_work :: "'a formatter \<Rightarrow> string \<Rightarrow> 'a any_sink \<Rightarrow> 'a any_sink" where
  "sink_work fmt hostname (Text_sink s ms) = Text_sink s ms"
| "sink_work fmt hostname (Exporter s) = Exporter (worker_step fmt hostname s)"

definition exporter_work :: "'a formatter \<Rightarrow> string \<Rightarrow> nat \<Rightarrow> 'a logger \<Rightarrow> 'a logger" where
  "exporter_work fmt hostname i l =
     l\<lparr>lg_own_channel_sinks :=
         (lg_own_channel_sinks l)[i := sink_work fmt hostname (lg_own_channel_sinks l ! i)]\<rparr>"

datatype 'a logger_event = Lg_log "'a log_message" | Lg_complete | Lg_work | Lg_export nat

text \<open>Log calls that overlap the destructor are a misuse of the object and are left out.\<close>

inductive logger_step :: "'a formatter \<Rightarrow> string \<Rightarrow> 'a logger \<Rightarrow> 'a logger_event \<Rightarrow> 'a logger \<Rightarrow> bool"
  for fmt :: "'a formatter" and hostname :: string
where
  lg_log: "logger_step fmt hostname l (Lg_log m) (log m l)" if "\<not> ch_writer_completed (lg_channel l)"
| lg_complete: "logger_step fmt hostname l Lg_complete (logger_complete l)"
| lg_work: "logger_step fmt hostname l Lg_work (process_logs l)"
| lg_export: "logger_step fmt hostname l (Lg_export i) (exporter_work fmt hostname i l)"
    if "i < length (lg_own_channel_sinks l)"

inductive_cases logger_step_cases: "logger_step fmt hostname l ev l'"

text \<open>The logger before the first log call, with the freshly constructed sinks that were added.\<close>

fun fresh_sink :: "'a any_sink \<Rightarrow> bool" where
  "fresh_sink (Text_sink s ms) \<longleftrightarrow> ms = []"
| "fresh_sink (Exporter s) \<longleftrightarrow> otel_sink_make (os_opts s) = Inr s"

definition logger_init :: "'a any_sink list \<Rightarrow> 'a logger \<Rightarrow> bool" where
  "logger_init sinks l \<longleftrightarrow> list_all fresh_sink sinks \<and> l = fold add_sink sinks logger_make"

section \<open>The invariant\<close>

text \<open>The messages a sink with this minimum level takes, and what a sink has taken.\<close>

abbreviation at_least :: "log_level \<Rightarrow> 'a log_message list \<Rightarrow> 'a log_message list" where
  "at_least level ms \<equiv> filter (\<lambda>m. level \<le> m_level m) ms"

fun min_level :: "'a any_sink \<Rightarrow> log_level" where
  "min_level (Text_sink s ms) = ls_min_log_level s"
| "min_level (Exporter s) = oo_min_log_level (os_opts s)"

fun received :: "'a any_sink \<Rightarrow> 'a log_message list" where
  "received (Text_sink s ms) = ms"
| "received (Exporter s) = os_accepted s"

fun exporter_ok :: "'a formatter \<Rightarrow> string \<Rightarrow> 'a any_sink \<Rightarrow> bool" where
  "exporter_ok fmt hostname (Text_sink s ms) \<longleftrightarrow> True"
| "exporter_ok fmt hostname (Exporter s) \<longleftrightarrow>
     otel_inv fmt (os_opts s) hostname s \<and> \<not> ch_writer_completed (os_channel s)"

definition sink_ok :: "'a formatter \<Rightarrow> string \<Rightarrow> 'a log_message list \<Rightarrow> 'a any_sink \<Rightarrow> bool" where
  "sink_ok fmt hostname ms sink \<longleftrightarrow>
     exporter_ok fmt hostname sink \<and> received sink = at_least (min_level sink) ms"

definition logger_inv :: "'a formatter \<Rightarrow> string \<Rightarrow> 'a logger \<Rightarrow> bool" where
  "logger_inv fmt hostname l \<longleftrightarrow>
     ch_capacity (lg_channel l) = 0
     \<and> list_all (sink_ok fmt hostname (lg_handled l)) (lg_sinks l)
     \<and> list_all (sink_ok fmt hostname (lg_logged l)) (lg_own_channel_sinks l)
     \<and> (if lg_sinks l = [] then lg_handled l = [] \<and> ch_queue (lg_channel l) = []
        else lg_logged l = lg_handled l @ ch_queue (lg_channel l))
     \<and> (lg_pc l = Lg_finished \<longrightarrow> ch_queue (lg_channel l) = [] \<and> ch_writer_completed (lg_channel l))"

lemma exporter_write:
  assumes "otel_inv fmt (os_opts s) hostname s" and "\<not> ch_writer_completed (os_channel s)"
  shows "otel_inv fmt (os_opts s) hostname (otel_write m s)"
    and "os_opts (otel_write m s) = os_opts s"
    and "\<not> ch_writer_completed (os_channel (otel_write m s))"
    and "os_accepted (otel_write m s) = os_accepted s @ at_least (oo_min_log_level (os_opts s)) [m]"
proof -
  show "otel_inv fmt (os_opts s) hostname (otel_write m s)" using assms(1) by (rule write_inv)
  have "ch_capacity (os_channel s) = 0" using assms(1) by (simp add: otel_inv_def)
  then show "os_opts (otel_write m s) = os_opts s" "\<not> ch_writer_completed (os_channel (otel_write m s))"
    "os_accepted (otel_write m s) = os_accepted s @ at_least (oo_min_log_level (os_opts s)) [m]"
    using assms(2) by (auto simp: otel_write_def channel_writer_try_push_def try_emplace_outcome
        unbounded_not_full not_less)
qed

lemma sink_write_ok: "sink_ok fmt hostname ms sink \<Longrightarrow> sink_ok fmt hostname (ms @ [m]) (sink_write m sink)"
  using exporter_write [of fmt _ hostname m]
  by (cases sink) (auto simp: sink_ok_def not_less)

lemma sink_work_ok: "sink_ok fmt hostname ms sink \<Longrightarrow> sink_ok fmt hostname ms (sink_work fmt hostname sink)"
proof (cases sink)
  case (Exporter s)
  assume ok: "sink_ok fmt hostname ms sink"
  then have "\<not> ch_writer_completed (os_channel s)" using Exporter by (simp add: sink_ok_def)
  then have "\<not> ch_writer_completed (os_channel (worker_step fmt hostname s))"
    "os_accepted (worker_step fmt hostname s) = os_accepted s"
    "os_opts (worker_step fmt hostname s) = os_opts s"
    by (auto simp: worker_step_def channel_reader_read_def channel_reader_try_read_def read_outcome
        resume_read_outcome try_read_outcome batch_more_def send_batch_def
        split: worker_pc.splits list.splits)
  with ok Exporter worker_inv [of fmt "os_opts s" hostname s] show ?thesis by (simp add: sink_ok_def)
qed simp

lemma sinks_write_ok:
  "list_all (sink_ok fmt hostname ms) sinks \<Longrightarrow>
     list_all (sink_ok fmt hostname (ms @ [m])) (map (sink_write m) sinks)"
  by (auto simp: list_all_iff intro: sink_write_ok)

lemma log_inv:
  assumes "logger_inv fmt hostname l" and "\<not> ch_writer_completed (lg_channel l)"
  shows "logger_inv fmt hostname (log m l)"
  using assms sinks_write_ok [of fmt hostname "lg_logged l" "lg_own_channel_sinks l" m]
  by (auto simp: logger_inv_def log_def channel_writer_try_push_def try_emplace_outcome unbounded_not_full
      Let_def simp del: list.pred_map)

lemma process_after_inv:
  assumes "logger_inv fmt hostname l" and "lg_pc l \<noteq> Lg_finished"
    and "r = channel_reader_read False (lg_channel l) \<or> r = resume_read False (lg_channel l)"
  shows "logger_inv fmt hostname (process_after r l)"
proof (cases "ch_queue (lg_channel l)")
  case Nil
  with assms show ?thesis
    by (auto simp: logger_inv_def channel_reader_read_def read_outcome resume_read_outcome split: if_splits)
next
  case (Cons m ms)
  have "list_all (sink_ok fmt hostname (lg_handled l @ [m])) (map (sink_write m) (lg_sinks l))"
    using assms(1) by (intro sinks_write_ok) (simp add: logger_inv_def)
  with assms Cons show ?thesis
    by (auto simp: logger_inv_def channel_reader_read_def read_outcome resume_read_outcome
        simp del: list.pred_map split: if_splits)
qed

lemma process_logs_inv: "logger_inv fmt hostname l \<Longrightarrow> logger_inv fmt hostname (process_logs l)"
  by (auto simp: process_logs_def intro: process_after_inv split: logger_pc.splits)

lemma logger_complete_inv: "logger_inv fmt hostname l \<Longrightarrow> logger_inv fmt hostname (logger_complete l)"
  by (auto simp: logger_inv_def logger_complete_def channel_writer_complete_def channel_complete_writer_def)

lemma exporter_work_inv:
  "logger_inv fmt hostname l \<Longrightarrow> i < length (lg_own_channel_sinks l) \<Longrightarrow>
     logger_inv fmt hostname (exporter_work fmt hostname i l)"
  by (auto simp: logger_inv_def exporter_work_def list_all_length nth_list_update intro: sink_work_ok)

lemma otel_init_fields:
  "otel_init opts s \<Longrightarrow> os_accepted s = [] \<and> \<not> ch_writer_completed (os_channel s)"
  by (auto simp: otel_init_def otel_sink_make_def channel_make_def split: sum.splits)

lemma fresh_sink_ok: "fresh_sink sink \<Longrightarrow> sink_ok fmt hostname [] sink"
proof (cases sink)
  case (Exporter s)
  assume fresh: "fresh_sink sink"
  with Exporter have "otel_init (os_opts s) s" by (simp add: otel_init_def)
  from otel_init_inv [OF this, of fmt hostname] otel_init_fields [OF this] Exporter show ?thesis
    by (simp add: sink_ok_def)
qed (simp add: sink_ok_def)

lemma add_sink_inv:
  assumes "logger_inv fmt hostname l" and "fresh_sink sink"
    and "lg_logged l = []" "lg_handled l = []" "ch_queue (lg_channel l) = []"
  shows "logger_inv fmt hostname (add_sink sink l)"
  using assms fresh_sink_ok [OF assms(2)] by (simp add: logger_inv_def add_sink_def)

lemma fold_add_sink:
  assumes "list_all fresh_sink sinks" and "logger_inv fmt hostname l"
    and "lg_logged l = []" "lg_handled l = []" "ch_queue (lg_channel l) = []"
  shows "logger_inv fmt hostname (fold add_sink sinks l)"
  using assms
proof (induction sinks arbitrary: l)
  case (Cons sink sinks)
  then have "logger_inv fmt hostname (add_sink sink l)" by (intro add_sink_inv) simp_all
  with Cons show ?case by (simp add: add_sink_def)
qed simp

lemma logger_init_inv: "logger_init sinks l \<Longrightarrow> logger_inv fmt hostname l"
  by (auto simp: logger_init_def intro!: fold_add_sink) (simp_all add: logger_make_def logger_inv_def channel_make_def)

interpretation logger: inductive_invariant "logger_init sinks" "logger_step fmt hostname" "\<lambda>_. True"
  "logger_inv fmt hostname"
  by unfold_locales
    (auto elim!: logger_step_cases
      intro: logger_init_inv log_inv logger_complete_inv process_logs_inv exporter_work_inv)

section \<open>Property\<close>


definition demo_logger :: "nat logger" where
  "demo_logger = fold add_sink [Text_sink demo_sink [], Exporter demo_otel] logger_make"

lemma demo_logger_reach:
  "reach (logger_init [Text_sink demo_sink [], Exporter demo_otel]) (logger_step demo_formatter ''h'') (\<lambda>_. True)
     (process_logs (log demo_message demo_logger))"
proof (rule reach_run)
  show "run (logger_step demo_formatter ''h'') demo_logger [Lg_log demo_message, Lg_work]
      (process_logs (log demo_message demo_logger))"
    by (rule run_cons, rule logger_step.lg_log, simp add: demo_logger_def add_sink_def logger_make_def
        channel_make_def demo_sink_def log_sink_make_def,
        rule run_cons, rule logger_step.lg_work, rule run_nil)
  have "os_opts demo_otel = demo_otel_opts" by (simp add: demo_otel_def)
  then show "reach (logger_init [Text_sink demo_sink [], Exporter demo_otel]) (logger_step demo_formatter ''h'')
      (\<lambda>_. True) demo_logger"
    using demo_otel_init by (intro reach_init) (simp add: logger_init_def demo_logger_def otel_init_def)
qed simp


end
