(* ===== verification/Otel_Native.thy ===== *)
theory Otel_Native
  imports Log_Sink
begin

text \<open>
  \<open>logging/sinks/otel_transports/native.h\<close> and \<open>transport_base.h\<close>: the HTTP transport on plain sockets.

  As in \<open>Log_Sink\<close>, the results of the socket calls are given in their order.  What the transport does
  to the outside is a list of events: descriptors opened and closed, bytes sent.
\<close>

section \<open>State\<close>

record transport =
  t_host :: string
  t_path :: string
  t_request_prefix :: string
  t_ipv6 :: bool
  t_port :: int

definition transport_base :: transport where
  "transport_base = \<lparr>t_host = [], t_path = [], t_request_prefix = [], t_ipv6 = False, t_port = 80\<rparr>"

section \<open>The endpoint\<close>

text \<open>
  \<open>std::stoi\<close>: leading white space, an optional sign, decimal digits; the second result is the number
  of characters read.
\<close>

definition stoi :: "string \<Rightarrow> (int \<times> nat) throws" where
  "stoi s =
     (let blank = takeWhile isspace s; s1 = dropWhile isspace s;
          sign = (case s1 of c # _ \<Rightarrow> if c = CHR ''-'' \<or> c = CHR ''+'' then 1 else 0 | [] \<Rightarrow> 0);
          ds = takeWhile is_digit (drop sign s1);
          k = (if sign = 1 \<and> hd s1 = CHR ''-'' then - int (undec ds) else int (undec ds))
      in if ds = [] then Inl (std_invalid_argument ''stoi'')
         else if k < - (2 ^ 31) \<or> k > 2 ^ 31 - 1 then Inl (std_out_of_range ''stoi'')
         else Inr (k, length blank + sign + length ds))"

definition parse_port :: "string \<Rightarrow> int throws" where
  "parse_port val =
     (if val = [] then Inl (std_invalid_argument ''invalid endpoint port'')
      else
        (case stoi val of
           Inl e \<Rightarrow> Inl e
         | Inr (port, parsed) \<Rightarrow>
             if parsed \<noteq> length val \<or> port \<le> 0 \<or> port > 65535
             then Inl (std_invalid_argument ''invalid endpoint port'')
             else Inr port))"

definition with_port :: "transport \<Rightarrow> int throws \<Rightarrow> transport throws" where
  "with_port t r = (case r of Inl e \<Rightarrow> Inl e | Inr port \<Rightarrow> Inr (t\<lparr>t_port := port\<rparr>))"

text \<open>The two ways to read the authority, and the final check of the host.\<close>

definition parse_bracketed :: "string \<Rightarrow> transport \<Rightarrow> transport throws" where
  "parse_bracketed authority t =
     (case find_char (CHR '']'') authority of
        None \<Rightarrow> Inl (std_invalid_argument ''invalid endpoint host'')
      | Some closing_bracket \<Rightarrow>
          (let t' = t\<lparr>t_ipv6 := True, t_host := take (closing_bracket - 1) (drop 1 authority)\<rparr> in
           if closing_bracket + 1 < length authority then
             if authority ! (closing_bracket + 1) \<noteq> CHR '':''
             then Inl (std_invalid_argument ''invalid endpoint'')
             else with_port t' (parse_port (drop (closing_bracket + 2) authority))
           else Inr t'))"

definition parse_plain :: "string \<Rightarrow> transport \<Rightarrow> transport throws" where
  "parse_plain authority t =
     (case rfind_char (CHR '':'') authority of
        None \<Rightarrow> Inr (t\<lparr>t_host := authority\<rparr>)
      | Some colon \<Rightarrow>
          with_port (t\<lparr>t_host := take colon authority\<rparr>) (parse_port (drop (colon + 1) authority)))"

definition parse_endpoint :: "string \<Rightarrow> transport \<Rightarrow> transport throws" where
  "parse_endpoint endpoint t =
     (if starts_with ''https://'' endpoint
      then Inl (std_invalid_argument ''https is not supported by this transport'')
      else
        (let endpoint = (if starts_with ''http://'' endpoint then drop 7 endpoint else endpoint);
             slash = find_char (CHR ''/'') endpoint;
             authority = (case slash of None \<Rightarrow> endpoint | Some i \<Rightarrow> take i endpoint);
             t = t\<lparr>t_path := (case slash of None \<Rightarrow> ''/'' | Some i \<Rightarrow> drop i endpoint)\<rparr>
         in if authority = [] then Inl (std_invalid_argument ''invalid endpoint host'')
            else
              (case (if hd authority = CHR ''['' then parse_bracketed authority t else parse_plain authority t) of
                 Inl e \<Rightarrow> Inl e
               | Inr t' \<Rightarrow>
                   if t_host t' = [] then Inl (std_invalid_argument ''invalid endpoint host'') else Inr t')))"

section \<open>The request\<close>

definition crlf :: string where
  "crlf = [CHR 0x0D, CHR 0x0A]"

definition host_header_for :: "string \<Rightarrow> bool \<Rightarrow> int \<Rightarrow> string" where
  "host_header_for host is_ipv6 port =
     (if is_ipv6 then ''['' @ host @ '']:'' @ int_dec port else host @ '':'' @ int_dec port)"

definition build_request_prefix :: "otel_sink_opts \<Rightarrow> transport \<Rightarrow> transport" where
  "build_request_prefix opts t =
     (let host_header = host_header_for (t_host t) (t_ipv6 t) (t_port t)
      in t\<lparr>t_request_prefix :=
             ''POST '' @ t_path t @ '' HTTP/1.1'' @ crlf @ ''Host: '' @ host_header @ crlf
             @ (if oo_auth_token opts \<noteq> [] then ''Authorization: '' @ oo_auth_token opts @ crlf else [])
             @ ''stream-name: '' @ oo_service_namespace opts @ crlf
             @ ''Content-Type: application/json'' @ crlf @ ''Connection: close'' @ crlf\<rparr>)"

definition otel_native_transport :: "otel_sink_opts \<Rightarrow> transport throws" where
  "otel_native_transport opts =
     (case parse_endpoint (oo_endpoint opts) transport_base of
        Inl e \<Rightarrow> Inl e
      | Inr t \<Rightarrow> Inr (build_request_prefix opts t))"

section \<open>Connecting\<close>

datatype net_event = Opened int | Closed int | Free_addresses | Sent string

text \<open>
  What the system answers for one address: \<open>socket\<close>, the two \<open>fcntl\<close> calls before connecting, \<open>connect\<close>
  and whether it failed with \<open>EINPROGRESS\<close>, the successive results of \<open>poll\<close> with whether each failed with
  \<open>EINTR\<close>, \<open>getsockopt\<close> with the socket error, and the last \<open>fcntl\<close>.
\<close>

record address =
  a_socket :: int
  a_getfl :: int
  a_setfl :: int
  a_connect :: int
  a_in_progress :: bool
  a_poll :: "(int \<times> bool) list"
  a_getsockopt :: int
  a_socket_error :: int
  a_restore :: int

fun poll_loop :: "(int \<times> bool) list \<Rightarrow> int option" where
  "poll_loop [] = None"
| "poll_loop ((poll_result, interrupted) # rest) =
     (if poll_result < 0 \<and> interrupted then poll_loop rest else Some poll_result)"

definition try_connect :: "address \<Rightarrow> bool option" where
  "try_connect a =
     (if a_connect a = 0 then Some True
      else if a_in_progress a then
        map_option (\<lambda>poll_result. poll_result > 0 \<and> a_getsockopt a = 0 \<and> a_socket_error a = 0)
          (poll_loop (a_poll a))
      else Some False)"

fun connect_loop :: "address list \<Rightarrow> int \<Rightarrow> (int \<times> net_event list) option" where
  "connect_loop [] fd = Some (fd, [])"
| "connect_loop (a # rest) fd =
     (let fd = a_socket a;
          closed_next = map_option (\<lambda>(r, ev). (r, Opened fd # Closed fd # ev)) (connect_loop rest (- 1))
      in if fd < 0 then connect_loop rest fd
         else if a_getfl a < 0 \<or> a_setfl a < 0 then closed_next
         else
           (case try_connect a of
              None \<Rightarrow> None
            | Some False \<Rightarrow> closed_next
            | Some True \<Rightarrow> if a_restore a < 0 then closed_next else Some (fd, [Opened fd])))"

text \<open>\<open>connect_to_host\<close>; the addresses are what \<open>getaddrinfo\<close> returned, \<open>None\<close> when it failed.\<close>

definition connect_to_host :: "address list option \<Rightarrow> (int \<times> net_event list) option" where
  "connect_to_host addresses =
     (case addresses of
        None \<Rightarrow> Some (- 1, [])
      | Some as \<Rightarrow> map_option (\<lambda>(fd, ev). (fd, ev @ [Free_addresses])) (connect_loop as (- 1)))"

section \<open>Sending\<close>

text \<open>
  \<open>send_all\<close>: whether everything was sent, the events, and the results of \<open>::send\<close> that are left.  A call
  transfers at most what it was given; a result of zero bytes ends the loop.
\<close>

fun send_all :: "transfer list \<Rightarrow> string \<Rightarrow> (bool \<times> net_event list \<times> transfer list) option" where
  "send_all rets data =
     (if data = [] then Some (True, [], rets)
      else
        (case rets of
           [] \<Rightarrow> None
         | Interrupted # rest \<Rightarrow> send_all rest data
         | Failed # rest \<Rightarrow> Some (False, [], rest)
         | Transferred n # rest \<Rightarrow>
             if n > 0 then
               map_option (\<lambda>(ok, ev, r). (ok, Sent (take n data) # ev, r)) (send_all rest (drop n data))
             else Some (False, [], rest)))"

declare send_all.simps [simp del]

fun send_parts :: "transfer list \<Rightarrow> string list \<Rightarrow> (bool \<times> net_event list) option" where
  "send_parts rets [] = Some (True, [])"
| "send_parts rets (d # ds) =
     (case send_all rets d of
        None \<Rightarrow> None
      | Some (False, ev, _) \<Rightarrow> Some (False, ev)
      | Some (True, ev, rest) \<Rightarrow> map_option (\<lambda>(ok, ev'). (ok, ev @ ev')) (send_parts rest ds))"

text \<open>\<open>discard_response\<close> returns when a call of \<open>recv\<close> neither delivers bytes nor is interrupted.\<close>

fun discard_response :: "transfer list \<Rightarrow> unit option" where
  "discard_response [] = None"
| "discard_response (Transferred n # rest) = (if n > 0 then discard_response rest else Some ())"
| "discard_response (Interrupted # rest) = discard_response rest"
| "discard_response (Failed # rest) = Some ()"

definition native_send ::
  "address list option \<Rightarrow> transfer list \<Rightarrow> transfer list \<Rightarrow> transport \<Rightarrow> string \<Rightarrow> net_event list option"
where
  "native_send addresses sends recvs t json_body =
     (let content_length = ''Content-Length: '' @ dec (length json_body) @ crlf @ crlf in
      case connect_to_host addresses of
        None \<Rightarrow> None
      | Some (fd, ev) \<Rightarrow>
          if fd < 0 then Some ev
          else
            (case send_parts sends [t_request_prefix t, content_length, json_body] of
               None \<Rightarrow> None
             | Some (False, sent) \<Rightarrow> Some (ev @ sent @ [Closed fd])
             | Some (True, sent) \<Rightarrow>
                 map_option (\<lambda>_. ev @ sent @ [Closed fd]) (discard_response recvs)))"

section \<open>Reading a response, for debugging\<close>

fun status_digits :: "int \<Rightarrow> string \<Rightarrow> int" where
  "status_digits code [] = code"
| "status_digits code (c # cs) =
     (if \<not> is_digit c then 0 else status_digits (code * 10 + int (digit_value c)) cs)"

definition parse_status_code :: "string \<Rightarrow> int" where
  "parse_status_code response =
     (case find_char (CHR '' '') response of
        None \<Rightarrow> 0
      | Some sp1 \<Rightarrow>
          status_digits 0 (takeWhile (\<lambda>c. c \<noteq> CHR '' '' \<and> c \<noteq> CHR 0x0D \<and> c \<noteq> CHR 0x0A) (drop (sp1 + 1) response)))"

text \<open>The received chunks, in their order; \<open>None\<close> for a call that was interrupted, an empty chunk for the end
  of the stream or an error, both of which end the loop.\<close>

fun read_response :: "string option list \<Rightarrow> string option" where
  "read_response [] = None"
| "read_response (None # rest) = read_response rest"
| "read_response (Some chunk # rest) =
     (if chunk \<noteq> [] then map_option (\<lambda>r. chunk @ r) (read_response rest) else Some [])"

section \<open>Ports\<close>

lemma digit_not_space: "is_digit c \<Longrightarrow> \<not> isspace c"
  by (auto simp: is_digit_def isspace_def)

lemma stoi_dec: "n < 2 ^ 31 \<Longrightarrow> stoi (dec n) = Inr (int n, length (dec n))"
proof -
  assume n: "n < 2 ^ 31"
  obtain c cs where dec: "dec n = c # cs" by (cases "dec n") auto
  with dec_digits [of _ n] have digits: "is_digit c" "\<And>d. d \<in> set cs \<Longrightarrow> is_digit d" by auto
  then have "\<not> isspace c" "c \<noteq> CHR ''-''" "c \<noteq> CHR ''+''"
    by (auto simp: digit_not_space) (auto simp: is_digit_def)
  moreover have "takeWhile is_digit (dec n) = dec n" using digits by (simp add: dec takeWhile_eq_all_conv)
  moreover have "undec (c # cs) = n" using undec_dec [of n] by (simp only: dec)
  ultimately show ?thesis using n by (simp add: stoi_def dec Let_def)
qed

lemma parse_port_dec: "0 < n \<Longrightarrow> n \<le> 65535 \<Longrightarrow> parse_port (dec n) = Inr (int n)"
  by (simp add: parse_port_def stoi_dec)

lemma parse_port_range: "parse_port s = Inr port \<Longrightarrow> 0 < port \<and> port \<le> 65535"
  by (auto simp: parse_port_def split: if_splits sum.splits prod.splits)

section \<open>Endpoints\<close>

text \<open>The texts that denote a host, an optional port and an optional path.\<close>

record endpoint =
  e_scheme :: bool
  e_ipv6 :: bool
  e_host :: string
  e_port :: "nat option"
  e_path :: "string option"

definition endpoint_ok :: "endpoint \<Rightarrow> bool" where
  "endpoint_ok e \<longleftrightarrow>
     e_host e \<noteq> [] \<and> CHR ''/'' \<notin> set (e_host e)
     \<and> (if e_ipv6 e then CHR '']'' \<notin> set (e_host e)
        else CHR '':'' \<notin> set (e_host e) \<and> hd (e_host e) \<noteq> CHR ''['')
     \<and> (case e_port e of None \<Rightarrow> True | Some n \<Rightarrow> 0 < n \<and> n \<le> 65535)
     \<and> (case e_path e of None \<Rightarrow> True | Some p \<Rightarrow> starts_with ''/'' p)"

definition port_text :: "nat option \<Rightarrow> string" where
  "port_text port = (case port of None \<Rightarrow> [] | Some n \<Rightarrow> '':'' @ dec n)"

definition authority_text :: "endpoint \<Rightarrow> string" where
  "authority_text e =
     (if e_ipv6 e then ''['' @ e_host e @ '']'' else e_host e) @ port_text (e_port e)"

definition endpoint_text :: "endpoint \<Rightarrow> string" where
  "endpoint_text e =
     (if e_scheme e then ''http://'' else []) @ authority_text e
     @ (case e_path e of None \<Rightarrow> [] | Some p \<Rightarrow> p)"

lemma no_slash_dec: "CHR ''/'' \<notin> set (dec n)"
  using dec_digits [of "CHR ''/''" n] by (auto simp: is_digit_def)

lemma dec_append_slash [simp]: "dec n @ s \<noteq> CHR ''/'' # t" "dec n \<noteq> CHR ''/'' # t"
  using no_slash_dec [of n] by (cases "dec n"; auto)+

lemma no_slash_authority: "endpoint_ok e \<Longrightarrow> CHR ''/'' \<notin> set (authority_text e)"
  by (auto simp: endpoint_ok_def authority_text_def port_text_def no_slash_dec split: option.splits)

lemma starts_with_append: "starts_with p s \<longleftrightarrow> (\<exists>r. s = p @ r)"
  by (auto simp: starts_with_def) (metis append_take_drop_id)

text \<open>An authority is not mistaken for a scheme.\<close>

lemma authority_no_scheme:
  assumes ok: "endpoint_ok e" and w: "set w \<inter> {CHR '':'', CHR ''/'', CHR ''[''} = {}" "w \<noteq> []"
    and path: "path = [] \<or> starts_with ''/'' path"
  shows "\<not> starts_with (w @ ''://'') (authority_text e @ path)"
proof
  assume "starts_with (w @ ''://'') (authority_text e @ path)"
  then obtain r where eq: "authority_text e @ path = w @ ''://'' @ r" by (auto simp: starts_with_append)
  show False
  proof (cases "e_ipv6 e")
    case True
    with eq w show False by (cases w) (auto simp: authority_text_def)
  next
    case False
    let ?P = "\<lambda>c. c \<noteq> CHR '':'' \<and> c \<noteq> CHR ''/''"
    have host: "\<And>c. c \<in> set (e_host e) \<Longrightarrow> ?P c" using ok False by (auto simp: endpoint_ok_def)
    have tail: "port_text (e_port e) @ path = [] \<or> \<not> ?P (hd (port_text (e_port e) @ path))"
      using path by (auto simp: port_text_def starts_with_append split: option.splits)
    have "dropWhile ?P (e_host e @ port_text (e_port e) @ path) = port_text (e_port e) @ path"
      using tail host by (cases "port_text (e_port e) @ path") (auto simp: dropWhile_append2)
    moreover have "dropWhile ?P (w @ ''://'' @ r) = ''://'' @ r"
      using w by (subst dropWhile_append2) auto
    ultimately have "port_text (e_port e) @ path = ''://'' @ r"
      using eq False by (simp add: authority_text_def)
    then show False using path
      by (auto simp: port_text_def starts_with_append split: option.splits)
  qed
qed

lemma parse_bracketed_text:
  assumes "endpoint_ok e" and "e_ipv6 e"
  shows "parse_bracketed (authority_text e) t =
     Inr (t\<lparr>t_ipv6 := True, t_host := e_host e,
            t_port := (case e_port e of None \<Rightarrow> t_port t | Some n \<Rightarrow> int n)\<rparr>)"
proof -
  have find: "find_char (CHR '']'') (''['' @ e_host e @ '']'' @ s) = Some (Suc (length (e_host e)))" for s
    using assms find_char_append [of "CHR '']''" "''['' @ e_host e" s] by (simp add: endpoint_ok_def)
  show ?thesis
  proof (cases "e_port e")
    case None
    with find [of "[]"] assms(2) show ?thesis
      by (simp add: parse_bracketed_def authority_text_def port_text_def)
  next
    case (Some n)
    with find [of "'':'' @ dec n"] assms show ?thesis
      by (simp add: parse_bracketed_def authority_text_def port_text_def endpoint_ok_def nth_append
          parse_port_dec with_port_def)
  qed
qed

lemma parse_plain_text:
  assumes "endpoint_ok e" and "\<not> e_ipv6 e"
  shows "parse_plain (authority_text e) t =
     Inr (t\<lparr>t_host := e_host e, t_port := (case e_port e of None \<Rightarrow> t_port t | Some n \<Rightarrow> int n)\<rparr>)"
proof (cases "e_port e")
  case None
  with assms have "rfind_char (CHR '':'') (e_host e) = None" by (simp add: endpoint_ok_def)
  with None assms(2) show ?thesis
    by (simp add: parse_plain_def authority_text_def port_text_def del: rfind_char_None)
next
  case (Some n)
  have "CHR '':'' \<notin> set (dec n)" using dec_digits [of "CHR '':''" n] by (auto simp: is_digit_def)
  then have "rfind_char (CHR '':'') (e_host e @ CHR '':'' # dec n) = Some (length (e_host e))"
    by (rule rfind_char_append)
  with Some assms show ?thesis
    by (simp add: parse_plain_def authority_text_def port_text_def endpoint_ok_def parse_port_dec with_port_def)
qed

lemma authority_first:
  assumes "endpoint_ok e"
  shows "authority_text e \<noteq> []" and "hd (authority_text e) = CHR ''['' \<longleftrightarrow> e_ipv6 e"
  using assms by (auto simp: authority_text_def endpoint_ok_def)

text \<open>What \<open>parse_endpoint\<close> does once the scheme is gone.\<close>

lemma endpoint_split:
  assumes "endpoint_ok e"
  shows "find_char (CHR ''/'') (authority_text e @ (case e_path e of None \<Rightarrow> [] | Some p \<Rightarrow> p))
     = (case e_path e of None \<Rightarrow> None | Some p \<Rightarrow> Some (length (authority_text e)))"
  using assms no_slash_authority [OF assms]
  by (auto simp: endpoint_ok_def starts_with_append find_char_append split: option.splits)

text \<open>What holds of every result of the authority parsers.\<close>

definition argument_error :: "cpp_exception \<Rightarrow> bool" where
  "argument_error e \<longleftrightarrow> (\<exists>msg. e = std_invalid_argument msg \<or> e = std_out_of_range msg)"

lemma argument_errors [simp]: "argument_error (std_invalid_argument msg)" "argument_error (std_out_of_range msg)"
  by (simp_all add: argument_error_def)

definition authority_result :: "string \<Rightarrow> transport throws \<Rightarrow> bool" where
  "authority_result path r \<longleftrightarrow>
     (case r of
        Inl e \<Rightarrow> argument_error e
      | Inr t \<Rightarrow> CHR ''/'' \<notin> set (t_host t) \<and> 0 < t_port t \<and> t_port t \<le> 65535 \<and> t_path t = path)"

lemma parse_port_error: "parse_port s = Inl e \<Longrightarrow> argument_error e"
  by (auto simp: parse_port_def stoi_def Let_def split: if_splits sum.splits prod.splits)

lemma with_port_result:
  "CHR ''/'' \<notin> set (t_host t) \<Longrightarrow> authority_result (t_path t) (with_port t (parse_port s))"
  by (cases "parse_port s")
    (auto simp: with_port_def authority_result_def dest: parse_port_error parse_port_range)

lemma parse_authority_result:
  assumes au: "CHR ''/'' \<notin> set au" and port: "0 < t_port t" "t_port t \<le> 65535"
  shows "authority_result (t_path t) (parse_plain au t)" "authority_result (t_path t) (parse_bracketed au t)"
proof -
  have sub: "CHR ''/'' \<notin> set (take i au)" "CHR ''/'' \<notin> set (take i (drop j au))" for i j
    using au by (auto dest: in_set_takeD in_set_dropD)
  show "authority_result (t_path t) (parse_plain au t)"
    using with_port_result [of "t\<lparr>t_host := take k au\<rparr>" for k] au sub port
    by (auto simp: parse_plain_def authority_result_def [of _ "Inr _"] split: option.splits)
  show "authority_result (t_path t) (parse_bracketed au t)"
    using with_port_result [of "t\<lparr>t_ipv6 := True, t_host := take k (drop 1 au)\<rparr>" for k] sub port
    by (auto simp: parse_bracketed_def Let_def authority_result_def [of _ "Inr _"]
        authority_result_def [of _ "Inl _"] split: option.splits)
qed

section \<open>Properties\<close>

text \<open>The endpoint round trip.  Every text made of an optional \<open>http://\<close>, a host name or a
  bracketed IPv6 address, an optional port from 1 to 65535 and an optional path is accepted, and the
  transport gets exactly that host, that port (80 by default) and that path (\<open>/\<close> by default).\<close>

lemma parse_endpoint_roundtrip:
  assumes ok: "endpoint_ok e"
  shows "parse_endpoint (endpoint_text e) transport_base =
     Inr \<lparr>t_host = e_host e, t_path = (case e_path e of None \<Rightarrow> ''/'' | Some p \<Rightarrow> p), t_request_prefix = [],
          t_ipv6 = e_ipv6 e, t_port = (case e_port e of None \<Rightarrow> 80 | Some n \<Rightarrow> int n)\<rparr>"
proof -
  let ?path = "case e_path e of None \<Rightarrow> [] | Some p \<Rightarrow> p"
  have path: "?path = [] \<or> starts_with ''/'' ?path"
    using ok by (auto simp: endpoint_ok_def split: option.splits)
  have no_https: "\<not> starts_with ''https://'' (authority_text e @ ?path)"
    using authority_no_scheme [OF ok _ _ path, of "''https''"] by simp
  have no_http: "\<not> starts_with ''http://'' (authority_text e @ ?path)"
    using authority_no_scheme [OF ok _ _ path, of "''http''"] by simp
  have scheme: "\<not> starts_with ''https://'' (endpoint_text e)"
    "(if starts_with ''http://'' (endpoint_text e) then drop 7 (endpoint_text e) else endpoint_text e)
       = authority_text e @ ?path"
    using no_http no_https by (auto simp: endpoint_text_def starts_with_def)
  have host: "e_host e \<noteq> []" using ok by (simp add: endpoint_ok_def)
  show ?thesis
    using authority_first [OF ok] parse_bracketed_text [OF ok] parse_plain_text [OF ok] host
    unfolding parse_endpoint_def Let_def scheme(2) endpoint_split [OF ok]
    by (auto simp: scheme(1) transport_base_def split: option.splits)
qed

lemma parse_endpoint_roundtrip_witness:
  "parse_endpoint ''http://[::1]:4318/v1/logs'' transport_base =
     Inr \<lparr>t_host = ''::1'', t_path = ''/v1/logs'', t_request_prefix = [], t_ipv6 = True, t_port = 4318\<rparr>"
proof -
  let ?e = "\<lparr>e_scheme = True, e_ipv6 = True, e_host = ''::1'', e_port = Some 4318, e_path = Some ''/v1/logs''\<rparr>"
  have "endpoint_ok ?e" by (simp add: endpoint_ok_def starts_with_def)
  moreover have "dec 4318 = ''4318''" by code_simp
  ultimately show ?thesis using parse_endpoint_roundtrip [of ?e]
    by (simp add: endpoint_text_def authority_text_def port_text_def)
qed

text \<open>An endpoint that is accepted gives a usable transport: the host is not empty and contains no
  slash, the port is between 1 and 65535 and the path begins with a slash.  Anything that starts with
  \<open>https://\<close> is refused, and every refusal is \<open>std::invalid_argument\<close> or, from \<open>std::stoi\<close>,
  \<open>std::out_of_range\<close>.\<close>

lemma parse_endpoint_sound:
  "(case parse_endpoint s transport_base of
      Inr t \<Rightarrow> t_host t \<noteq> [] \<and> CHR ''/'' \<notin> set (t_host t) \<and> 0 < t_port t \<and> t_port t \<le> 65535
        \<and> starts_with ''/'' (t_path t) \<and> \<not> starts_with ''https://'' s
    | Inl e \<Rightarrow> argument_error e)"
proof -
  define ep where "ep = (if starts_with ''http://'' s then drop 7 s else s)"
  define au where "au = (case find_char (CHR ''/'') ep of None \<Rightarrow> ep | Some i \<Rightarrow> take i ep)"
  define path where "path = (case find_char (CHR ''/'') ep of None \<Rightarrow> ''/'' | Some i \<Rightarrow> drop i ep)"
  define r where "r = (let t = transport_base\<lparr>t_path := path\<rparr> in
    if hd au = CHR ''['' then parse_bracketed au t else parse_plain au t)"
  have "CHR ''/'' \<notin> set au" by (auto simp: au_def dest: find_char_Some split: option.splits)
  from parse_authority_result [OF this, of "transport_base\<lparr>t_path := path\<rparr>"]
  have r: "authority_result path r" by (simp add: r_def Let_def transport_base_def)
  have path: "starts_with ''/'' path"
  proof (cases "find_char (CHR ''/'') ep")
    case (Some i)
    from find_char_Some [OF this] have "drop i ep = CHR ''/'' # drop (Suc i) ep"
      by (metis Cons_nth_drop_Suc)
    then show ?thesis by (simp add: path_def Some starts_with_def)
  qed (simp add: path_def starts_with_def del: find_char_None)
  have "parse_endpoint s transport_base =
    (if starts_with ''https://'' s then Inl (std_invalid_argument ''https is not supported by this transport'')
     else if au = [] then Inl (std_invalid_argument ''invalid endpoint host'')
     else case r of Inl e \<Rightarrow> Inl e
       | Inr t' \<Rightarrow> if t_host t' = [] then Inl (std_invalid_argument ''invalid endpoint host'') else Inr t')"
    unfolding parse_endpoint_def Let_def ep_def [symmetric] au_def [symmetric] path_def [symmetric] r_def
    by simp
  with r path show ?thesis by (auto simp: authority_result_def split: sum.splits)
qed

text \<open>The descriptors opened and closed, and the bytes sent, in their order.\<close>

fun opened :: "net_event list \<Rightarrow> int list" where
  "opened [] = []" | "opened (Opened fd # ev) = fd # opened ev" | "opened (_ # ev) = opened ev"

fun closed :: "net_event list \<Rightarrow> int list" where
  "closed [] = []" | "closed (Closed fd # ev) = fd # closed ev" | "closed (_ # ev) = closed ev"

fun sent :: "net_event list \<Rightarrow> string" where
  "sent [] = []" | "sent (Sent s # ev) = s @ sent ev" | "sent (_ # ev) = sent ev"

lemma event_append [simp]:
  "opened (ev @ ev') = opened ev @ opened ev'" "closed (ev @ ev') = closed ev @ closed ev'"
  "sent (ev @ ev') = sent ev @ sent ev'"
proof -
  show "opened (ev @ ev') = opened ev @ opened ev'" by (induction ev rule: opened.induct) simp_all
  show "closed (ev @ ev') = closed ev @ closed ev'" by (induction ev rule: closed.induct) simp_all
  show "sent (ev @ ev') = sent ev @ sent ev'" by (induction ev rule: sent.induct) simp_all
qed

lemma connect_loop_balanced:
  "connect_loop as fd0 = Some (fd, ev) \<Longrightarrow> fd0 < 0 \<Longrightarrow>
     sent ev = [] \<and> opened ev = closed ev @ (if fd < 0 then [] else [fd])"
proof (induction as arbitrary: fd0 fd ev)
  case (Cons a as)
  show ?case
    using Cons.prems Cons.IH [of "- 1" fd] Cons.IH [of "a_socket a" fd ev]
    by (auto simp: Let_def split: if_splits option.splits bool.splits)
qed simp

lemma connect_balanced:
  assumes "connect_to_host as = Some (fd, ev)"
  shows "sent ev = []" and "opened ev = closed ev @ (if fd < 0 then [] else [fd])"
  using assms connect_loop_balanced by (auto simp: connect_to_host_def split: option.splits)

text \<open>Connecting leaks nothing.  Whatever the system answers for whichever addresses, every socket
  that was opened is closed exactly once, in the order of opening, except the connected one that is
  returned; when no address works, nothing stays open.  The address list is freed exactly once, when it
  was obtained.\<close>

lemma connect_no_leak:
  "(case connect_to_host as of
      None \<Rightarrow> True
    | Some (fd, ev) \<Rightarrow>
        opened ev = closed ev @ (if fd < 0 then [] else [fd])
        \<and> length (filter (\<lambda>x. x = Free_addresses) ev) = (if as = None then 0 else 1))"
proof -
  have no_free: "Free_addresses \<notin> set ev" if "connect_loop xs fd0 = Some (fd, ev)" for xs fd0 fd ev
    using that
    by (induction xs fd0 arbitrary: fd ev rule: connect_loop.induct)
      (auto simp: Let_def split: if_splits option.splits bool.splits)
  then have "length (filter (\<lambda>x. x = Free_addresses) ev) = 0" if "connect_loop xs fd0 = Some (fd, ev)" for xs fd0 fd ev
    using that by (auto simp: filter_empty_conv)
  then show ?thesis using connect_balanced
    by (auto simp: connect_to_host_def split: option.splits)
qed

lemma send_all_cases [simp]:
  "send_all rets [] = Some (True, [], rets)"
  "data \<noteq> [] \<Longrightarrow> send_all [] data = None"
  "data \<noteq> [] \<Longrightarrow> send_all (Interrupted # rets) data = send_all rets data"
  "data \<noteq> [] \<Longrightarrow> send_all (Failed # rets) data = Some (False, [], rets)"
  "data \<noteq> [] \<Longrightarrow> send_all (Transferred n # rets) data =
     (if n > 0 then map_option (\<lambda>(ok, ev, r). (ok, Sent (take n data) # ev, r)) (send_all rets (drop n data))
      else Some (False, [], rets))"
  by (simp_all add: send_all.simps [of _ data] send_all.simps [of rets])

text \<open>A call that sends nothing counts as a failure.\<close>

definition send_fails :: "transfer \<Rightarrow> bool" where
  "send_fails r \<longleftrightarrow> r = Failed \<or> r = Transferred 0"

lemma send_all_effect:
  "send_all rets data = Some (ok, ev, rest) \<Longrightarrow>
     opened ev = [] \<and> closed ev = [] \<and> (\<exists>more. data = sent ev @ more \<and> (ok \<longrightarrow> more = []))
     \<and> (ok \<or> (\<exists>r \<in> set rets. send_fails r)) \<and> set rest \<subseteq> set rets"
proof (induction rets arbitrary: data ok ev)
  case Nil
  then show ?case by (cases "data = []") auto
next
  case (Cons r rets)
  show ?case
  proof (cases "data = []")
    case True
    with Cons.prems show ?thesis by auto
  next
    case data: False
    show ?thesis
    proof (cases r)
      case (Transferred n)
      show ?thesis
      proof (cases "n > 0")
        case True
        with Cons.prems Transferred data obtain ev' where
          rec: "send_all rets (drop n data) = Some (ok, ev', rest)" and ev: "ev = Sent (take n data) # ev'"
          by auto
        note ih = Cons.IH [OF rec]
        from ih obtain more where more: "drop n data = sent ev' @ more" "ok \<longrightarrow> more = []" by blast
        have "sent ev @ more = data" using more(1) [symmetric] by (simp add: ev)
        moreover have "opened ev = []" "closed ev = []" using ih by (simp_all add: ev)
        moreover have "ok \<or> (\<exists>x \<in> set (r # rets). send_fails x)" "set rest \<subseteq> set (r # rets)"
          using ih by auto
        ultimately show ?thesis using more(2) by metis
      next
        case False
        with Cons.prems Transferred data show ?thesis by (auto simp: send_fails_def)
      qed
    next
      case Interrupted
      with Cons.prems data have "send_all rets data = Some (ok, ev, rest)" by simp
      from Cons.IH [OF this] show ?thesis by auto
    next
      case Failed
      with Cons.prems data show ?thesis by (auto simp: send_fails_def)
    qed
  qed
qed

text \<open>The number of results that are not interruptions bounds what a send needs.\<close>

definition answers :: "transfer list \<Rightarrow> nat" where
  "answers rets = length (filter (\<lambda>r. r \<noteq> Interrupted) rets)"

lemma send_all_returns:
  "length data \<le> answers rets \<Longrightarrow>
     \<exists>ok ev rest. send_all rets data = Some (ok, ev, rest) \<and> (ok \<longrightarrow> answers rets \<le> answers rest + length data)"
proof (induction rets arbitrary: data)
  case Nil
  then show ?case by (auto simp: answers_def)
next
  case (Cons r rets)
  show ?case
  proof (cases "data = []")
    case data: False
    show ?thesis
    proof (cases r)
      case (Transferred n)
      show ?thesis
      proof (cases "n > 0")
        case True
        have pos: "length data > 0" using data by simp
        with Cons.prems Transferred True have "length (drop n data) \<le> answers rets"
          by (auto simp: answers_def)
        from Cons.IH [OF this] obtain ok ev rest where
          "send_all rets (drop n data) = Some (ok, ev, rest)"
          "ok \<longrightarrow> answers rets \<le> answers rest + length (drop n data)" by blast
        moreover have "answers (r # rets) = Suc (answers rets)" using Transferred by (simp add: answers_def)
        moreover have "Suc (length (drop n data)) \<le> length data" using pos True by (simp del: length_greater_0_conv)
        ultimately have "ok \<longrightarrow> answers (r # rets) \<le> answers rest + length data"
          and "send_all (r # rets) data = Some (ok, Sent (take n data) # ev, rest)"
          using Transferred data True by (linarith, simp)
        then show ?thesis by blast
      qed (use Transferred data in auto)
    next
      case Interrupted
      with Cons data show ?thesis by (simp add: answers_def)
    qed (use data in auto)
  qed auto
qed

lemma send_parts_effect:
  "send_parts rets ds = Some (ok, ev) \<Longrightarrow>
     opened ev = [] \<and> closed ev = [] \<and> (\<exists>more. concat ds = sent ev @ more \<and> (ok \<longrightarrow> more = []))
     \<and> (ok \<or> (\<exists>r \<in> set rets. send_fails r))"
proof (induction ds arbitrary: rets ok ev)
  case (Cons d ds)
  then obtain ok1 ev1 rest where d: "send_all rets d = Some (ok1, ev1, rest)"
    by (auto split: option.splits)
  note e = send_all_effect [OF d]
  show ?case
  proof (cases ok1)
    case True
    with Cons.prems d obtain ev2 where ds: "send_parts rest ds = Some (ok, ev2)" and ev: "ev = ev1 @ ev2"
      by auto
    from Cons.IH [OF ds] e True show ?thesis by (auto simp: ev)
  next
    case False
    with Cons.prems d e show ?thesis by auto
  qed
qed simp

lemma send_parts_returns:
  "length (concat ds) \<le> answers rets \<Longrightarrow> \<exists>ok ev. send_parts rets ds = Some (ok, ev)"
proof (induction ds arbitrary: rets)
  case (Cons d ds)
  then obtain ok ev rest where d: "send_all rets d = Some (ok, ev, rest)"
    "ok \<longrightarrow> answers rets \<le> answers rest + length d"
    using send_all_returns [of d rets] by auto
  show ?case
  proof (cases ok)
    case True
    with Cons.prems d have "length (concat ds) \<le> answers rest" by simp
    from Cons.IH [OF this] d True show ?thesis by auto
  qed (use d in auto)
qed auto

definition request_text :: "transport \<Rightarrow> string \<Rightarrow> string" where
  "request_text t body = t_request_prefix t @ ''Content-Length: '' @ dec (length body) @ crlf @ crlf @ body"

text \<open>C19: Sending a batch.  When the connection attempt comes to an end, the receiving side closes, and
  the system answers often enough (interruptions do not count), \<open>send\<close> returns; every descriptor it
  opened is closed, exactly once; what went out is a prefix of the request line, the headers, the
  exact content length and the body; and it is the whole request if a connection was made and no call
  failed.\<close>

theorem native_send_correct:
  assumes conn: "connect_to_host addresses = Some (fd, ev0)"
    and answers: "length (request_text t body) \<le> answers sends"
    and closes: "discard_response recvs = Some ()"
  shows "\<exists>ev. native_send addresses sends recvs t body = Some ev \<and> opened ev = closed ev
     \<and> (\<exists>more. request_text t body = sent ev @ more)
     \<and> (fd \<ge> 0 \<and> \<not> (\<exists>r \<in> set sends. send_fails r) \<longrightarrow> sent ev = request_text t body)"
proof -
  define parts where "parts = [t_request_prefix t, ''Content-Length: '' @ dec (length body) @ crlf @ crlf, body]"
  have concat: "concat parts = request_text t body" by (simp add: parts_def request_text_def)
  obtain ok ev1 where sent: "send_parts sends parts = Some (ok, ev1)"
    using send_parts_returns [of parts sends] answers concat by auto
  note e = send_parts_effect [OF sent]
  note c = connect_balanced [OF conn]
  show ?thesis
  proof (cases "fd < 0")
    case True
    then show ?thesis using c conn by (auto simp: native_send_def Let_def)
  next
    case False
    then have "native_send addresses sends recvs t body = Some (ev0 @ ev1 @ [Closed fd])"
      using conn sent closes unfolding native_send_def Let_def parts_def [symmetric] by (cases ok) simp_all
    with e c False concat show ?thesis by auto
  qed
qed

definition demo_address :: address where
  "demo_address = \<lparr>a_socket = 5, a_getfl = 0, a_setfl = 0, a_connect = - 1, a_in_progress = True,
     a_poll = [(- 1, True), (1, False)], a_getsockopt = 0, a_socket_error = 0, a_restore = 0\<rparr>"

definition demo_transport :: transport where
  "demo_transport = \<lparr>t_host = ''h'', t_path = ''/'', t_request_prefix = ''P'', t_ipv6 = False, t_port = 80\<rparr>"

lemma native_send_correct_witness:
  "\<exists>ev. native_send (Some [demo_address]) (Interrupted # replicate 24 (Transferred 1)) [Transferred 0]
          demo_transport ''{}'' = Some ev
     \<and> opened ev = closed ev \<and> sent ev = request_text demo_transport ''{}''"
proof -
  have conn: "connect_to_host (Some [demo_address]) = Some (5, [Opened 5, Free_addresses])"
    by (simp add: connect_to_host_def demo_address_def try_connect_def Let_def)
  have "length (request_text demo_transport ''{}'') \<le> answers (Interrupted # replicate 24 (Transferred 1))"
    by (simp add: request_text_def demo_transport_def answers_def crlf_def dec.simps)
  from native_send_correct [OF conn this, of "[Transferred 0]"] show ?thesis
    by (auto simp: send_fails_def)
qed

end
