(* ===== verification/Otel_Curl.thy ===== *)
theory Otel_Curl
  imports Log_Sink
begin

text \<open>
  \<open>logging/sinks/otel_transports/curl.h\<close>: the transport on top of libcurl, without its debug output.

  Of libcurl the model takes what its interface documents: each call answers with a code, zero being
  \<open>CURLE_OK\<close>; \<open>curl_slist_append\<close> returns null on failure and leaves the list as it is.  The answers
  are a parameter, \<open>ans i\<close> for the \<open>i\<close>-th call after \<open>curl_easy_init\<close>, as is \<open>curl_easy_strerror\<close>.  The
  calls made are recorded as events.
\<close>

section \<open>Handles and calls\<close>

datatype curl_option =
    CURLOPT_URL string
  | CURLOPT_HTTPHEADER "string list"
  | CURLOPT_POST
  | CURLOPT_WRITEFUNCTION_discard
  | CURLOPT_NOSIGNAL
  | CURLOPT_CONNECTTIMEOUT_MS nat
  | CURLOPT_TIMEOUT_MS nat
  | CURLOPT_POSTFIELDS string
  | CURLOPT_POSTFIELDSIZE_LARGE nat

datatype curl_event =
    Easy_init
  | Slist_append string
  | Easy_setopt curl_option
  | Easy_perform
  | Easy_cleanup
  | Slist_free_all

text \<open>\<open>m_headers\<close> is null exactly when nothing was appended.\<close>

record curl_transport =
  c_curl :: bool
  c_headers :: "string list"

fun option_name :: "curl_option \<Rightarrow> string" where
  "option_name (CURLOPT_URL _) = ''CURLOPT_URL''"
| "option_name (CURLOPT_HTTPHEADER _) = ''CURLOPT_HTTPHEADER''"
| "option_name CURLOPT_POST = ''CURLOPT_POST''"
| "option_name CURLOPT_WRITEFUNCTION_discard = ''CURLOPT_WRITEFUNCTION''"
| "option_name CURLOPT_NOSIGNAL = ''CURLOPT_NOSIGNAL''"
| "option_name (CURLOPT_CONNECTTIMEOUT_MS _) = ''CURLOPT_CONNECTTIMEOUT_MS''"
| "option_name (CURLOPT_TIMEOUT_MS _) = ''CURLOPT_TIMEOUT_MS''"
| "option_name (CURLOPT_POSTFIELDS _) = ''CURLOPT_POSTFIELDS''"
| "option_name (CURLOPT_POSTFIELDSIZE_LARGE _) = ''CURLOPT_POSTFIELDSIZE_LARGE''"

definition check_setopt :: "(nat \<Rightarrow> string) \<Rightarrow> nat \<Rightarrow> curl_option \<Rightarrow> unit throws" where
  "check_setopt strerror result option =
     (if result \<noteq> 0 then Inl (std_runtime_error (option_name option @ '' failed: '' @ strerror result))
      else Inr ())"

section \<open>Construction\<close>

fun append_headers :: "(nat \<Rightarrow> nat) \<Rightarrow> nat \<Rightarrow> string list \<Rightarrow> curl_transport \<Rightarrow> curl_event list \<times> unit throws \<times> curl_transport" where
  "append_headers ans i [] t = ([], Inr (), t)"
| "append_headers ans i (h # hs) t =
     (if ans i \<noteq> 0 then ([Slist_append h], Inl (std_runtime_error ''curl_slist_append failed''), t)
      else
        (case append_headers ans (Suc i) hs (t\<lparr>c_headers := c_headers t @ [h]\<rparr>) of (ev, r, t') \<Rightarrow>
           (Slist_append h # ev, r, t')))"

fun set_options :: "(nat \<Rightarrow> string) \<Rightarrow> (nat \<Rightarrow> nat) \<Rightarrow> nat \<Rightarrow> curl_option list \<Rightarrow> curl_event list \<times> unit throws" where
  "set_options strerror ans i [] = ([], Inr ())"
| "set_options strerror ans i (opt # opts) =
     (case check_setopt strerror (ans i) opt of
        Inl e \<Rightarrow> ([Easy_setopt opt], Inl e)
      | Inr _ \<Rightarrow> (case set_options strerror ans (Suc i) opts of (ev, r) \<Rightarrow> (Easy_setopt opt # ev, r)))"

definition request_headers :: "otel_sink_opts \<Rightarrow> string list" where
  "request_headers opts =
     [''Content-Type: application/json'']
     @ (if oo_auth_token opts \<noteq> [] then [''Authorization: '' @ oo_auth_token opts] else [])
     @ [''stream-name: '' @ oo_service_namespace opts]"

definition request_options :: "otel_sink_opts \<Rightarrow> string list \<Rightarrow> curl_option list" where
  "request_options opts headers =
     [CURLOPT_URL (oo_endpoint opts), CURLOPT_HTTPHEADER headers, CURLOPT_POST, CURLOPT_WRITEFUNCTION_discard,
      CURLOPT_NOSIGNAL, CURLOPT_CONNECTTIMEOUT_MS 1000, CURLOPT_TIMEOUT_MS 3000]"

text \<open>The destructor, and the handler that runs before an exception leaves the constructor.\<close>

definition curl_release :: "curl_transport \<Rightarrow> curl_event list" where
  "curl_release t =
     (if c_curl t then [Easy_cleanup] else []) @ (if c_headers t \<noteq> [] then [Slist_free_all] else [])"

definition otel_curl_transport ::
  "(nat \<Rightarrow> string) \<Rightarrow> bool \<Rightarrow> (nat \<Rightarrow> nat) \<Rightarrow> otel_sink_opts \<Rightarrow> curl_event list \<times> curl_transport throws"
where
  "otel_curl_transport strerror init_ok ans opts =
     (if \<not> init_ok then ([Easy_init], Inl (std_runtime_error ''curl_easy_init failed''))
      else
        (case append_headers ans 0 (request_headers opts) \<lparr>c_curl = True, c_headers = []\<rparr> of
           (ev1, Inl e, t) \<Rightarrow> (Easy_init # ev1 @ curl_release t, Inl e)
         | (ev1, Inr _, t) \<Rightarrow>
             (case set_options strerror ans (length (request_headers opts)) (request_options opts (c_headers t)) of
                (ev2, Inl e) \<Rightarrow> (Easy_init # ev1 @ ev2 @ curl_release t, Inl e)
              | (ev2, Inr _) \<Rightarrow> (Easy_init # ev1 @ ev2, Inr t))))"

section \<open>Sending\<close>

definition curl_send :: "(nat \<Rightarrow> nat) \<Rightarrow> string \<Rightarrow> curl_event list" where
  "curl_send ans json_body =
     (if ans 0 \<noteq> 0 then [Easy_setopt (CURLOPT_POSTFIELDS json_body)]
      else if ans 1 \<noteq> 0
        then [Easy_setopt (CURLOPT_POSTFIELDS json_body), Easy_setopt (CURLOPT_POSTFIELDSIZE_LARGE (length json_body))]
      else [Easy_setopt (CURLOPT_POSTFIELDS json_body), Easy_setopt (CURLOPT_POSTFIELDSIZE_LARGE (length json_body)),
            Easy_perform])"

definition curl_discard_response :: "size_t \<Rightarrow> size_t \<Rightarrow> size_t" where
  "curl_discard_response sz count = sz * count"

text \<open>The callback of the debug build appends what it is given, and reports all of it as taken.\<close>

definition write_response :: "string \<Rightarrow> size_t \<Rightarrow> size_t \<Rightarrow> string \<Rightarrow> size_t \<times> string" where
  "write_response data sz count response =
     (let data_size = sz * count in (data_size, response @ take (unat data_size) data))"

section \<open>Lemmas\<close>

lemma all_less_add: "(\<forall>i < m + n. P i) \<longleftrightarrow> (\<forall>i < m. P i) \<and> (\<forall>j < (n :: nat). P (m + j))"
proof (intro iffI conjI allI impI)
  fix i
  assume "(\<forall>i < m. P i) \<and> (\<forall>j < n. P (m + j))" and "i < m + n"
  then show "P i" by (cases "i < m") (auto dest: spec [of _ "i - m"])
qed auto

lemma append_headers_effect:
  "append_headers ans i hs t = (ev, r, t') \<Longrightarrow>
     (\<exists>k \<le> length hs. c_headers t' = c_headers t @ take k hs \<and> (r = Inr () \<longrightarrow> k = length hs))
     \<and> c_curl t' = c_curl t
     \<and> Easy_cleanup \<notin> set ev \<and> Slist_free_all \<notin> set ev \<and> Easy_init \<notin> set ev
     \<and> (r = Inr () \<longrightarrow> ev = map Slist_append hs)
     \<and> (\<forall>e. r = Inl e \<longrightarrow> (\<exists>msg. e = std_runtime_error msg))
     \<and> (r = Inr () \<longleftrightarrow> (\<forall>j < length hs. ans (i + j) = 0))"
proof (induction hs arbitrary: i t ev r t')
  case (Cons h hs)
  show ?case
  proof (cases "ans i = 0")
    case False
    then show ?thesis using Cons.prems by (auto intro!: exI [of _ 0])
  next
    case True
    with Cons.prems obtain ev' where
      rec: "append_headers ans (Suc i) hs (t\<lparr>c_headers := c_headers t @ [h]\<rparr>) = (ev', r, t')"
      and ev: "ev = Slist_append h # ev'"
      by (auto split: prod.splits)
    note ih = Cons.IH [OF rec]
    then obtain k where k: "k \<le> length hs" "c_headers t' = c_headers t @ h # take k hs"
      "r = Inr () \<longrightarrow> k = length hs" by auto
    have "(\<forall>j < length (h # hs). ans (i + j) = 0) \<longleftrightarrow> (\<forall>j < length hs. ans (Suc i + j) = 0)"
      using True by (auto simp: less_Suc_eq_0_disj)
    then show ?thesis using ih k by (auto simp: ev intro!: exI [of _ "Suc k"])
  qed
qed simp

lemma append_headers_first:
  assumes "append_headers ans i (h # hs) t = (ev, r, t')" and "c_headers t = []"
  shows "c_headers t' \<noteq> [] \<longleftrightarrow> ans i = 0"
proof (cases "ans i = 0")
  case True
  with assms obtain ev' where "append_headers ans (Suc i) hs (t\<lparr>c_headers := [h]\<rparr>) = (ev', r, t')"
    by (auto split: prod.splits)
  from append_headers_effect [OF this] True show ?thesis by auto
qed (use assms in auto)

lemma set_options_effect:
  "set_options strerror ans i opts = (ev, r) \<Longrightarrow>
     Easy_cleanup \<notin> set ev \<and> Slist_free_all \<notin> set ev \<and> Easy_init \<notin> set ev
     \<and> (r = Inr () \<longrightarrow> ev = map Easy_setopt opts)
     \<and> (\<forall>e. r = Inl e \<longrightarrow> (\<exists>msg. e = std_runtime_error msg))
     \<and> (r = Inr () \<longleftrightarrow> (\<forall>j < length opts. ans (i + j) = 0))"
proof (induction opts arbitrary: i ev r)
  case (Cons opt opts)
  show ?case
  proof (cases "ans i = 0")
    case False
    then show ?thesis using Cons.prems by (auto simp: check_setopt_def)
  next
    case True
    with Cons.prems obtain ev' where rec: "set_options strerror ans (Suc i) opts = (ev', r)"
      and ev: "ev = Easy_setopt opt # ev'"
      by (auto simp: check_setopt_def split: prod.splits)
    have "(\<forall>j < length (opt # opts). ans (i + j) = 0) \<longleftrightarrow> (\<forall>j < length opts. ans (Suc i + j) = 0)"
      using True by (auto simp: less_Suc_eq_0_disj)
    with Cons.IH [OF rec] show ?thesis by (auto simp: ev)
  qed
qed simp

section \<open>Property\<close>

definition releases :: "curl_event list \<Rightarrow> nat \<times> nat" where
  "releases ev = (count_list ev Easy_cleanup, count_list ev Slist_free_all)"

lemma releases_none: "Easy_cleanup \<notin> set ev \<Longrightarrow> Slist_free_all \<notin> set ev \<Longrightarrow> releases (ev @ ev') = releases ev'"
  by (simp add: releases_def)

text \<open>A constructor that fails after \<open>curl_easy_init\<close> releases the handle, and the header list if there is one.\<close>

lemma curl_failure_releases:
  assumes a: "append_headers ans 0 (request_headers opts) \<lparr>c_curl = True, c_headers = []\<rparr> = (ev1, r1, t)"
    and s: "set_options strerror ans (length (request_headers opts)) (request_options opts (c_headers t)) = (ev2, r2)"
    and fails: "\<not> (r1 = Inr () \<and> r2 = Inr ())"
  shows "\<exists>ev msg. otel_curl_transport strerror True ans opts = (ev, Inl (std_runtime_error msg))
    \<and> releases ev = (1, if ans 0 = 0 then 1 else 0)"
proof -
  note ae = append_headers_effect [OF a] and se = set_options_effect [OF s]
  obtain h tl where hs: "request_headers opts = h # tl" by (simp add: request_headers_def)
  have released: "releases (curl_release t) = (1, if ans 0 = 0 then 1 else 0)"
    using ae append_headers_first [OF a [unfolded hs]] by (auto simp: curl_release_def releases_def)
  show ?thesis
  proof (cases r1)
    case (Inl e)
    then have "otel_curl_transport strerror True ans opts = ((Easy_init # ev1) @ curl_release t, Inl e)"
      using a by (simp add: otel_curl_transport_def)
    moreover have "releases ((Easy_init # ev1) @ curl_release t) = releases (curl_release t)"
      using ae by (intro releases_none) auto
    ultimately show ?thesis using ae Inl released by fastforce
  next
    case (Inr u)
    with fails obtain e where r2: "r2 = Inl e" by (cases r2) auto
    then have "otel_curl_transport strerror True ans opts = ((Easy_init # ev1 @ ev2) @ curl_release t, Inl e)"
      using a s Inr by (simp add: otel_curl_transport_def)
    moreover have "releases ((Easy_init # ev1 @ ev2) @ curl_release t) = releases (curl_release t)"
      using ae se by (intro releases_none) auto
    ultimately show ?thesis using se r2 released by fastforce
  qed
qed

text \<open>The curl transport never leaks and never half-configures.  The constructor succeeds exactly
  when \<open>curl_easy_init\<close> and every call after it succeed; then the handle has the URL, the headers and
  the timeouts of the options, nothing has been released, and the destructor releases the handle and
  the header list once each.  Otherwise it throws \<open>std::runtime_error\<close>, and the handle, if there is
  one, and the header list, if there is one, have been released exactly once.\<close>

lemma curl_transport_safe:
  "(case otel_curl_transport strerror init_ok ans opts of
      (ev, Inr t) \<Rightarrow>
        init_ok \<and> (\<forall>i < length (request_headers opts) + 7. ans i = 0)
        \<and> ev = Easy_init # map Slist_append (request_headers opts)
                 @ map Easy_setopt (request_options opts (request_headers opts))
        \<and> releases (curl_release t) = (1, 1)
    | (ev, Inl e) \<Rightarrow>
        \<not> (init_ok \<and> (\<forall>i < length (request_headers opts) + 7. ans i = 0))
        \<and> (\<exists>msg. e = std_runtime_error msg)
        \<and> releases ev = (if init_ok then 1 else 0, if init_ok \<and> ans 0 = 0 then 1 else 0))"
proof (cases init_ok)
  case False
  then show ?thesis by (simp add: otel_curl_transport_def releases_def)
next
  case True
  obtain ev1 r1 t where a: "append_headers ans 0 (request_headers opts) \<lparr>c_curl = True, c_headers = []\<rparr> = (ev1, r1, t)"
    by (metis prod_cases3)
  obtain ev2 r2 where s: "set_options strerror ans (length (request_headers opts))
      (request_options opts (c_headers t)) = (ev2, r2)"
    by fastforce
  note ae = append_headers_effect [OF a] and se = set_options_effect [OF s]
  have n: "length (request_options opts hs) = 7" for hs by (simp add: request_options_def)
  have all: "(\<forall>i < length (request_headers opts) + 7. ans i = 0) \<longleftrightarrow> r1 = Inr () \<and> r2 = Inr ()"
    unfolding all_less_add using ae se n [of "c_headers t"] by simp
  show ?thesis
  proof (cases "r1 = Inr () \<and> r2 = Inr ()")
    case True
    then have "c_headers t = request_headers opts" using ae by auto
    then show ?thesis using True \<open>init_ok\<close> a s ae se n all
      by (auto simp: otel_curl_transport_def curl_release_def releases_def request_headers_def)
  next
    case False
    then show ?thesis using curl_failure_releases [OF a s False] all \<open>init_ok\<close> by auto
  qed
qed

lemma curl_transport_safe_witness:
  "\<exists>ev t. otel_curl_transport (\<lambda>code. ''error'') True (\<lambda>i. 0) demo_otel_opts = (ev, Inr t)
     \<and> ev = Easy_init # map Slist_append (request_headers demo_otel_opts)
              @ map Easy_setopt (request_options demo_otel_opts (request_headers demo_otel_opts))
     \<and> releases (curl_release t) = (1, 1)"
  using curl_transport_safe
    [where strerror = "\<lambda>code. ''error''" and init_ok = True and ans = "\<lambda>i. 0" and opts = demo_otel_opts]
  by (auto split: prod.splits sum.splits)

end
