(* ===== verification/Pipe_Utils.thy ===== *)
theory Pipe_Utils
  imports Xtd_Prelude
begin

text \<open>
  \<open>pipeline/pipe_utils.h\<close>: threads that copy a file or a socket into a pipeline writer.

  A thread is the list of calls it makes on the writer and how it ends.  \<open>write_ok i\<close> tells whether the
  \<open>i\<close>-th call of \<open>write\<close> returns; a call that throws (the pipeline is completed) leaves the thread
  function, which has no handler, so that the process terminates.
\<close>

section \<open>Writer calls\<close>

datatype writer_call = Write "byte list" | Complete_writer

datatype thread_end = Thread_returns | Thread_terminates

type_synonym thread_run = "writer_call list \<times> thread_end"

definition then_call :: "writer_call \<Rightarrow> thread_run \<Rightarrow> thread_run" where
  "then_call c r = (c # fst r, snd r)"

definition finish :: thread_run where
  "finish = ([Complete_writer], Thread_returns)"

section \<open>Copying a file\<close>

text \<open>
  \<open>std::ifstream::read\<close> on what is left of the file: the bytes delivered, and whether the end of the
  file was met, which sets \<open>eofbit\<close> and \<open>failbit\<close>.
\<close>

definition ifstream_read :: "nat \<Rightarrow> byte list \<Rightarrow> byte list \<times> bool" where
  "ifstream_read n content = (take n content, length content < n)"

function copy_file_loop :: "(nat \<Rightarrow> bool) \<Rightarrow> nat \<Rightarrow> nat \<Rightarrow> byte list \<Rightarrow> thread_run" where
  "copy_file_loop write_ok i chunk_size content =
     (case ifstream_read (Suc chunk_size) content of (buffer, at_end) \<Rightarrow>
        if buffer \<noteq> [] then
          if write_ok i then
            then_call (Write buffer)
              (if at_end then finish
               else copy_file_loop write_ok (Suc i) chunk_size (drop (length buffer) content))
          else ([Write buffer], Thread_terminates)
        else if at_end then finish
        else copy_file_loop write_ok i chunk_size content)"
  by pat_completeness auto
termination
  by (relation "measure (\<lambda>(write_ok, i, chunk_size, content). length content)")
    (auto simp: ifstream_read_def)

declare copy_file_loop.simps [simp del]

text \<open>
  \<open>threaded_copy_file_from_path\<close>.  \<open>probe\<close> tells whether the file can be opened at the time of the call,
  and \<open>content\<close> is what the thread finds, \<open>None\<close> when it cannot open the file any more.
\<close>

definition threaded_copy_file_from_path ::
  "(nat \<Rightarrow> bool) \<Rightarrow> bool \<Rightarrow> byte list option \<Rightarrow> size_t \<Rightarrow> thread_run throws"
where
  "threaded_copy_file_from_path write_ok probe content chunk_size =
     (if chunk_size = 0 then Inl (std_invalid_argument ''chunk size must be greater than zero'')
      else if \<not> probe then Inl (std_runtime_error ''failed to open file'')
      else
        (case content of
           None \<Rightarrow> Inr finish
         | Some bytes \<Rightarrow> Inr (copy_file_loop write_ok 0 (unat chunk_size - 1) bytes)))"

section \<open>Copying a socket\<close>

datatype recv_result = Received "byte list" | Peer_closed | Recv_interrupted | Recv_failed

text \<open>
  The loop over the results of \<open>recv\<close>; \<open>None\<close> when the thread is still inside a call after the last of
  them.  A result has at least one byte and at most as many as the buffer.
\<close>

fun copy_socket_loop :: "(nat \<Rightarrow> bool) \<Rightarrow> nat \<Rightarrow> recv_result list \<Rightarrow> thread_run option" where
  "copy_socket_loop write_ok i [] = None"
| "copy_socket_loop write_ok i (Received buffer # rest) =
     (if write_ok i then map_option (then_call (Write buffer)) (copy_socket_loop write_ok (Suc i) rest)
      else Some ([Write buffer], Thread_terminates))"
| "copy_socket_loop write_ok i (Peer_closed # rest) = Some finish"
| "copy_socket_loop write_ok i (Recv_interrupted # rest) = copy_socket_loop write_ok i rest"
| "copy_socket_loop write_ok i (Recv_failed # rest) = Some finish"

definition threaded_copy_from_socket ::
  "(nat \<Rightarrow> bool) \<Rightarrow> int \<Rightarrow> recv_result list \<Rightarrow> size_t \<Rightarrow> thread_run option throws"
where
  "threaded_copy_from_socket write_ok socket_fd results chunk_size =
     (if socket_fd < 0 then Inl (std_invalid_argument ''socketFd must be a valid descriptor'')
      else if chunk_size = 0 then Inl (std_invalid_argument ''chunk size must be greater than zero'')
      else Inr (copy_socket_loop write_ok 0 results))"

section \<open>The contract of a copying thread\<close>

fun bytes_written :: "writer_call list \<Rightarrow> byte list" where
  "bytes_written [] = []"
| "bytes_written (Write bs # cs) = bs @ bytes_written cs"
| "bytes_written (Complete_writer # cs) = bytes_written cs"

text \<open>A finished copy: writes of between one byte and one buffer, then one completion, then the end.\<close>

definition copied :: "nat \<Rightarrow> byte list \<Rightarrow> thread_run \<Rightarrow> bool" where
  "copied n content r \<longleftrightarrow>
     (\<exists>writes. r = (map Write writes @ [Complete_writer], Thread_returns)
        \<and> concat writes = content \<and> list_all (\<lambda>w. w \<noteq> [] \<and> length w \<le> n) writes)"

lemma copied_finish: "copied n [] finish"
  by (auto simp: copied_def finish_def)

lemma copied_then:
  assumes "copied n content r" and "w \<noteq> []" and "length w \<le> n"
  shows "copied n (w @ content) (then_call (Write w) r)"
proof -
  obtain writes where "r = (map Write writes @ [Complete_writer], Thread_returns)"
    "concat writes = content" "list_all (\<lambda>w. w \<noteq> [] \<and> length w \<le> n) writes"
    using assms(1) by (auto simp: copied_def)
  with assms show ?thesis by (auto simp: copied_def then_call_def intro!: exI [of _ "w # writes"])
qed

lemma copy_file_loop_copied: "copied (Suc k) content (copy_file_loop (\<lambda>_. True) i k content)"
proof (induction content arbitrary: i rule: length_induct)
  case (1 content)
  show ?case
  proof (cases content)
    case Nil
    then show ?thesis by (subst copy_file_loop.simps) (simp add: ifstream_read_def copied_finish)
  next
    case (Cons b bs)
    let ?w = "take (Suc k) content"
    have w: "?w \<noteq> []" "length ?w \<le> Suc k" using Cons by auto
    show ?thesis
    proof (cases "length content < Suc k")
      case True
      then have "copy_file_loop (\<lambda>_. True) i k content = then_call (Write ?w) finish"
        using Cons by (subst copy_file_loop.simps) (simp add: ifstream_read_def)
      moreover have "?w = content" using True by simp
      ultimately show ?thesis using copied_then [OF copied_finish w] by simp
    next
      case False
      have "copy_file_loop (\<lambda>_. True) i k content
          = then_call (Write ?w) (copy_file_loop (\<lambda>_. True) (Suc i) k (drop (length ?w) content))"
        using Cons False by (subst copy_file_loop.simps) (simp add: ifstream_read_def)
      moreover have "copied (Suc k) (drop (length ?w) content)
          (copy_file_loop (\<lambda>_. True) (Suc i) k (drop (length ?w) content))"
        using 1 [rule_format, of "drop (length ?w) content"] Cons by simp
      from copied_then [OF this w] have "copied (Suc k) content
          (then_call (Write ?w) (copy_file_loop (\<lambda>_. True) (Suc i) k (drop (length ?w) content)))"
        using False by (simp add: min_absorb2)
      ultimately show ?thesis by simp
    qed
  qed
qed

text \<open>The bytes that arrive before the peer closes or the connection fails.\<close>

fun arriving :: "recv_result list \<Rightarrow> byte list" where
  "arriving [] = []"
| "arriving (Received bs # rest) = bs @ arriving rest"
| "arriving (Recv_interrupted # rest) = arriving rest"
| "arriving (_ # rest) = []"

definition recv_ok :: "nat \<Rightarrow> recv_result \<Rightarrow> bool" where
  "recv_ok n r \<longleftrightarrow> (case r of Received bs \<Rightarrow> bs \<noteq> [] \<and> length bs \<le> n | _ \<Rightarrow> True)"

lemma copy_socket_loop_copied:
  assumes "list_all (recv_ok n) results" and "Peer_closed \<in> set results \<or> Recv_failed \<in> set results"
  shows "\<exists>r. copy_socket_loop (\<lambda>_. True) i results = Some r \<and> copied n (arriving results) r"
  using assms
proof (induction results arbitrary: i)
  case (Cons x results)
  show ?case
  proof (cases x)
    case (Received bs)
    obtain r where "copy_socket_loop (\<lambda>_. True) (Suc i) results = Some r" "copied n (arriving results) r"
      using Cons.IH [of "Suc i"] Cons.prems Received by auto
    with Received Cons.prems show ?thesis by (auto simp: recv_ok_def intro: copied_then)
  qed (use Cons copied_finish in auto)
qed simp

section \<open>Properties\<close>



text \<open>A writer that throws is not handled.  When the pipeline is completed while a copy is running, the
  next write ends the thread with an exception that nothing catches: the writer is never completed by
  the thread and the process terminates.\<close>

lemma copy_thread_terminates:
  assumes "bs \<noteq> []" and "list_all (\<lambda>r. r = Recv_interrupted) pre"
  shows "copy_socket_loop (\<lambda>_. False) i (pre @ Received bs # rest) = Some ([Write bs], Thread_terminates)
     \<and> snd (copy_file_loop (\<lambda>_. False) i k bs) = Thread_terminates
     \<and> Complete_writer \<notin> set (fst (copy_file_loop (\<lambda>_. False) i k bs))"
proof -
  have "copy_socket_loop (\<lambda>_. False) i (pre @ Received bs # rest) = Some ([Write bs], Thread_terminates)"
    using assms(2) by (induction pre) auto
  then show ?thesis using assms(1) by (subst (1 2) copy_file_loop.simps) (simp add: ifstream_read_def)
qed

lemma copy_thread_terminates_witness:
  "copy_socket_loop (\<lambda>_. False) 0 ([Recv_interrupted] @ Received [7] # [Peer_closed]) = Some ([Write [7]], Thread_terminates)
   \<and> snd (copy_file_loop (\<lambda>_. False) 0 4095 [7]) = Thread_terminates
   \<and> Complete_writer \<notin> set (fst (copy_file_loop (\<lambda>_. False) 0 4095 [7]))"
  by (rule copy_thread_terminates) simp_all

end
