(* ===== verification/Line_Reader.thy ===== *)
theory Line_Reader
  imports Pipeline_Properties
begin

text \<open>
  What the programs that read lines from a pipeline share: cutting a view at its first newline, what a
  read of an idle reader gives, what advancing to a rest of the read buffer leaves behind, and what a
  write leaves alone.  The locale \<open>line_loop\<close> is the contract of a loop that takes complete lines off
  the front of a view.
\<close>

section \<open>Strings as bytes\<close>

definition bytes_of :: "string \<Rightarrow> byte list" where
  "bytes_of s = map byte_of_char s"

lemma bytes_of_eval [simp]: "bytes_of [] = []" "bytes_of (c # s) = byte_of_char c # bytes_of s"
  by (simp_all add: bytes_of_def)

section \<open>Cutting a view\<close>

text \<open>Slices by offsets relative to the view.\<close>

lemma view_cut:
  assumes ok: "view_ok v" and le: "i \<le> j" "j \<le> length (view_bytes v)"
  obtains w where "view_slice v \<lparr>range_begin = m_begin_offset v + of_nat i, range_end = m_begin_offset v + of_nat j\<rparr> = Inr w"
    and "view_ok w" and "m_begin_offset w = m_begin_offset v + of_nat i"
    and "view_bytes w = take (j - i) (drop i (view_bytes v))"
proof -
  have bound: "unat (m_begin_offset v) + length (view_bytes v) < 2 ^ 64" using ok by (simp add: view_ok_def)
  then have u: "unat (m_begin_offset v + of_nat k) = unat (m_begin_offset v) + k" if "k \<le> length (view_bytes v)" for k
    using that by (simp add: unat_add_size unat_of_nat_size)
  have "in_view (m_begin_offset v + of_nat i) (m_begin_offset v + of_nat j) v"
    using u [of i] u [of j] le view_ok_length [OF ok] by (simp add: in_view_def)
  from view_slice_ok [OF ok this] obtain w where w:
      "view_slice v \<lparr>range_begin = m_begin_offset v + of_nat i, range_end = m_begin_offset v + of_nat j\<rparr> = Inr w"
      "view_ok w" "m_begin_offset w = m_begin_offset v + of_nat i"
      "view_bytes w = take (unat (m_begin_offset v + of_nat j) - unat (m_begin_offset v + of_nat i))
         (drop (unat (m_begin_offset v + of_nat i) - unat (m_begin_offset v)) (view_bytes v))" .
  show thesis using w(4) u [of i] u [of j] le by (intro that [OF w(1-3)]) simp
qed

lemma end_offset_length: "view_ok v \<Longrightarrow> end_offset v = m_begin_offset v + of_nat (length (view_bytes v))"
  by (simp add: end_offset_def view_ok_length)

lemma pos_bool_at: "pos_bool (position_at x)"
  by (simp add: position_defs)

section \<open>Lines\<close>

definition newline :: byte where "newline = 0x0A"

lemma position_of_newline:
  "position_of_char (CHR 0x0A) v = position_of newline v"
  by (simp add: position_of_char_def byte_of_char_def newline_def)

lemma next_line:
  assumes ok: "view_ok v" and nl: "newline \<in> set (view_bytes v)"
  obtains pos line rest where "position_of_char (CHR 0x0A) v = pos" and "pos_bool pos"
    and "pos = position_at (m_begin_offset v + of_nat (length (view_bytes line)))"
    and "slice_end pos v = Inr line" and "slice_in_place_pos (pos_plus pos 1) (view_end v) v = Inr rest"
    and "view_ok line" and "view_ok rest" and "m_begin_offset line = m_begin_offset v"
    and "m_begin_offset rest = m_begin_offset v + of_nat (Suc (length (view_bytes line)))"
    and "view_bytes v = view_bytes line @ newline # view_bytes rest" and "newline \<notin> set (view_bytes line)"
proof -
  let ?n = "length (view_bytes v)" and ?b = "m_begin_offset v"
  obtain k where k: "find_index (\<lambda>x. x = newline) (view_bytes v) = Some k"
    using nl find_index_None_iff [of "\<lambda>x. x = newline" "view_bytes v"] by auto
  have kn: "k < ?n" "view_bytes v ! k = newline" "\<forall>j < k. view_bytes v ! j \<noteq> newline"
    using find_index_Some [OF k] by auto
  have pos: "position_of_char (CHR 0x0A) v = position_at (?b + of_nat k)"
    using position_of_flat [OF ok] k by (simp add: found_at_def position_of_newline)
  obtain line where line: "view_slice v \<lparr>range_begin = ?b, range_end = ?b + of_nat k\<rparr> = Inr line"
      "view_ok line" "m_begin_offset line = ?b" "view_bytes line = take k (view_bytes v)"
    using view_cut [OF ok, of 0 k] kn by auto
  obtain rest where rest: "view_slice v \<lparr>range_begin = ?b + of_nat (Suc k), range_end = end_offset v\<rparr> = Inr rest"
      "view_ok rest" "m_begin_offset rest = ?b + of_nat (Suc k)" "view_bytes rest = drop (Suc k) (view_bytes v)"
    using view_cut [OF ok, of "Suc k" ?n] kn by (auto simp: end_offset_length [OF ok])
  have k': "length (view_bytes line) = k" using line(4) kn by simp
  have "pos_plus (position_at (?b + of_nat k)) 1 = position_at (?b + of_nat (Suc k))" by (simp add: position_defs)
  then have cut: "slice_in_place_pos (pos_plus (position_at (?b + of_nat k)) 1) (view_end v) v = Inr rest"
    using rest(1) by (simp add: slice_pos_eq view_end_def del: of_nat_Suc)
  have bytes: "view_bytes v = view_bytes line @ newline # view_bytes rest"
    using kn line(4) rest(4) by (metis id_take_nth_drop)
  show thesis
  proof (rule that [OF pos pos_bool_at _ _ cut line(2) rest(2) line(3) _ bytes])
    show "slice_end (position_at (?b + of_nat k)) v = Inr line" using line(1) by (simp add: slice_pos_eq)
    show "newline \<notin> set (view_bytes line)" using kn line(4) by (auto simp: in_set_conv_nth)
  qed (simp_all only: k' rest(3))
qed

lemma no_line:
  assumes "view_ok v" and "newline \<notin> set (view_bytes v)"
  shows "\<not> pos_bool (position_of_char (CHR 0x0A) v)"
proof -
  have "find_index (\<lambda>x. x = newline) (view_bytes v) = None" using assms(2) by (auto simp: find_index_None_iff)
  then show ?thesis using position_of_flat [OF assms(1)] by (simp add: position_of_newline found_at_def position_defs)
qed

section \<open>The lines of a byte sequence\<close>

text \<open>The complete lines, without their newlines, and the unfinished line.\<close>

primrec split_lines :: "byte list \<Rightarrow> byte list list \<times> byte list" where
  "split_lines [] = ([], [])"
| "split_lines (b # bs) =
     (case split_lines bs of (ls, r) \<Rightarrow>
        if b = newline then ([] # ls, r)
        else (case ls of [] \<Rightarrow> ([], b # r) | l # ls' \<Rightarrow> ((b # l) # ls', r)))"

lemma split_lines_none: "newline \<notin> set xs \<Longrightarrow> split_lines xs = ([], xs)"
  by (induction xs) auto

lemma split_lines_line:
  "newline \<notin> set l \<Longrightarrow> split_lines (l @ newline # xs) = (l # fst (split_lines xs), snd (split_lines xs))"
  by (induction l) (auto split: prod.split)

lemma first_line_unique:
  assumes "xs = l @ newline # r" and "xs = l' @ newline # r'" and "newline \<notin> set l" and "newline \<notin> set l'"
  shows "l' = l"
proof -
  have "fst (split_lines xs) = l # fst (split_lines r)" "fst (split_lines xs) = l' # fst (split_lines r')"
    unfolding assms(1) split_lines_line [OF assms(3)] by simp (metis assms(1,2,4) fst_conv split_lines_line assms(3))
  then show ?thesis by simp
qed

lemma split_lines_append:
  "snd (split_lines xs) = [] \<Longrightarrow>
   split_lines (xs @ ys) = (fst (split_lines xs) @ fst (split_lines ys), snd (split_lines ys))"
  by (induction xs) (auto split: prod.splits list.splits if_splits)

lemma split_lines_rest: "newline \<notin> set (snd (split_lines xs))"
  by (induction xs) (auto split: prod.splits list.splits)

lemma split_lines_bytes: "concat (map (\<lambda>l. l @ [newline]) (fst (split_lines xs))) @ snd (split_lines xs) = xs"
  by (induction xs) (auto split: prod.splits list.splits)

lemma split_lines_concat:
  "\<forall>l \<in> set ls. newline \<notin> set l \<Longrightarrow> split_lines (concat (map (\<lambda>l. l @ [newline]) ls)) = (ls, [])"
  by (induction ls) (auto simp: split_lines_line)

section \<open>The contract of a line loop\<close>

locale line_loop =
  fixes run :: "segmented_byte_view \<Rightarrow> 'a \<Rightarrow> ('a \<times> segmented_byte_view throws) option"
    and line_effect :: "byte list \<Rightarrow> 'a \<Rightarrow> 'a"
  assumes run_ends: "view_ok v \<Longrightarrow> newline \<notin> set (view_bytes v) \<Longrightarrow> run v a = Some (a, Inr v)"
    and run_turn: "view_ok v \<Longrightarrow> view_ok rest \<Longrightarrow> newline \<notin> set line \<Longrightarrow> view_bytes v = line @ newline # view_bytes rest \<Longrightarrow>
      slice_in_place_pos (pos_plus (position_of_char (CHR 0x0A) v) 1) (view_end v) v = Inr rest \<Longrightarrow>
      run v a = run rest (line_effect line a)"
begin

lemma run_lines:
  assumes "view_ok v"
  shows "\<exists>rest pre. run v a = Some (fold line_effect (fst (split_lines (view_bytes v))) a, Inr rest)
     \<and> view_ok rest \<and> view_bytes v = pre @ view_bytes rest
     \<and> m_begin_offset rest = m_begin_offset v + of_nat (length pre)
     \<and> split_lines pre = (fst (split_lines (view_bytes v)), []) \<and> view_bytes rest = snd (split_lines (view_bytes v))"
  using assms
proof (induction "length (view_bytes v)" arbitrary: v a rule: less_induct)
  case less
  show ?case
  proof (cases "newline \<in> set (view_bytes v)")
    case False
    then show ?thesis using less.prems run_ends [OF less.prems False]
      by (intro exI [of _ v] exI [of _ "[]"]) (simp add: split_lines_none)
  next
    case True
    from next_line [OF less.prems this] obtain pos line rest where
      n: "position_of_char (CHR 0x0A) v = pos" "slice_in_place_pos (pos_plus pos 1) (view_end v) v = Inr rest" "view_ok rest"
        "m_begin_offset rest = m_begin_offset v + of_nat (Suc (length (view_bytes line)))"
        "view_bytes v = view_bytes line @ newline # view_bytes rest" "newline \<notin> set (view_bytes line)" by metis
    have run: "run v a = run rest (line_effect (view_bytes line) a)"
      using run_turn [OF less.prems n(3,6,5)] n(1,2) by simp
    have "length (view_bytes rest) < length (view_bytes v)" using n(5) by simp
    from less.hyps [OF this n(3), of "line_effect (view_bytes line) a"] obtain rest' pre where
      IH: "run rest (line_effect (view_bytes line) a)
          = Some (fold line_effect (fst (split_lines (view_bytes rest))) (line_effect (view_bytes line) a), Inr rest')"
        "view_ok rest'" "view_bytes rest = pre @ view_bytes rest'"
        "m_begin_offset rest' = m_begin_offset rest + of_nat (length pre)"
        "split_lines pre = (fst (split_lines (view_bytes rest)), [])"
        "view_bytes rest' = snd (split_lines (view_bytes rest))" by blast
    have sl: "split_lines (view_bytes v) = (view_bytes line # fst (split_lines (view_bytes rest)), snd (split_lines (view_bytes rest)))"
      unfolding n(5) by (rule split_lines_line [OF n(6)])
    show ?thesis
    proof (intro exI [of _ rest'] exI [of _ "view_bytes line @ newline # pre"] conjI IH(2))
      show "run v a = Some (fold line_effect (fst (split_lines (view_bytes v))) a, Inr rest')" using run IH(1) sl by simp
      show "view_bytes v = (view_bytes line @ newline # pre) @ view_bytes rest'" using n(5) IH(3) by simp
      show "m_begin_offset rest' = m_begin_offset v + of_nat (length (view_bytes line @ newline # pre))" using n(4) IH(4) by simp
      show "split_lines (view_bytes line @ newline # pre) = (fst (split_lines (view_bytes v)), [])"
        using IH(5) sl by (simp add: split_lines_line [OF n(6)])
      show "view_bytes rest' = snd (split_lines (view_bytes v))" by (simp only: IH(6) sl snd_conv)
    qed
  qed
qed

end

section \<open>Reading and advancing\<close>

lemma read_call_cases:
  assumes ok: "pipe_ok p" and idle: "\<not> m_has_pending_read p" "\<not> m_reader_completed p"
    and call: "call = reader_read False p \<or> call = read_wait 0 False p"
  shows "(\<not> data_available 0 p \<and> (\<exists>w. call = Blocks (p\<lparr>m_reader_waiting := w\<rparr>)))
    \<or> (data_available 0 p \<and>
       (\<exists>v p'. call = Returns \<lparr>rr_buffer = v, rr_completed = m_writer_completed p, rr_cancelled = False\<rparr> p'
          \<and> view_ok v \<and> m_begin_offset v = 0 \<and> view_bytes v = pipe_bytes p
          \<and> pipe_ok p' \<and> pipe_bytes p' = pipe_bytes p \<and> m_has_pending_read p'
          \<and> m_pending_read_size p' = m_size v \<and> \<not> m_reader_completed p'
          \<and> m_writer_paused p' = m_writer_paused p \<and> same_config p p'
          \<and> m_writer_completed p' = m_writer_completed p
          \<and> m_actual_buffered_size p' = m_actual_buffered_size p \<and> m_deque p' = m_deque p))"
proof (cases "data_available 0 p")
  case False
  then have "\<not> m_writer_completed p" by (simp add: data_available_def)
  moreover have "\<not> data_available 0 (p\<lparr>m_reader_waiting := True\<rparr>)" using False by (simp add: data_available_def)
  moreover have "\<exists>w. p = p\<lparr>m_reader_waiting := w\<rparr>" by (rule exI [of _ "m_reader_waiting p"]) simp
  ultimately show ?thesis
    using False idle call by (auto simp: reader_read_def read_at_least_def read_wait_def)
next
  case True
  define q where "q = (if call = reader_read False p \<and> m_writer_completed p then p else p\<lparr>m_reader_waiting := False\<rparr>)"
  let ?v = "make_readable_view (m_deque p)"
  let ?p' = "q\<lparr>m_has_pending_read := True, m_pending_read_size := view_size ?v\<rparr>"
  have r: "resource_ok p" using ok by (simp add: pipe_ok_def)
  have da: "data_available 0 (p\<lparr>m_reader_waiting := b\<rparr>)" for b using True by (simp add: data_available_def)
  have eq: "call = Returns \<lparr>rr_buffer = ?v, rr_completed = m_writer_completed p, rr_cancelled = False\<rparr> ?p'"
    using call idle da True
    by (auto simp: reader_read_def read_at_least_def read_wait_def read_snapshot_def read_result_make_def Let_def q_def)
  have "pipe_ok ?p' \<and> pipe_bytes ?p' = pipe_bytes p"
  proof -
    have "call_state call = Some ?p'" by (simp add: eq)
    then show ?thesis
      using call read_at_least_stream [OF ok] read_wait_stream [OF ok] unfolding reader_read_def by blast
  qed
  moreover have "\<not> m_reader_completed ?p' \<and> m_writer_paused ?p' = m_writer_paused p \<and> same_config p ?p'
      \<and> m_writer_completed ?p' = m_writer_completed p \<and> m_actual_buffered_size ?p' = m_actual_buffered_size p
      \<and> m_deque ?p' = m_deque p"
    using idle by (simp add: q_def same_config_def)
  ultimately show ?thesis
    using True eq make_readable_view_ok [OF r]
    by (intro disjI2 conjI exI [of _ ?v] exI [of _ ?p']) (auto simp: view_size_def)
qed

text \<open>Advancing with everything examined: the bytes up to \<open>consumed\<close> are released, the rest stays.\<close>

lemma advance_upto:
  assumes ok: "pipe_ok p" and pend: "m_has_pending_read p" "\<not> m_reader_completed p"
    and bytes: "pipe_bytes p = pre @ post" and ps: "unat (m_pending_read_size p) = length (pipe_bytes p)"
    and c: "unat (sequence_offset consumed) = length pre" and e: "sequence_offset examined = m_pending_read_size p"
  obtains p' where
    "advance consumed examined p = Some (Inr (m_writer_paused p \<and> \<not> m_writer_paused p', p'))"
    and "pipe_ok p'" and "pipe_bytes p' = post" and "unat (m_examined_size p') = length post"
    and "\<not> m_has_pending_read p'" and "m_writer_paused p' = (m_writer_paused p \<and> \<not> should_resume_writer p')"
    and "\<not> m_reader_completed p'" and "m_writer_completed p' = m_writer_completed p" and "same_config p p'"
    and "take (unat (sequence_offset consumed)) (pipe_bytes p) = pre"
    and "pre = [] \<Longrightarrow> m_actual_buffered_size p' = m_actual_buffered_size p"
proof -
  have ce: "sequence_offset consumed \<le> sequence_offset examined"
    using bytes ps c e by (simp add: size_le_iff)
  then have "advance_allowed consumed examined p" using pend e by (simp add: advance_allowed_def)
  from advance_ok [OF ok this] obtain p' where
    p': "advance consumed examined p = Some (Inr (m_writer_paused p \<and> \<not> m_writer_paused p', p'))"
      "pipe_ok p'" "pipe_bytes p' = drop (unat (sequence_offset consumed)) (pipe_bytes p)"
      "m_examined_size p' = sequence_offset examined - sequence_offset consumed"
      "\<not> m_has_pending_read p'" "m_writer_paused p' \<longleftrightarrow> m_writer_paused p \<and> \<not> should_resume_writer p'"
      "m_reader_completed p' = m_reader_completed p" "m_writer_completed p' = m_writer_completed p" "same_config p p'"
    by blast
  have ex: "unat (m_examined_size p') = length post"
    using p'(4) ce c e ps bytes by (simp add: unat_sub_size)
  have act: "m_actual_buffered_size p' = m_actual_buffered_size p" if "pre = []"
  proof -
    have "sequence_offset consumed = 0" using that c by (simp add: unat_eq_zero)
    then show ?thesis using p'(1) by (auto simp: advance_def Let_def consume_loop.simps split: if_splits)
  qed
  show thesis using p' pend(2) bytes c ex act by (intro that [of p']) auto
qed

text \<open>Where a rest \<open>data\<close> of the read buffer \<open>v\<close> begins and ends.\<close>

lemma rest_offsets:
  assumes v: "view_ok v" "m_begin_offset v = 0"
    and data: "view_ok data" "view_bytes v = pre @ view_bytes data" "m_begin_offset data = of_nat (length pre)"
  shows "unat (sequence_offset (view_begin data)) = length pre" and "sequence_offset (view_end data) = m_size v"
proof -
  have "length (pre @ view_bytes data) < 2 ^ 64"
    using view_ok_length [OF v(1)] unat_size_bound [of "m_size v"] data(2) by simp
  then show b: "unat (sequence_offset (view_begin data)) = length pre"
    using data(3) by (simp add: unat_of_nat_size view_begin_def position_defs)
  have "unat (end_offset data) = unat (m_size v)"
    using unat_end_offset [OF data(1)] b view_ok_length [OF v(1)] view_ok_length [OF data(1)] data(2)
    by (simp add: view_begin_def position_defs)
  then have "end_offset data = m_size v" by (rule unsigned_word_eqI)
  then show "sequence_offset (view_end data) = m_size v" by (simp add: view_end_def position_defs)
qed

section \<open>Writing\<close>

fun writer_event :: "pipe_event \<Rightarrow> bool" where
  "writer_event (Ev_write sw st data copied) = True"
| "writer_event (Ev_wake_write sw st data copied) = True"
| "writer_event _ = False"

lemma writer_step_frame:
  assumes step: "pipe_step s e t" and "writer_event e" and ok: "pipe_ok (ps_pipe s)"
  shows "same_frame (ps_pipe s) (ps_pipe t) \<and> ps_out t = ps_out s
    \<and> (\<exists>xs. pipe_bytes (ps_pipe t) = pipe_bytes (ps_pipe s) @ xs)"
proof -
  have turn: "same_frame (ps_pipe s) q \<and> (\<exists>xs. pipe_bytes q = pipe_bytes (ps_pipe s) @ xs)"
    if "write_wait sw st data copied (ps_pipe s) = Some (W_done status q)" "unat copied + length data < 2 ^ 64"
    for sw st data copied status q
  proof -
    have "write_loop st 0 data copied False (ps_pipe s) = Some (status, q)"
      using that(1) by (auto simp: write_wait_def split: if_splits)
    then show ?thesis using write_loop_pipe_ok [OF ok that(2), of st 0 False] by (metis option.inject prod.inject)
  qed
  from step assms(2) show ?thesis
  proof (cases rule: pipe_step.cases)
    case (step_write sw st data copied status q)
    then show ?thesis using turn [of sw st data copied status q]
      by (auto simp: write_section_def split: if_splits)
  next
    case (step_wake_write sw st data copied status q)
    then show ?thesis using turn [of sw st data copied status q] by auto
  qed auto
qed

lemma default_options_ok: "options_ok False default_pipe_options"
  by (simp add: options_ok_def default_pipe_options_def)

end
