(* ===== verification/Pipeline_Pause.thy ===== *)
theory Pipeline_Pause
  imports Line_Reader
begin

text \<open>
  When the writer of a pipeline is paused, the pipeline is nearly full of unread bytes: only the head
  segment can be partly read, every other segment is full and unread, and no further segment fits
  below the pause threshold.  This holds for pipelines whose writer can be resumed at all, that is
  when the segment size is at most the resume threshold.
\<close>

section \<open>Only the head segment is partly read\<close>

definition tails_unread :: "data_segment list \<Rightarrow> bool" where
  "tails_unread segs \<longleftrightarrow> (\<forall>s \<in> set (tl segs). span_data (m_readable_span s) = 0)"

lemma tails_unread_Nil [simp]: "tails_unread []"
  by (simp add: tails_unread_def)

lemma tails_unread_Cons [simp]: "tails_unread (s # segs) \<longleftrightarrow> (\<forall>t \<in> set segs. span_data (m_readable_span t) = 0)"
  by (simp add: tails_unread_def)

lemma tails_unread_tl: "tails_unread segs \<Longrightarrow> tails_unread (tl segs)"
  by (cases segs; cases "tl segs") auto

text \<open>Appending a segment, or replacing the last one, keeps it so when the new one starts where it should.\<close>

lemma tails_unread_append:
  assumes "tails_unread segs" and "segs \<noteq> [] \<Longrightarrow> span_data (m_readable_span s) = 0"
  shows "tails_unread (segs @ [s])"
  using assms by (cases segs) auto

lemma tails_unread_replace:
  assumes "tails_unread segs" and "segs \<noteq> []"
    and "span_data (m_readable_span s) = span_data (m_readable_span (last segs))"
  shows "tails_unread (butlast segs @ [s])"
proof (cases "butlast segs")
  case Nil
  then show ?thesis by simp
next
  case (Cons t ts)
  obtain l where segs: "segs = (t # ts) @ [l]" using Cons assms(2) by (metis append_butlast_last_id)
  then show ?thesis using assms(1,3) by simp
qed

lemma consume_tails:
  assumes "consume_loop n p = Some p'" and "tails_unread (m_deque p)"
  shows "tails_unread (m_deque p')
    \<and> (m_deque p' \<noteq> [] \<longrightarrow> m_deque p \<noteq> [] \<and> writable_size (last (m_deque p')) = writable_size (last (m_deque p)))"
  using assms
proof (induction n p rule: consume_loop.induct)
  case (1 n p)
  show ?case
  proof (cases "n > 0")
    case False
    then show ?thesis using 1(2,3) by (subst (asm) consume_loop.simps) simp
  next
    case n: True
    then obtain s rest where d: "m_deque p = s # rest"
      using 1(2) by (subst (asm) consume_loop.simps) (auto split: list.splits)
    show ?thesis
    proof (cases "n < readable_size s")
      case True
      then obtain s' where "advance_read n s = Inr s'" "m_deque p' = s' # rest"
        using 1(2) n d by (subst (asm) consume_loop.simps) (auto split: sum.splits)
      moreover from this have "writable_size s' = writable_size s"
        by (auto simp: advance_read_def writable_size_def split: if_splits)
      ultimately show ?thesis using 1(3) d by (simp add: tails_unread_Cons)
    next
      case False
      then obtain a h where al: "mr_deallocate (m_buffer s) (m_capacity s) (m_allocator p, m_heap p) = Some (a, h)"
        using 1(2) n d by (subst (asm) consume_loop.simps) (auto split: option.splits)
      let ?q = "p\<lparr>m_deque := rest, m_allocator := a, m_heap := h,
                 m_buffered_size := m_buffered_size p - readable_size s,
                 m_actual_buffered_size := m_actual_buffered_size p - m_buffer_size p\<rparr>"
      have "consume_loop (n - readable_size s) ?q = Some p'"
        using 1(2) n d False al by (subst (asm) consume_loop.simps) simp
      moreover have "tails_unread (m_deque ?q)" using tails_unread_tl [OF 1(3)] d by simp
      ultimately show ?thesis using 1(1) [OF n d False al refl] d by (auto split: if_splits)
    qed
  qed
qed

lemma copy_tails:
  assumes "copy_into_tail data n p = Some (k, p')" and "tails_unread (m_deque p)"
  shows "tails_unread (m_deque p')"
proof -
  obtain p1 where p1: "get_segment p = Some p1"
    and cp: "m_deque p' = butlast (m_deque p1) @ [snd (copy_from data n (last (m_deque p1)))]"
    using assms(1) by (auto simp: copy_into_tail_def split: option.splits prod.splits)
  have ne: "m_deque p1 \<noteq> []" and un: "tails_unread (m_deque p1)"
    using p1 assms(2)
    by (auto simp: get_segment_def data_segment_make_def split: if_splits option.splits intro!: tails_unread_append)
  show ?thesis unfolding cp by (rule tails_unread_replace [OF un ne]) (simp add: copy_from_def Let_def)
qed

lemma write_tails:
  assumes "write_loop stop i data copied notify p = Some (st, p')" and "tails_unread (m_deque p)"
  shows "tails_unread (m_deque p')"
  using assms
proof (induction stop i data copied notify p rule: write_loop.induct)
  case (1 stop i data copied notify p)
  show ?case
  proof (cases "span_size data \<noteq> 0 \<and> \<not> m_writer_paused p \<and> \<not> is_any_completed p \<and> \<not> stop i
      \<and> writer_available_capacity p \<noteq> 0")
    case False
    then show ?thesis using 1(2,3) by (subst (asm) write_loop.simps) (auto simp: Let_def split: if_splits)
  next
    case True
    let ?req = "min (span_size data) (writer_available_capacity p)"
    obtain k p1 where cp: "copy_into_tail data ?req p = Some (k, p1)"
      using 1(2) True by (subst (asm) write_loop.simps) (auto simp: Let_def split: option.splits)
    define p2 where "p2 = p1\<lparr>m_buffered_size := m_buffered_size p1 + k\<rparr>"
    define p3 where "p3 = (if should_pause_writer p2 then p2\<lparr>m_writer_paused := True\<rparr> else p2)"
    have "write_loop stop (Suc i) (subspan_from data k) (copied + k) (notify \<or> m_reader_waiting p2) p3 = Some (st, p')"
      using 1(2) True cp by (subst (asm) write_loop.simps) (simp add: Let_def p2_def p3_def split: if_splits)
    moreover have "tails_unread (m_deque p3)" using copy_tails [OF cp 1(3)] by (simp add: p2_def p3_def)
    ultimately show ?thesis
      using 1(1) [of "writer_available_capacity p" ?req "(k, p1)" k p1 p2 p3] True cp by (auto simp: p2_def p3_def split: if_splits)
  qed
qed

section \<open>A paused pipeline is full\<close>

definition pause_ok :: "pipeline \<Rightarrow> bool" where
  "pause_ok p \<longleftrightarrow>
     m_buffer_size p \<le> m_resume_writer_threshold p \<and> tails_unread (m_deque p)
     \<and> (m_writer_paused p \<longrightarrow> should_pause_writer p)"

lemma pause_ok_frame:
  assumes "pause_ok p" and "m_deque q = m_deque p" and "m_buffer_size q = m_buffer_size p"
    and "m_resume_writer_threshold q = m_resume_writer_threshold p" and "m_pause_writer_threshold q = m_pause_writer_threshold p"
    and "m_writer_paused q \<longrightarrow> m_writer_paused p \<and> m_actual_buffered_size q = m_actual_buffered_size p"
  shows "pause_ok q"
  using assms by (auto simp: pause_ok_def should_pause_writer_def has_writable_tail_def segment_allocation_capacity_def)

lemma write_pause_ok:
  assumes ok: "pipe_ok p" and ps: "pause_ok p" and len: "unat copied + length data < 2 ^ 64"
    and w: "write_wait sw st data copied p = Some (W_done status q)"
  shows "pause_ok q"
proof -
  have loop: "write_loop st 0 data copied False p = Some (status, q)"
    using w by (auto simp: write_wait_def split: if_splits)
  show ?thesis
  proof (cases "is_any_completed p")
    case True
    then have "q = p" using loop write_loop_pipe_ok [OF ok len, of st 0 False] by (metis option.inject prod.inject)
    then show ?thesis using ps by simp
  next
    case False
    then have r: "resource_ok p" "counters_ok p" using ok by (auto simp: pipe_ok_def is_any_completed_def)
    then have q: "same_frame p q" "m_writer_paused q \<longrightarrow> m_writer_paused p \<and> q = p \<or> should_pause_writer q"
      using write_loop_ok [OF r len, of st 0 False] loop by auto
    have "tails_unread (m_deque q)" using write_tails [OF loop] ps by (simp add: pause_ok_def)
    with q ps show ?thesis by (auto simp: pause_ok_def same_frame_def)
  qed
qed

lemma advance_pause_ok:
  assumes ok: "pipe_ok p" and ps: "pause_ok p" and adv: "advance c e p = Some (Inr (nt, q))"
  shows "pause_ok q"
proof -
  have open_reader: "\<not> m_reader_completed p" using adv by (auto simp: advance_def Let_def split: if_splits)
  obtain p1 where p1: "consume_loop (sequence_offset c) p = Some p1"
      "m_deque q = m_deque p1" "m_actual_buffered_size q = m_actual_buffered_size p1" "m_buffer_size q = m_buffer_size p1"
      "m_resume_writer_threshold q = m_resume_writer_threshold p1" "m_pause_writer_threshold q = m_pause_writer_threshold p1"
      "m_writer_paused q \<longrightarrow> m_writer_paused p1 \<and> \<not> should_resume_writer q"
    using adv by (auto simp: advance_def Let_def should_resume_writer_def split: if_splits option.splits)
  have le: "unat (sequence_offset c) \<le> length (pipe_bytes p)"
  proof -
    have "sequence_offset c \<le> m_pending_read_size p"
      using adv by (auto simp: advance_def Let_def not_less split: if_splits)
    then show ?thesis using ok open_reader by (auto simp: pipe_ok_def reader_ok_def counters_ok_def size_le_iff)
  qed
  have r: "resource_ok p" "counters_ok p" using ok open_reader by (auto simp: pipe_ok_def)
  have f: "same_frame p p1" "m_writer_paused p1 = m_writer_paused p" "counters_ok p1" "resource_ok p1"
    using consume_loop_ok [OF r le] p1(1) by auto
  have t: "tails_unread (m_deque p1)" "m_deque p1 \<noteq> [] \<longrightarrow> m_deque p \<noteq> [] \<and> writable_size (last (m_deque p1)) = writable_size (last (m_deque p))"
    using consume_tails [OF p1(1)] ps by (auto simp: pause_ok_def)
  have "should_pause_writer q" if "m_writer_paused q"
  proof -
    have "should_pause_writer p" using that p1(7) f(2) ps by (simp add: pause_ok_def)
    then have tail: "\<not> has_writable_tail q"
      using t(2) p1(2) by (auto simp: should_pause_writer_def has_writable_tail_def seg_full_def writable_size_def)
    have bs: "m_buffer_size q \<le> m_resume_writer_threshold q" using ps f(1) p1(4,5) by (simp add: pause_ok_def same_frame_def)
    then have "\<not> m_actual_buffered_size q < m_pause_writer_threshold q"
      using that p1(7) by (simp add: should_resume_writer_def)
    moreover have "0 < m_buffer_size q" using f(4) p1(4) by (simp add: resource_ok_def)
    ultimately show ?thesis using tail by (simp add: should_pause_writer_def segment_allocation_capacity_def)
  qed
  then show ?thesis using ps f(1) t(1) p1(2,4,5) by (simp add: pause_ok_def same_frame_def)
qed

lemma unread_length:
  assumes "segs \<noteq> []" and "\<forall>s \<in> set segs. seg_ok s \<and> m_capacity s = bs \<and> seg_full s" and "tails_unread segs"
  shows "(length segs - 1) * unat bs \<le> length (concat (map readable_bytes segs))"
proof -
  have full: "length (readable_bytes s) = unat bs"
    if "seg_ok s" "m_capacity s = bs" "seg_full s" "span_data (m_readable_span s) = 0" for s
    using that length_readable_bytes [OF that(1)] by (auto simp: seg_ok_def seg_full_def readable_size_def)
  have "length (concat (map readable_bytes ts)) = length ts * unat bs"
    if "\<forall>s \<in> set ts. seg_ok s \<and> m_capacity s = bs \<and> seg_full s \<and> span_data (m_readable_span s) = 0" for ts
    using that full by (induction ts) auto
  from this [of "tl segs"] show ?thesis using assms by (cases segs) auto
qed

text \<open>The bytes in a pipeline whose writer is paused come within two segments of the pause threshold.\<close>

lemma paused_length:
  assumes ok: "pipe_ok p" and ps: "pause_ok p" and paused: "m_writer_paused p" and open_reader: "\<not> m_reader_completed p"
  shows "unat (m_pause_writer_threshold p) < length (pipe_bytes p) + 2 * unat (m_buffer_size p)"
proof -
  let ?n = "length (m_deque p)" and ?bs = "unat (m_buffer_size p)"
  have r: "resource_ok p" "counters_ok p" using ok open_reader by (auto simp: pipe_ok_def)
  have sp: "\<not> has_writable_tail p" "segment_allocation_capacity p < m_buffer_size p"
    using ps paused by (auto simp: pause_ok_def should_pause_writer_def)
  have "unat (m_pause_writer_threshold p) < unat (m_actual_buffered_size p) + ?bs"
  proof (cases "m_actual_buffered_size p < m_pause_writer_threshold p")
    case True
    then have "unat (m_pause_writer_threshold p - m_actual_buffered_size p) < ?bs"
      using sp(2) by (simp add: segment_allocation_capacity_def size_less_iff)
    then show ?thesis using True by (simp add: unat_sub_size size_less_iff)
  next
    case False
    then show ?thesis using r(1) by (auto simp: size_less_iff resource_ok_def)
  qed
  then have room: "unat (m_pause_writer_threshold p) < ?n * ?bs + ?bs" using r(2) by (simp add: counters_ok_def)
  show ?thesis
  proof (cases "m_deque p = []")
    case True
    with room show ?thesis by simp
  next
    case False
    have so: "segs_ok (m_buffer_size p) (m_deque p)" using r(1) by (simp add: resource_ok_def)
    have "\<forall>s \<in> set (m_deque p). seg_ok s \<and> m_capacity s = m_buffer_size p \<and> seg_full s"
    proof
      fix s
      assume s: "s \<in> set (m_deque p)"
      have "s = last (m_deque p) \<or> s \<in> set (butlast (m_deque p))"
        using s False by (metis append_butlast_last_id in_set_butlast_appendI set_ConsD Un_iff set_append empty_iff list.set(1))
      then show "seg_ok s \<and> m_capacity s = m_buffer_size p \<and> seg_full s"
        using so s sp(1) False by (auto simp: segs_ok_def has_writable_tail_def)
    qed
    from unread_length [OF False this] ps have "(?n - 1) * ?bs \<le> length (pipe_bytes p)"
      by (simp add: pause_ok_def pipe_bytes_def)
    moreover have "?n * ?bs = (?n - 1) * ?bs + ?bs" using False by (cases "m_deque p") auto
    ultimately show ?thesis using room by simp
  qed
qed

end
