(* ===== verification/Sample_Pipelines.thy ===== *)
theory Sample_Pipelines
  imports Pipeline_Pause
begin

text \<open>
  \<open>samples/pipeline.cpp\<close> and \<open>samples/stdin.cpp\<close>: a thread that writes messages into a pipeline and a
  thread that reads lines out of it.  Both programs have the same skeleton, a producer that writes its
  messages one by one and completes the writer, and a consumer that reads, takes the lines off the
  buffer, advances and stops at a completed result.  They differ in the messages, in what is done with
  a line and in the position up to which the buffer is consumed.  The mutex sections of the pipeline
  are the steps of a run; a wait may wake up at any time.
\<close>

section \<open>The producer\<close>

text \<open>Where the producer is: between two writes, in a turn of the write loop, in the wait for space,
  finished, or left by an exception.\<close>

datatype producer_pc =
    P_next "byte list list"
  | P_write "byte list" size_t "byte list list"
  | P_wait "byte list" size_t "byte list list"
  | P_completed
  | P_failed cpp_exception

fun after_turn :: "byte list \<Rightarrow> size_t \<Rightarrow> byte list list \<Rightarrow> pipeline \<Rightarrow> write_outcome \<Rightarrow> producer_pc \<times> byte list \<times> pipeline" where
  "after_turn data copied ms p W_blocks = (P_wait data copied ms, [], p)"
| "after_turn data copied ms p (W_done (W_throw e) q) = (P_failed e, [], q)"
| "after_turn data copied ms p (W_done (W_return c) q) = (P_next ms, take (accepted data copied (W_return c)) data, q)"
| "after_turn data copied ms p (W_done (W_unlock rest c notify) q) =
     (if span_size rest = 0 then P_next ms else P_write rest c ms,
      take (accepted data copied (W_unlock rest c notify)) data, q)"

text \<open>One step of the producer: its next place, the bytes the pipeline accepted and the pipeline.\<close>

fun producer_run :: "producer_pc \<Rightarrow> pipeline \<Rightarrow> (producer_pc \<times> byte list \<times> pipeline) option" where
  "producer_run (P_next []) p = Some (P_completed, [], complete_writer p)"
| "producer_run (P_next (m # ms)) p =
     (case pipeline_write m of
        Write_returns n \<Rightarrow> Some (P_next ms, [], p)
      | Write_starts data \<Rightarrow> Some (P_write data 0 ms, [], p))"
| "producer_run (P_write data copied ms) p =
     map_option (after_turn data copied ms p) (write_section False (\<lambda>_. False) data copied p)"
| "producer_run (P_wait data copied ms) p =
     map_option (after_turn data copied ms p) (write_wait False (\<lambda>_. False) data copied p)"
| "producer_run P_completed p = None"
| "producer_run (P_failed e) p = None"

section \<open>The consumer\<close>

datatype consumer_pc = C_reading | C_waiting | C_ended | C_failed cpp_exception

record 'a sample_run =
  sr_sys :: pipe_sys
  sr_producer :: producer_pc
  sr_consumer :: consumer_pc
  sr_data :: 'a

abbreviation sr_pipe :: "'a sample_run \<Rightarrow> pipeline" where
  "sr_pipe s \<equiv> ps_pipe (sr_sys s)"

type_synonym 'a line_body = "segmented_byte_view \<Rightarrow> 'a \<Rightarrow> ('a \<times> segmented_byte_view throws) option"

definition finish_consumer :: "'a sample_run \<Rightarrow> 'a sample_run" where
  "finish_consumer s = s\<lparr>sr_sys := (sr_sys s)\<lparr>ps_pipe := complete_reader (sr_pipe s)\<rparr>, sr_consumer := C_ended\<rparr>"

text \<open>The body of the read loop for a result: the lines, the advance up to \<open>mark\<close> of the rest of the
  buffer, and the test for completion.  An exception leaves the function.\<close>

definition consume_result ::
  "'a line_body \<Rightarrow> (segmented_byte_view \<Rightarrow> position) \<Rightarrow> read_result \<Rightarrow> 'a sample_run \<Rightarrow> 'a sample_run option"
where
  "consume_result body mark r s =
     (if \<not> read_result_bool r then Some (finish_consumer s)
      else
        (case body (rr_buffer r) (sr_data s) of
           None \<Rightarrow> None
         | Some (a, Inl e) \<Rightarrow> Some (s\<lparr>sr_data := a, sr_consumer := C_failed e\<rparr>)
         | Some (a, Inr rest) \<Rightarrow>
             (case advance (mark rest) (view_end rest) (sr_pipe s) of
                None \<Rightarrow> None
              | Some (Inl e) \<Rightarrow> Some (s\<lparr>sr_data := a, sr_consumer := C_failed e\<rparr>)
              | Some (Inr (notify, p)) \<Rightarrow>
                  (let released = take (unat (sequence_offset (mark rest))) (pipe_bytes (sr_pipe s));
                       s' = s\<lparr>sr_sys := \<lparr>ps_pipe = p, ps_in = ps_in (sr_sys s), ps_out = ps_out (sr_sys s) @ released\<rparr>,
                              sr_data := a, sr_consumer := C_reading\<rparr>
                   in Some (if rr_completed r then finish_consumer s' else s')))))"

definition consume_call ::
  "'a line_body \<Rightarrow> (segmented_byte_view \<Rightarrow> position) \<Rightarrow> read_result call \<Rightarrow> 'a sample_run \<Rightarrow> 'a sample_run option"
where
  "consume_call body mark call s =
     (case call of
        Throws e \<Rightarrow> Some (s\<lparr>sr_consumer := C_failed e\<rparr>)
      | Blocks p \<Rightarrow> Some (s\<lparr>sr_sys := (sr_sys s)\<lparr>ps_pipe := p\<rparr>, sr_consumer := C_waiting\<rparr>)
      | Returns r p \<Rightarrow> consume_result body mark r (s\<lparr>sr_sys := (sr_sys s)\<lparr>ps_pipe := p\<rparr>\<rparr>))"

section \<open>Runs\<close>

datatype sample_event = S_read | S_wake | S_produce producer_pc

inductive sample_step ::
  "'a line_body \<Rightarrow> (segmented_byte_view \<Rightarrow> position) \<Rightarrow> 'a sample_run \<Rightarrow> sample_event \<Rightarrow> 'a sample_run \<Rightarrow> bool"
  for body mark
where
  s_read: "sr_consumer s = C_reading \<Longrightarrow> consume_call body mark (reader_read False (sr_pipe s)) s = Some s' \<Longrightarrow>
     sample_step body mark s S_read s'"
| s_wake: "sr_consumer s = C_waiting \<Longrightarrow> consume_call body mark (read_wait 0 False (sr_pipe s)) s = Some s' \<Longrightarrow>
     sample_step body mark s S_wake s'"
| s_produce: "producer_run (sr_producer s) (sr_pipe s) = Some (pc, bytes, p) \<Longrightarrow>
     sample_step body mark s (S_produce pc)
       (s\<lparr>sr_sys := \<lparr>ps_pipe = p, ps_in = ps_in (sr_sys s) @ bytes, ps_out = ps_out (sr_sys s)\<rparr>, sr_producer := pc\<rparr>)"

inductive_cases sample_step_cases: "sample_step body mark s l s'"

definition sample_init :: "pipe_options \<Rightarrow> byte list list \<Rightarrow> 'a \<Rightarrow> 'a sample_run \<Rightarrow> bool" where
  "sample_init options messages a s \<longleftrightarrow>
     pipe_init False options (sr_sys s) \<and> sr_producer s = P_next messages \<and> sr_consumer s = C_reading \<and> sr_data s = a"

section \<open>\<open>pipeline.cpp\<close>\<close>

definition pipeline_options :: pipe_options where
  "pipeline_options =
     \<lparr>opt_buffer_size = 1024, opt_resume_writer_threshold = 1024 * 128, opt_pause_writer_threshold = 1024 * 256,
      opt_allocator = fixed_pool_resource_kind\<rparr>"

text \<open>The messages, for the values that \<open>std::rand\<close> returns.\<close>

definition random_message :: "nat \<Rightarrow> byte list" where
  "random_message r = replicate (r mod (1024 * 2) + 256) (byte_of_char (CHR ''x'')) @ [newline]"

definition pipeline_messages :: "nat list \<Rightarrow> byte list list" where
  "pipeline_messages rands = (bytes_of ''First message'' @ [newline]) # map random_message rands"

record line_counts =
  lineCount :: int
  byteCount :: size_t

partial_function (option) count_lines ::
  "segmented_byte_view \<Rightarrow> line_counts \<Rightarrow> (line_counts \<times> segmented_byte_view throws) option"
where
  "count_lines readOnlySequence a =
     (let newLinePos = position_of_char (CHR 0x0A) readOnlySequence in
      if pos_bool newLinePos then
        (let newLinePos' = pos_plus newLinePos 1 in
         case slice_end newLinePos' readOnlySequence of
           Inl e \<Rightarrow> Some (a, Inl e)
         | Inr lineBytes \<Rightarrow>
             (let a' = a\<lparr>lineCount := lineCount a + 1, byteCount := byteCount a + view_size lineBytes\<rparr> in
              case slice_in_place_pos newLinePos' (view_end readOnlySequence) readOnlySequence of
                Inl e \<Rightarrow> Some (a', Inl e)
              | Inr rest \<Rightarrow> count_lines rest a'))
      else Some (a, Inr readOnlySequence))"

abbreviation pipeline_step :: "line_counts sample_run \<Rightarrow> sample_event \<Rightarrow> line_counts sample_run \<Rightarrow> bool" where
  "pipeline_step \<equiv> sample_step count_lines view_begin"

abbreviation pipeline_init :: "byte list list \<Rightarrow> line_counts sample_run \<Rightarrow> bool" where
  "pipeline_init messages \<equiv> sample_init pipeline_options messages \<lparr>lineCount = 0, byteCount = 0\<rparr>"

section \<open>\<open>stdin.cpp\<close>\<close>

definition stdin_options :: pipe_options where
  "stdin_options = default_pipe_options\<lparr>opt_buffer_size := 64\<rparr>"

text \<open>The lines that \<open>std::getline\<close> gets from an input: a last line without newline counts when it is
  not empty.  The first empty line ends the program.\<close>

definition getline_all :: "byte list \<Rightarrow> byte list list" where
  "getline_all input =
     (case split_lines input of (ls, r) \<Rightarrow> if r = [] then ls else ls @ [r])"

definition stdin_messages :: "byte list \<Rightarrow> byte list list" where
  "stdin_messages input = map (\<lambda>line. line @ [newline]) (takeWhile (\<lambda>line. line \<noteq> []) (getline_all input))"

text \<open>What is echoed, one entry per line of output.\<close>

partial_function (option) echo_lines ::
  "segmented_byte_view \<Rightarrow> byte list list \<Rightarrow> (byte list list \<times> segmented_byte_view throws) option"
where
  "echo_lines buffer echoed =
     (let pos = position_of_char (CHR 0x0A) buffer in
      if pos_bool pos then
        (case slice_end pos buffer of
           Inl e \<Rightarrow> Some (echoed, Inl e)
         | Inr lineBytes \<Rightarrow>
             (let echoed' = echoed @ [to_string lineBytes] in
              case slice_in_place_pos (pos_plus pos 1) (view_end buffer) buffer of
                Inl e \<Rightarrow> Some (echoed', Inl e)
              | Inr rest \<Rightarrow> echo_lines rest echoed'))
      else Some (echoed, Inr buffer))"

abbreviation stdin_step :: "byte list list sample_run \<Rightarrow> sample_event \<Rightarrow> byte list list sample_run \<Rightarrow> bool" where
  "stdin_step \<equiv> sample_step echo_lines view_end"

abbreviation stdin_init :: "byte list \<Rightarrow> byte list list sample_run \<Rightarrow> bool" where
  "stdin_init input \<equiv> sample_init stdin_options (stdin_messages input) []"

section \<open>The loops take lines\<close>

definition count_line :: "byte list \<Rightarrow> line_counts \<Rightarrow> line_counts" where
  "count_line line a = a\<lparr>lineCount := lineCount a + 1, byteCount := byteCount a + of_nat (Suc (length line))\<rparr>"

definition echo_line :: "byte list \<Rightarrow> byte list list \<Rightarrow> byte list list" where
  "echo_line line echoed = echoed @ [line]"

interpretation counting: line_loop count_lines count_line
proof unfold_locales
  fix v a
  assume "view_ok v" "newline \<notin> set (view_bytes v)"
  then show "count_lines v a = Some (a, Inr v)" using no_line by (subst count_lines.simps) (simp add: Let_def)
next
  fix v rest line a
  assume ok: "view_ok v" "view_ok rest" and l: "newline \<notin> set line" "view_bytes v = line @ newline # view_bytes rest"
    and cut: "slice_in_place_pos (pos_plus (position_of_char (CHR 0x0A) v) 1) (view_end v) v = Inr rest"
  have "newline \<in> set (view_bytes v)" using l(2) by simp
  from next_line [OF ok(1) this] obtain pos w rest' where
    n: "position_of_char (CHR 0x0A) v = pos" "pos_bool pos"
      "pos = position_at (m_begin_offset v + of_nat (length (view_bytes w)))"
      "view_bytes v = view_bytes w @ newline # view_bytes rest'" "newline \<notin> set (view_bytes w)" by metis
  have w: "view_bytes w = line" using first_line_unique [OF l(2) n(4) l(1) n(5)] .
  have "pos_plus pos 1 = position_at (m_begin_offset v + of_nat (Suc (length line)))"
    by (simp add: n(3) w position_defs)
  moreover obtain lb where lb: "view_slice v \<lparr>range_begin = m_begin_offset v, range_end = m_begin_offset v + of_nat (Suc (length line))\<rparr> = Inr lb"
      "view_ok lb" "view_bytes lb = take (Suc (length line)) (view_bytes v)"
    using view_cut [OF ok(1), of 0 "Suc (length line)"] l(2) by auto
  moreover have "view_size lb = of_nat (Suc (length line))"
  proof -
    have "Suc (length line) = unat (m_size lb)" using lb(3) l(2) view_ok_length [OF lb(2)] by simp
    then show ?thesis by (simp del: of_nat_Suc add: view_size_def)
  qed
  ultimately show "count_lines v a = count_lines rest (count_line line a)"
    using n(1,2) cut by (subst count_lines.simps) (simp add: Let_def slice_pos_eq count_line_def del: of_nat_Suc)
qed

interpretation echoing: line_loop echo_lines echo_line
proof unfold_locales
  fix v a
  assume "view_ok v" "newline \<notin> set (view_bytes v)"
  then show "echo_lines v a = Some (a, Inr v)" using no_line by (subst echo_lines.simps) (simp add: Let_def)
next
  fix v rest line a
  assume ok: "view_ok v" "view_ok rest" and l: "newline \<notin> set line" "view_bytes v = line @ newline # view_bytes rest"
    and cut: "slice_in_place_pos (pos_plus (position_of_char (CHR 0x0A) v) 1) (view_end v) v = Inr rest"
  have "newline \<in> set (view_bytes v)" using l(2) by simp
  from next_line [OF ok(1) this] obtain pos w rest' where
    n: "position_of_char (CHR 0x0A) v = pos" "pos_bool pos" "slice_end pos v = Inr w" "view_ok w"
      "view_bytes v = view_bytes w @ newline # view_bytes rest'" "newline \<notin> set (view_bytes w)" by metis
  have "view_bytes w = line" using first_line_unique [OF l(2) n(5) l(1) n(6)] .
  then show "echo_lines v a = echo_lines rest (echo_line line a)"
    using n(1-4) cut by (subst echo_lines.simps) (simp add: Let_def echo_line_def to_string_flat)
qed

section \<open>What a run keeps\<close>

text \<open>The bytes the producer still has to write.\<close>

fun to_write :: "producer_pc \<Rightarrow> byte list" where
  "to_write (P_next ms) = concat ms"
| "to_write (P_write data copied ms) = data @ concat ms"
| "to_write (P_wait data copied ms) = data @ concat ms"
| "to_write P_completed = []"
| "to_write (P_failed e) = []"

abbreviation short_messages :: "byte list list \<Rightarrow> bool" where
  "short_messages ms \<equiv> \<forall>m \<in> set ms. length m < 2 ^ 64"

fun producer_ok :: "producer_pc \<Rightarrow> bool" where
  "producer_ok (P_next ms) \<longleftrightarrow> short_messages ms"
| "producer_ok (P_write data copied ms) \<longleftrightarrow> data \<noteq> [] \<and> unat copied + length data < 2 ^ 64 \<and> short_messages ms"
| "producer_ok (P_wait data copied ms) \<longleftrightarrow> data \<noteq> [] \<and> unat copied + length data < 2 ^ 64 \<and> short_messages ms"
| "producer_ok P_completed \<longleftrightarrow> True"
| "producer_ok (P_failed e) \<longleftrightarrow> False"

text \<open>The consumer is between two reads and has seen no newline that it left behind.\<close>

definition consumer_idle :: "pipeline \<Rightarrow> bool" where
  "consumer_idle p \<longleftrightarrow>
     \<not> m_reader_completed p \<and> \<not> m_has_pending_read p \<and> newline \<notin> set (take (unat (m_examined_size p)) (pipe_bytes p))"

definition has_options :: "pipe_options \<Rightarrow> pipeline \<Rightarrow> bool" where
  "has_options options p \<longleftrightarrow>
     m_buffer_size p = opt_buffer_size options \<and> m_pause_writer_threshold p = opt_pause_writer_threshold options"

lemma has_options_complete: "has_options options (complete_writer p) = has_options options p"
  by (simp add: has_options_def complete_writer_def)

lemma same_config_complete: "same_config p (complete_reader q) = same_config p q"
  by (simp add: same_config_def complete_reader_def)

definition sample_inv :: "pipe_options \<Rightarrow> byte list \<Rightarrow> 'a sample_run \<Rightarrow> bool" where
  "sample_inv options written s \<longleftrightarrow>
     stream_inv (sr_sys s) \<and> pause_ok (sr_pipe s) \<and> has_options options (sr_pipe s)
     \<and> ps_in (sr_sys s) @ to_write (sr_producer s) = written \<and> producer_ok (sr_producer s)
     \<and> (m_writer_completed (sr_pipe s) \<longleftrightarrow> sr_producer s = P_completed)
     \<and> (case sr_consumer s of
          C_failed e \<Rightarrow> False
        | C_ended \<Rightarrow> sr_producer s = P_completed \<and> newline \<notin> set (pipe_bytes (sr_pipe s))
        | _ \<Rightarrow> consumer_idle (sr_pipe s))"

lemma sample_inv_idle: "sample_inv opts w s \<Longrightarrow> sr_consumer s \<in> {C_reading, C_waiting} \<Longrightarrow> consumer_idle (sr_pipe s)"
  by (auto simp: sample_inv_def)

lemma idle_consumer: "sample_inv opts w s \<Longrightarrow> sr_producer s \<noteq> P_completed \<Longrightarrow> sr_consumer s \<in> {C_reading, C_waiting}"
  by (cases "sr_consumer s") (auto simp: sample_inv_def)

section \<open>The producer keeps it\<close>

lemma producer_turn:
  assumes ok: "pipe_ok p" and open_pipe: "\<not> is_any_completed p" and data: "data \<noteq> []" "unat copied + length data < 2 ^ 64"
    and pc: "pc = P_write data copied ms \<or> pc = P_wait data copied ms"
  shows "if m_writer_paused p then producer_run pc p = Some (P_wait data copied ms, [], p)
     else \<exists>p' n. n = min (length data) (free_room p)
       \<and> producer_run pc p = Some (if n = length data then P_next ms else P_write (drop n data) (copied + of_nat n) ms, take n data, p')
       \<and> pipe_bytes p' = pipe_bytes p @ take n data \<and> pipe_ok p' \<and> same_frame p p' \<and> (pause_ok p \<longrightarrow> pause_ok p')
       \<and> (n = length data \<or> m_writer_paused p')"
proof (cases "m_writer_paused p")
  case True
  then show ?thesis using open_pipe pc by (auto simp: write_section_def write_wait_def space_available_def)
next
  case False
  obtain p' n where n: "n = min (length data) (free_room p)" and w: "write_section False (\<lambda>_. False) data copied p =
        Some (W_done (W_unlock (drop n data) (copied + of_nat n) (0 < n \<and> m_reader_waiting p)) p')"
      and p': "pipe_bytes p' = pipe_bytes p @ take n data" "pipe_ok p'" "same_frame p p'" "n = length data \<or> m_writer_paused p'"
    using write_turn_ok [OF ok open_pipe False data(2)] by blast
  have same: "write_wait False (\<lambda>_. False) data copied p = write_section False (\<lambda>_. False) data copied p"
    using open_pipe by (simp add: write_section_def)
  have "unat (of_nat n :: size_t) = n" using n data(2) by (simp add: unat_of_nat_size)
  then have acc: "unat (copied + of_nat n) - unat copied = n" using n data(2) by (simp add: unat_add_size)
  have "span_size (drop n data) = 0 \<longleftrightarrow> n = length data"
    using n data(2) by (subst span_size_eq_0_iff) auto
  then have "producer_run pc p = Some (if n = length data then P_next ms else P_write (drop n data) (copied + of_nat n) ms, take n data, p')"
    using pc w acc by (auto simp: same)
  moreover have "pause_ok p'" if "pause_ok p"
    using write_pause_ok [OF ok that data(2)] w by (simp flip: same)
  ultimately show ?thesis using False n p' by auto
qed

lemma consumer_idle_grows:
  assumes "consumer_idle p" and "pipe_ok p" and "same_frame p p'" and "pipe_bytes p' = pipe_bytes p @ xs"
  shows "consumer_idle p'"
proof -
  have "unat (m_examined_size p) \<le> length (pipe_bytes p)"
    using assms(1,2) by (auto simp: consumer_idle_def pipe_ok_def reader_ok_def counters_ok_def)
  then show ?thesis using assms(1,3,4) by (simp add: consumer_idle_def same_frame_def)
qed

text \<open>A step of the producer is possible until it has completed the writer; it keeps the invariant, and
  what it adds goes to the end of the buffer.\<close>

lemma producer_step:
  assumes inv: "sample_inv opts w s" and run: "producer_run (sr_producer s) (sr_pipe s) = Some (pc, bytes, p)"
  defines "s' \<equiv> s\<lparr>sr_sys := \<lparr>ps_pipe = p, ps_in = ps_in (sr_sys s) @ bytes, ps_out = ps_out (sr_sys s)\<rparr>, sr_producer := pc\<rparr>"
  shows "sample_inv opts w s' \<and> pipe_bytes p = pipe_bytes (sr_pipe s) @ bytes"
proof -
  have pok: "pipe_ok (sr_pipe s)" "pause_ok (sr_pipe s)" "producer_ok (sr_producer s)"
    using inv by (auto simp: sample_inv_def stream_inv_def)
  have idle: "consumer_idle (sr_pipe s)" and pc: "sr_consumer s \<in> {C_reading, C_waiting}"
    and wc: "\<not> m_writer_completed (sr_pipe s)"
    using inv idle_consumer [OF inv] sample_inv_idle [OF inv] run by (auto simp: sample_inv_def)
  have frame: ?thesis
    if "same_frame (sr_pipe s) p" "pipe_bytes p = pipe_bytes (sr_pipe s) @ bytes" "pipe_ok p" "pause_ok p"
      "producer_ok pc" "pc \<noteq> P_completed" "to_write (sr_producer s) = bytes @ to_write pc"
    using that inv wc pc consumer_idle_grows [OF idle pok(1) that(1,2)]
    by (auto simp: sample_inv_def s'_def stream_inv_def same_frame_def has_options_def)
  show ?thesis
  proof (cases "sr_producer s")
    case (P_next ms)
    show ?thesis
    proof (cases ms)
      case Nil
      have "pipe_bytes (complete_writer (sr_pipe s)) = pipe_bytes (sr_pipe s)" by (simp add: complete_writer_def pipe_bytes_def)
      moreover have "pause_ok (complete_writer (sr_pipe s))" using pok(2) by (rule pause_ok_frame) (simp_all add: complete_writer_def)
      moreover have "consumer_idle (complete_writer (sr_pipe s))"
        using idle by (simp add: consumer_idle_def complete_writer_def pipe_bytes_def)
      moreover have "m_writer_completed (complete_writer (sr_pipe s))" by (simp add: complete_writer_def)
      ultimately show ?thesis
        using inv pc run P_next Nil by (auto simp: sample_inv_def s'_def stream_inv_def complete_writer_ok has_options_complete)
    next
      case (Cons m ms')
      have "span_size m = 0 \<longleftrightarrow> m = []" using pok(3) P_next Cons by (simp add: span_size_eq_0_iff)
      then show ?thesis
        using run P_next Cons pok by (intro frame) (auto simp: pipeline_write_def split: if_splits)
    qed
  next
    case (P_write data copied ms)
    show ?thesis
      using producer_turn [OF pok(1), of data copied "sr_producer s" ms] run P_write pok idle wc
      by (intro frame) (auto simp: is_any_completed_def consumer_idle_def unat_add_size unat_of_nat_size split: if_splits)
  next
    case (P_wait data copied ms)
    show ?thesis
      using producer_turn [OF pok(1), of data copied "sr_producer s" ms] run P_wait pok idle wc
      by (intro frame) (auto simp: is_any_completed_def consumer_idle_def unat_add_size unat_of_nat_size split: if_splits)
  qed (use run in auto)
qed

section \<open>The consumer keeps it\<close>

text \<open>What handling a read result does: every complete line is handled, and either the unfinished line
  stays buffered (\<open>keep\<close>) or everything is released.\<close>

definition after_read :: "bool \<Rightarrow> (byte list \<Rightarrow> 'a \<Rightarrow> 'a) \<Rightarrow> 'a sample_run \<Rightarrow> 'a sample_run \<Rightarrow> bool" where
  "after_read keep line_effect s s' \<longleftrightarrow>
     sr_data s' = fold line_effect (fst (split_lines (pipe_bytes (sr_pipe s)))) (sr_data s)
     \<and> pipe_bytes (sr_pipe s') = (if keep then snd (split_lines (pipe_bytes (sr_pipe s))) else [])
     \<and> (\<exists>pre. ps_out (sr_sys s') = ps_out (sr_sys s) @ pre \<and> pipe_bytes (sr_pipe s) = pre @ pipe_bytes (sr_pipe s')
          \<and> (keep \<longrightarrow> split_lines pre = (fst (split_lines (pipe_bytes (sr_pipe s))), [])))
     \<and> sr_consumer s' = (if m_writer_completed (sr_pipe s) then C_ended else C_reading)
     \<and> (\<not> m_writer_completed (sr_pipe s) \<longrightarrow> \<not> data_available 0 (sr_pipe s'))"

locale line_sample = line_loop +
  fixes mark :: "segmented_byte_view \<Rightarrow> position" and keep :: bool
  assumes mark: "mark = (if keep then view_begin else view_end)"
begin

lemma consume_result_ok:
  assumes ok: "pipe_ok (sr_pipe s)" "pause_ok (sr_pipe s)"
    and pend: "m_has_pending_read (sr_pipe s)" "\<not> m_reader_completed (sr_pipe s)"
    and v: "view_ok v" "m_begin_offset v = 0" "view_bytes v = pipe_bytes (sr_pipe s)" "m_pending_read_size (sr_pipe s) = m_size v"
    and w: "w = m_writer_completed (sr_pipe s)"
  shows "\<exists>s'. consume_result run mark \<lparr>rr_buffer = v, rr_completed = w, rr_cancelled = False\<rparr> s = Some s'
    \<and> after_read keep line_effect s s' \<and> pipe_ok (sr_pipe s') \<and> pause_ok (sr_pipe s')
    \<and> sr_producer s' = sr_producer s \<and> ps_in (sr_sys s') = ps_in (sr_sys s)
    \<and> m_writer_completed (sr_pipe s') = w \<and> (\<not> w \<longrightarrow> consumer_idle (sr_pipe s'))
    \<and> same_config (sr_pipe s) (sr_pipe s')"
proof -
  let ?b = "pipe_bytes (sr_pipe s)"
  obtain rest pre where r: "run v (sr_data s) = Some (fold line_effect (fst (split_lines (view_bytes v))) (sr_data s), Inr rest)"
      "view_ok rest" "view_bytes v = pre @ view_bytes rest" "m_begin_offset rest = m_begin_offset v + of_nat (length pre)"
      "split_lines pre = (fst (split_lines (view_bytes v)), [])" "view_bytes rest = snd (split_lines (view_bytes v))"
    using run_lines [OF v(1), of "sr_data s"] by blast
  note l = r [unfolded v(3)]
  define out where "out = (if keep then pre else ?b)"
  define left where "left = (if keep then view_bytes rest else [])"
  have off: "unat (sequence_offset (view_begin rest)) = length pre" "sequence_offset (view_end rest) = m_size v"
    using rest_offsets [OF v(1,2) r(2,3)] r(4) v(2) by simp_all
  have "unat (m_pending_read_size (sr_pipe s)) = length ?b" using v(3,4) view_ok_length [OF v(1)] by simp
  moreover have "?b = out @ left" using l(3) by (simp add: out_def left_def)
  moreover have "unat (sequence_offset (mark rest)) = length out"
    using off v(3) view_ok_length [OF v(1)] by (simp add: mark out_def)
  ultimately obtain p where
    p: "advance (mark rest) (view_end rest) (sr_pipe s) = Some (Inr (m_writer_paused (sr_pipe s) \<and> \<not> m_writer_paused p, p))"
      "pipe_ok p" "pipe_bytes p = left" "unat (m_examined_size p) = length left" "\<not> m_has_pending_read p" "\<not> m_reader_completed p"
      "m_writer_completed p = w" "take (unat (sequence_offset (mark rest))) ?b = out" "same_config (sr_pipe s) p"
    using advance_upto [OF ok(1) pend, of out left "mark rest" "view_end rest"] off(2) v(4) w by metis
  have pause: "pause_ok p" by (rule advance_pause_ok [OF ok p(1)])
  have nl: "newline \<notin> set left" using l(6) split_lines_rest [of ?b] by (simp add: left_def)
  then have idle: "consumer_idle p" using p(3,5,6) by (auto simp: consumer_idle_def dest: in_set_takeD)
  have "counters_ok p" using p(2,6) by (simp add: pipe_ok_def)
  then have nd: "\<not> data_available 0 p" if "\<not> w"
    using that p(3,4,7) by (simp add: data_available_def size_less_iff counters_ok_def)
  define s1 where "s1 = s\<lparr>sr_sys := \<lparr>ps_pipe = p, ps_in = ps_in (sr_sys s), ps_out = ps_out (sr_sys s) @ out\<rparr>,
      sr_data := fold line_effect (fst (split_lines ?b)) (sr_data s), sr_consumer := C_reading\<rparr>"
  define s' where "s' = (if w then finish_consumer s1 else s1)"
  have run: "consume_result run mark \<lparr>rr_buffer = v, rr_completed = w, rr_cancelled = False\<rparr> s = Some s'"
    using l(1) p(1,8) by (simp add: consume_result_def read_result_bool_def Let_def s1_def s'_def)
  have "pipe_bytes (complete_reader p) = left" using p(3) by (simp add: complete_reader_def pipe_bytes_def)
  then have s': "sr_data s' = fold line_effect (fst (split_lines ?b)) (sr_data s)" "pipe_bytes (sr_pipe s') = left"
      "ps_out (sr_sys s') = ps_out (sr_sys s) @ out" "sr_consumer s' = (if w then C_ended else C_reading)"
      "\<not> w \<Longrightarrow> sr_pipe s' = p" "w \<Longrightarrow> sr_pipe s' = complete_reader p"
      "sr_producer s' = sr_producer s" "ps_in (sr_sys s') = ps_in (sr_sys s)"
    using p(3) by (simp_all add: s'_def s1_def finish_consumer_def)
  have "left = (if keep then snd (split_lines ?b) else [])" by (simp only: left_def l(6))
  moreover have "?b = out @ left" "keep \<longrightarrow> split_lines out = (fst (split_lines ?b), [])"
    using l(3,5) by (simp_all add: out_def left_def)
  ultimately have a: "after_read keep line_effect s s'"
    unfolding after_read_def s'(1-4) w [symmetric] using nd s'(5) by metis
  have "pause_ok (complete_reader p)" using pause by (rule pause_ok_frame) (simp_all add: complete_reader_def)
  moreover have "m_writer_completed (complete_reader p) = w" using p(7) by (simp add: complete_reader_def)
  ultimately have "pipe_ok (sr_pipe s') \<and> pause_ok (sr_pipe s') \<and> m_writer_completed (sr_pipe s') = w
      \<and> (\<not> w \<longrightarrow> consumer_idle (sr_pipe s')) \<and> same_config (sr_pipe s) (sr_pipe s')"
    using s'(5,6) p(2,7,9) pause idle by (cases w) (simp_all add: complete_reader_ok same_config_complete)
  then show ?thesis using run a s'(7,8) by blast
qed

text \<open>A read or a wake-up of the consumer always goes on: it waits, or it handles what is there.\<close>

lemma consume_call_ok:
  assumes inv: "sample_inv opts written s" and pc: "sr_consumer s \<in> {C_reading, C_waiting}"
    and call: "call = reader_read False (sr_pipe s) \<or> call = read_wait 0 False (sr_pipe s)"
  shows "\<exists>s'. consume_call run mark call s = Some s' \<and> sample_inv opts written s' \<and> sr_producer s' = sr_producer s
    \<and> (if data_available 0 (sr_pipe s) then after_read keep line_effect s s'
       else sr_consumer s' = C_waiting \<and> sr_data s' = sr_data s \<and> ps_out (sr_sys s') = ps_out (sr_sys s)
         \<and> pipe_bytes (sr_pipe s') = pipe_bytes (sr_pipe s))"
proof -
  let ?p = "sr_pipe s"
  have ok: "pipe_ok ?p" "pause_ok ?p" and idle: "\<not> m_has_pending_read ?p" "\<not> m_reader_completed ?p"
    using inv sample_inv_idle [OF inv pc] by (auto simp: sample_inv_def stream_inv_def consumer_idle_def)
  show ?thesis
  proof (cases "data_available 0 ?p")
    case False
    then obtain r where c: "call = Blocks (?p\<lparr>m_reader_waiting := r\<rparr>)" using read_call_cases [OF ok(1) idle call] by blast
    have "pause_ok (?p\<lparr>m_reader_waiting := r\<rparr>)" using ok(2) by (rule pause_ok_frame) simp_all
    then show ?thesis
      using False inv sample_inv_idle [OF inv pc]
      by (auto simp: c consume_call_def sample_inv_def stream_inv_def consumer_idle_def has_options_def)
  next
    case True
    then obtain v p' where c: "call = Returns \<lparr>rr_buffer = v, rr_completed = m_writer_completed ?p, rr_cancelled = False\<rparr> p'"
      and v: "view_ok v" "m_begin_offset v = 0" "view_bytes v = pipe_bytes ?p"
      and p': "pipe_ok p'" "pipe_bytes p' = pipe_bytes ?p" "m_has_pending_read p'" "m_pending_read_size p' = m_size v"
        "\<not> m_reader_completed p'" "m_writer_paused p' = m_writer_paused ?p" "same_config ?p p'"
        "m_writer_completed p' = m_writer_completed ?p" "m_actual_buffered_size p' = m_actual_buffered_size ?p" "m_deque p' = m_deque ?p"
      using read_call_cases [OF ok(1) idle call] by blast
    let ?s = "s\<lparr>sr_sys := (sr_sys s)\<lparr>ps_pipe := p'\<rparr>\<rparr>"
    have "pause_ok p'" using ok(2) p' by (intro pause_ok_frame [OF ok(2)]) (auto simp: same_config_def)
    with consume_result_ok [of ?s v "m_writer_completed ?p"] p' v obtain s' where
      s': "consume_result run mark \<lparr>rr_buffer = v, rr_completed = m_writer_completed ?p, rr_cancelled = False\<rparr> ?s = Some s'"
        "after_read keep line_effect ?s s'" "pipe_ok (sr_pipe s')" "pause_ok (sr_pipe s')" "sr_producer s' = sr_producer s"
        "ps_in (sr_sys s') = ps_in (sr_sys s)" "m_writer_completed (sr_pipe s') = m_writer_completed ?p"
        "\<not> m_writer_completed ?p \<longrightarrow> consumer_idle (sr_pipe s')" "same_config p' (sr_pipe s')" by auto
    have same: "sr_data ?s = sr_data s" "pipe_bytes (sr_pipe ?s) = pipe_bytes ?p" "ps_out (sr_sys ?s) = ps_out (sr_sys s)"
        "m_writer_completed (sr_pipe ?s) = m_writer_completed ?p"
      using p'(2,8) by simp_all
    have a: "after_read keep line_effect s s'" using s'(2) unfolding after_read_def same .
    then obtain pre where "ps_out (sr_sys s') = ps_out (sr_sys s) @ pre" "pipe_bytes ?p = pre @ pipe_bytes (sr_pipe s')"
      unfolding after_read_def by blast
    then have "ps_out (sr_sys s') @ pipe_bytes (sr_pipe s') = ps_out (sr_sys s) @ pipe_bytes ?p" by (simp only: append_assoc)
    moreover have "newline \<notin> set (pipe_bytes (sr_pipe s'))"
      using a split_lines_rest [of "pipe_bytes ?p"] unfolding after_read_def by (metis empty_iff list.set(1))
    moreover have "sr_consumer s' = (if m_writer_completed ?p then C_ended else C_reading)" using a unfolding after_read_def by blast
    ultimately have "sample_inv opts written s'"
      using inv s'(3-9) p'(7) by (auto simp: sample_inv_def stream_inv_def has_options_def same_config_def)
    then show ?thesis using True s'(1,5) a by (simp add: c consume_call_def)
  qed
qed

lemma sample_step_inv:
  assumes inv: "sample_inv opts written s" and step: "sample_step run mark s l s'"
  shows "sample_inv opts written s'"
  using step
proof (cases rule: sample_step.cases)
  case s_read
  then show ?thesis using consume_call_ok [OF inv, of "reader_read False (sr_pipe s)"] by auto
next
  case s_wake
  then show ?thesis using consume_call_ok [OF inv, of "read_wait 0 False (sr_pipe s)"] by auto
next
  case (s_produce pc bytes p)
  then show ?thesis using producer_step [OF inv s_produce(3)] by simp
qed

end

interpretation counting: line_sample count_lines count_line view_begin True
  by unfold_locales simp

interpretation echoing: line_sample echo_lines echo_line view_end False
  by unfold_locales simp

end
