(* ===== verification/Sample_Properties.thy ===== *)
theory Sample_Properties
  imports Sample_Pipelines
begin

text \<open>
  What the two sample programs compute.  \<open>pipeline.cpp\<close> counts every line and every byte, never stops
  half way and ends with the right totals.  \<open>stdin.cpp\<close> echoes every line that went into the pipeline
  in one piece, and loses the beginning of one that did not.
\<close>

section \<open>The start\<close>

lemma pipeline_make_resume:
  assumes "pipeline_make experimental options h = Some (Inr p)"
  shows "m_resume_writer_threshold p = opt_resume_writer_threshold options"
  using assms
  by (auto simp: pipeline_make_def pipeline_construct_def validate_options_def Let_def
      split: sum.splits option.splits prod.splits if_splits)

lemma sample_init_inv:
  assumes init: "sample_init options messages a s" and opts: "opt_buffer_size options \<le> opt_resume_writer_threshold options"
    and short: "short_messages messages"
  shows "sample_inv options (concat messages) s \<and> ps_in (sr_sys s) = [] \<and> ps_out (sr_sys s) = [] \<and> sr_data s = a
    \<and> pipe_bytes (sr_pipe s) = []"
proof -
  obtain h where h: "options_ok False options" "heap_ok h" "pipeline_make False options h = Some (Inr (sr_pipe s))"
      "ps_in (sr_sys s) = []" "ps_out (sr_sys s) = []"
    using init by (auto simp: sample_init_def pipe_init_def)
  obtain p where p: "pipeline_make False options h = Some (Inr p)" "pipe_ok p" "pipe_bytes p = []" "\<not> is_any_completed p"
      "\<not> m_writer_paused p" "\<not> m_has_pending_read p" "m_pause_writer_threshold p = opt_pause_writer_threshold options"
      "m_buffer_size p = opt_buffer_size options" "m_deque p = []"
    using pipeline_make_ok [OF h(2,1)] by metis
  have eq: "sr_pipe s = p" using h(3) p(1) by simp
  have "pause_ok p" using p opts pipeline_make_resume [OF p(1)] by (simp add: pause_ok_def)
  then show ?thesis
    using init h(4,5) p short
    by (auto simp: sample_inv_def sample_init_def stream_inv_def eq has_options_def consumer_idle_def is_any_completed_def)
qed

section \<open>The lines so far\<close>

definition lines_inv :: "(byte list \<Rightarrow> 'a \<Rightarrow> 'a) \<Rightarrow> 'a \<Rightarrow> 'a sample_run \<Rightarrow> bool" where
  "lines_inv line_effect a s \<longleftrightarrow>
     snd (split_lines (ps_out (sr_sys s))) = []
     \<and> sr_data s = fold line_effect (fst (split_lines (ps_out (sr_sys s)))) a"

lemma after_read_lines:
  assumes a: "after_read keep line_effect s s'" and inv: "lines_inv line_effect b s"
    and whole: "keep \<or> snd (split_lines (pipe_bytes (sr_pipe s))) = []"
  shows "lines_inv line_effect b s'"
proof -
  let ?b = "pipe_bytes (sr_pipe s)"
  obtain pre where pre: "ps_out (sr_sys s') = ps_out (sr_sys s) @ pre" "?b = pre @ pipe_bytes (sr_pipe s')"
      "keep \<longrightarrow> split_lines pre = (fst (split_lines ?b), [])"
    using a unfolding after_read_def by blast
  have sp: "split_lines pre = (fst (split_lines ?b), [])"
  proof (cases keep)
    case False
    then have "pre = ?b" using a pre(2) by (simp add: after_read_def)
    then show ?thesis using whole False by (metis prod.collapse)
  qed (use pre(3) in simp)
  have "snd (split_lines (ps_out (sr_sys s))) = []" using inv by (simp add: lines_inv_def)
  from split_lines_append [OF this, of pre] a inv sp show ?thesis
    by (simp add: lines_inv_def pre(1) after_read_def)
qed

context line_sample
begin

lemma step_lines:
  assumes inv: "sample_inv opts w s" and lines: "lines_inv line_effect b s" and step: "sample_step run mark s l s'"
    and whole: "keep \<or> snd (split_lines (pipe_bytes (sr_pipe s))) = []"
  shows "lines_inv line_effect b s'"
proof -
  have same: "lines_inv line_effect b s'" if "sr_data s' = sr_data s" "ps_out (sr_sys s') = ps_out (sr_sys s)"
    using lines that by (simp add: lines_inv_def)
  have read: "lines_inv line_effect b s'"
    if "sr_consumer s \<in> {C_reading, C_waiting}" "call = reader_read False (sr_pipe s) \<or> call = read_wait 0 False (sr_pipe s)"
      "consume_call run mark call s = Some s'" for call
    using consume_call_ok [OF inv that(1,2)] that(3) same after_read_lines [OF _ lines whole] by (auto split: if_splits)
  from step show ?thesis
  proof (cases rule: sample_step.cases)
    case s_read
    then show ?thesis using read [of "reader_read False (sr_pipe s)"] by simp
  next
    case s_wake
    then show ?thesis using read [of "read_wait 0 False (sr_pipe s)"] by simp
  next
    case (s_produce pc bytes p)
    then show ?thesis using same by simp
  qed
qed

end

lemma fold_count_line:
  "fold count_line ls a =
     a\<lparr>lineCount := lineCount a + int (length ls), byteCount := byteCount a + of_nat (length (concat (map (\<lambda>l. l @ [newline]) ls)))\<rparr>"
  by (induction ls arbitrary: a) (simp_all add: count_line_def)

lemma fold_echo_line: "fold echo_line ls a = a @ ls"
  by (induction ls arbitrary: a) (simp_all add: echo_line_def)

section \<open>A waiting consumer holds less than a line\<close>

lemma newline_free_part:
  assumes "xs @ t @ ys = concat ms" and "newline \<notin> set t" and "\<forall>m \<in> set ms. m \<noteq> [] \<and> last m = newline \<and> length m \<le> n"
  shows "length t \<le> n"
  using assms
proof (induction ms arbitrary: xs)
  case (Cons m ms)
  show ?case
  proof (cases "length m \<le> length xs")
    case True
    then have "drop (length m) (xs @ t @ ys) = drop (length m) xs @ t @ ys" by simp
    then have "drop (length m) xs @ t @ ys = concat ms" using Cons.prems(1) by simp
    then show ?thesis using Cons.IH Cons.prems(2,3) by auto
  next
    case False
    have "length xs + length t < length m"
    proof (rule ccontr)
      assume "\<not> length xs + length t < length m"
      moreover have m: "m \<noteq> []" "m ! (length m - 1) = newline" using Cons.prems(3) last_conv_nth [of m] by auto
      then have "(xs @ t @ ys) ! (length m - 1) = newline" by (subst Cons.prems(1)) (simp add: nth_append)
      moreover obtain k where "length m = Suc k" using m(1) by (cases m) auto
      ultimately have "t ! (length m - 1 - length xs) = newline" "length m - 1 - length xs < length t"
        using False by (simp_all add: nth_append split: if_splits)
      then show False using Cons.prems(2) by (metis nth_mem)
    qed
    then show ?thesis using Cons.prems(3) by auto
  qed
qed auto

context line_sample
begin

text \<open>The consumer can do something new unless it waits and everything was examined.\<close>

lemma consumer_progress:
  assumes inv: "sample_inv opts w s" and pc: "sr_consumer s \<in> {C_reading, C_waiting}"
    and can: "sr_consumer s = C_reading \<or> data_available 0 (sr_pipe s)"
  shows "\<exists>l s'. sample_step run mark s l s' \<and> s' \<noteq> s"
proof -
  define call where "call = (if sr_consumer s = C_reading then reader_read False (sr_pipe s) else read_wait 0 False (sr_pipe s))"
  have "call = reader_read False (sr_pipe s) \<or> call = read_wait 0 False (sr_pipe s)" by (simp add: call_def)
  from consume_call_ok [OF inv pc this] obtain s' where c: "consume_call run mark call s = Some s'"
    and r: "if data_available 0 (sr_pipe s) then after_read keep line_effect s s' else sr_consumer s' = C_waiting" by metis
  have "s' \<noteq> s"
  proof (cases "data_available 0 (sr_pipe s)")
    case True
    then have "sr_consumer s' = C_ended \<or> \<not> data_available 0 (sr_pipe s')"
      using r unfolding after_read_def by (metis (full_types))
    then show ?thesis using True pc by auto
  qed (use r can in auto)
  moreover have "\<exists>l. sample_step run mark s l s'"
    using c pc by (auto simp: call_def intro: s_read s_wake split: if_splits)
  ultimately show ?thesis by blast
qed

lemma producer_progress:
  assumes inv: "sample_inv opts w s" and pc: "sr_producer s \<noteq> P_completed" and space: "\<not> m_writer_paused (sr_pipe s)"
  shows "\<exists>l s'. sample_step run mark s l s' \<and> s' \<noteq> s"
proof -
  let ?p = "sr_pipe s"
  have ok: "pipe_ok ?p" "producer_ok (sr_producer s)" "\<not> is_any_completed ?p"
    using inv sample_inv_idle [OF inv idle_consumer [OF inv pc]] pc
    by (auto simp: sample_inv_def stream_inv_def is_any_completed_def consumer_idle_def)
  have step: ?thesis if "producer_run (sr_producer s) ?p = Some (pc', bytes, p')" "pc' \<noteq> sr_producer s \<or> p' \<noteq> ?p" for pc' bytes p'
  proof -
    let ?s = "s\<lparr>sr_sys := \<lparr>ps_pipe = p', ps_in = ps_in (sr_sys s) @ bytes, ps_out = ps_out (sr_sys s)\<rparr>, sr_producer := pc'\<rparr>"
    have "sr_producer ?s \<noteq> sr_producer s \<or> sr_pipe ?s \<noteq> ?p" using that(2) by simp
    then show ?thesis using s_produce [of s pc' bytes p' run mark, OF that(1)] by (metis (no_types))
  qed
  show ?thesis
  proof (cases "sr_producer s")
    case (P_next ms)
    have "\<exists>pc' p'. producer_run (sr_producer s) ?p = Some (pc', [], p') \<and> pc' \<noteq> sr_producer s"
      unfolding P_next by (cases ms) (simp_all add: pipeline_write_def)
    then show ?thesis using step by blast
  next
    case (P_write data copied ms)
    then obtain p' n where t: "producer_run (sr_producer s) ?p
        = Some (if n = length data then P_next ms else P_write (drop n data) (copied + of_nat n) ms, take n data, p')"
        "n = length data \<or> m_writer_paused p'"
      using producer_turn [OF ok(1,3), of data copied "sr_producer s" ms] ok(2) space by auto
    have "n = length data \<or> p' \<noteq> ?p" using t(2) space by auto
    then show ?thesis using step [OF t(1)] P_write by auto
  next
    case (P_wait data copied ms)
    then obtain p' n where t: "producer_run (sr_producer s) ?p
        = Some (if n = length data then P_next ms else P_write (drop n data) (copied + of_nat n) ms, take n data, p')"
      using producer_turn [OF ok(1,3), of data copied "sr_producer s" ms] ok(2) space by auto
    then show ?thesis using step [OF t] P_wait by auto
  qed (use ok(2) pc in auto)
qed

text \<open>No deadlock, when every message is a line that leaves two segments free below the pause threshold.\<close>

lemma sample_progress:
  assumes inv: "sample_inv opts (concat ms) s" and fits: "\<forall>m \<in> set ms. m \<noteq> [] \<and> last m = newline \<and> length m \<le> n"
      "n + 2 * unat (opt_buffer_size opts) \<le> unat (opt_pause_writer_threshold opts)"
    and running: "sr_consumer s \<noteq> C_ended"
  shows "\<exists>l s'. sample_step run mark s l s' \<and> s' \<noteq> s"
proof -
  let ?p = "sr_pipe s"
  have pc: "sr_consumer s \<in> {C_reading, C_waiting}" using inv running by (cases "sr_consumer s") (auto simp: sample_inv_def)
  show ?thesis
  proof (cases "sr_consumer s = C_reading \<or> data_available 0 ?p")
    case True
    then show ?thesis by (rule consumer_progress [OF inv pc])
  next
    case False
    then have wc: "\<not> m_writer_completed ?p" and ex: "m_buffered_size ?p \<le> m_examined_size ?p" by (auto simp: data_available_def)
    have idle: "consumer_idle ?p" and ok: "pipe_ok ?p" "pause_ok ?p" "has_options opts ?p"
      using sample_inv_idle [OF inv pc] inv by (auto simp: sample_inv_def stream_inv_def)
    then have rc: "\<not> m_reader_completed ?p" by (simp add: consumer_idle_def)
    with ok(1) have "unat (m_buffered_size ?p) = length (pipe_bytes ?p)" by (simp add: pipe_ok_def counters_ok_def)
    then have nl: "newline \<notin> set (pipe_bytes ?p)" using idle ex by (simp add: consumer_idle_def size_le_iff)
    have "ps_out (sr_sys s) @ pipe_bytes ?p @ to_write (sr_producer s) = concat ms"
      using inv by (auto simp: sample_inv_def stream_inv_def)
    from newline_free_part [OF this nl fits(1)] have "length (pipe_bytes ?p) \<le> n" .
    then have "\<not> m_writer_paused ?p"
      using paused_length [OF ok(1,2) _ rc] ok(3) fits(2) by (auto simp: has_options_def)
    moreover have "sr_producer s \<noteq> P_completed" using inv wc by (simp add: sample_inv_def)
    ultimately show ?thesis using producer_progress [OF inv] by blast
  qed
qed

end

section \<open>\<open>pipeline.cpp\<close>\<close>

abbreviation as_messages :: "byte list list \<Rightarrow> byte list list" where
  "as_messages ls \<equiv> map (\<lambda>l. l @ [newline]) ls"

text \<open>The messages of the producer are lines.\<close>

definition pipeline_lines :: "nat list \<Rightarrow> byte list list" where
  "pipeline_lines rands =
     bytes_of ''First message'' # map (\<lambda>r. replicate (r mod (1024 * 2) + 256) (byte_of_char (CHR ''x''))) rands"

lemma pipeline_messages_eq: "pipeline_messages rands = as_messages (pipeline_lines rands)"
  by (simp add: pipeline_messages_def pipeline_lines_def random_message_def del: bytes_of_eval)

lemma pipeline_lines_short:
  assumes "l \<in> set (pipeline_lines rands)"
  shows "newline \<notin> set l" and "length l \<le> 2303"
proof -
  have x: "byte_of_char (CHR ''x'') \<noteq> newline" by (simp add: byte_of_char_def newline_def)
  have m: "r mod 2048 + 256 \<le> 2303" for r :: nat using mod_less_divisor [of 2048 r] by linarith
  show "newline \<notin> set l" using assms x by (auto simp: pipeline_lines_def byte_of_char_def newline_def)
  show "length l \<le> 2303" using assms m by (auto simp: pipeline_lines_def bytes_of_def)
qed

lemma pipeline_messages_fit:
  "\<forall>m \<in> set (pipeline_messages rands). m \<noteq> [] \<and> last m = newline \<and> length m \<le> 2304"
  using pipeline_lines_short(2) [of _ rands] by (auto simp: pipeline_messages_eq)

lemma pipeline_messages_short: "short_messages (pipeline_messages rands)"
  using pipeline_messages_fit [of rands] by (auto dest!: bspec)

definition pipeline_inv :: "nat list \<Rightarrow> line_counts sample_run \<Rightarrow> bool" where
  "pipeline_inv rands s \<longleftrightarrow>
     sample_inv pipeline_options (concat (pipeline_messages rands)) s
     \<and> lines_inv count_line \<lparr>lineCount = 0, byteCount = 0\<rparr> s"

interpretation pipeline_sample: inductive_invariant "pipeline_init (pipeline_messages rands)" pipeline_step "\<lambda>_. True"
  "pipeline_inv rands" for rands
proof unfold_locales
  fix s
  assume "pipeline_init (pipeline_messages rands) s"
  from sample_init_inv [OF this _ pipeline_messages_short] show "pipeline_inv rands s"
    by (simp add: pipeline_inv_def lines_inv_def pipeline_options_def)
next
  fix s l t
  assume "pipeline_inv rands s" "pipeline_step s l t"
  then show "pipeline_inv rands t"
    using counting.sample_step_inv counting.step_lines unfolding pipeline_inv_def by blast
qed

text \<open>What is left when the consumer has ended: nothing.\<close>

lemma ended_lines:
  assumes inv: "sample_inv opts (concat (as_messages ls)) s" and lines: "lines_inv line_effect a s"
    and ls: "\<forall>l \<in> set ls. newline \<notin> set l" and ended: "sr_consumer s = C_ended"
  shows "fst (split_lines (ps_out (sr_sys s))) = ls \<and> ps_out (sr_sys s) = concat (as_messages ls)"
proof -
  have "sr_producer s = P_completed" and nl: "newline \<notin> set (pipe_bytes (sr_pipe s))" using inv ended by (auto simp: sample_inv_def)
  then have out: "ps_out (sr_sys s) @ pipe_bytes (sr_pipe s) = concat (as_messages ls)"
    using inv by (auto simp: sample_inv_def stream_inv_def)
  have "snd (split_lines (ps_out (sr_sys s))) = []" using lines by (simp add: lines_inv_def)
  from split_lines_append [OF this, of "pipe_bytes (sr_pipe s)"]
  have "split_lines (concat (as_messages ls)) = (fst (split_lines (ps_out (sr_sys s))), pipe_bytes (sr_pipe s))"
    using split_lines_none [OF nl] by (simp add: out)
  then show ?thesis using split_lines_concat [OF ls] out by simp
qed


text \<open>The sample program of the pipeline never gets stuck: until the main loop has ended, one of the two
  threads can take a step that changes the state.  A full pipeline always holds a complete line,
  because a message leaves more than two segments free below the pause threshold.\<close>

lemma pipeline_sample_progress:
  assumes "reach (pipeline_init (pipeline_messages rands)) pipeline_step (\<lambda>_. True) s" and "sr_consumer s \<noteq> C_ended"
  shows "\<exists>l s'. pipeline_step s l s' \<and> s' \<noteq> s"
proof -
  have "sample_inv pipeline_options (concat (pipeline_messages rands)) s"
    using pipeline_sample.reach_inv [OF assms(1)] by (simp add: pipeline_inv_def)
  from counting.sample_progress [OF this pipeline_messages_fit _ assms(2)] show ?thesis
    by (simp add: pipeline_options_def)
qed

section \<open>A run with one message\<close>

text \<open>The first write takes as much of the message as fits below the pause threshold.\<close>

definition empty_room :: "pipe_options \<Rightarrow> nat" where
  "empty_room options = unat (opt_pause_writer_threshold options) div unat (opt_buffer_size options) * unat (opt_buffer_size options)"

definition after_first_write :: "pipe_options \<Rightarrow> byte list \<Rightarrow> producer_pc" where
  "after_first_write options m =
     (let n = empty_room options in if length m \<le> n then P_next [] else P_write (drop n m) (of_nat n) [])"

lemma first_write:
  assumes o: "options_ok False options" "opt_buffer_size options \<le> opt_resume_writer_threshold options"
    and m: "m \<noteq> []" "length m < 2 ^ 64"
    and start: "\<And>s. sample_init options [m] a s \<Longrightarrow> init s"
    and allowed: "allowed (S_produce (P_write m 0 []))" "allowed (S_produce (after_first_write options m))"
  obtains s where "reach init (sample_step body mark) allowed s"
    and "sr_producer s = after_first_write options m" and "sr_consumer s = C_reading" and "sr_data s = a"
    and "pipe_bytes (sr_pipe s) = take (empty_room options) m" and "ps_out (sr_sys s) = []"
    and "sample_inv options m s" and "m_examined_size (sr_pipe s) = 0"
proof -
  let ?n = "empty_room options"
  obtain p where p: "pipeline_make False options heap_empty = Some (Inr p)" "pipe_ok p" "\<not> is_any_completed p" "\<not> m_writer_paused p"
      "pipe_bytes p = []" "m_deque p = []" "m_actual_buffered_size p = 0"
      "m_pause_writer_threshold p = opt_pause_writer_threshold options" "m_buffer_size p = opt_buffer_size options"
      "m_examined_size p = 0"
    using pipeline_make_ok [OF heap_ok_empty o(1)] by metis
  have room: "free_room p = ?n" by (simp add: free_room_def p(6-9) empty_room_def)
  define s0 where "s0 = \<lparr>sr_sys = \<lparr>ps_pipe = p, ps_in = [], ps_out = []\<rparr>, sr_producer = P_next [m], sr_consumer = C_reading, sr_data = a\<rparr>"
  define s1 where "s1 = s0\<lparr>sr_producer := P_write m 0 []\<rparr>"
  have made: "sample_init options [m] a s0"
    using p(1) o(1) heap_ok_empty by (auto simp: sample_init_def pipe_init_def s0_def)
  have i0: "sample_inv options m s0" using sample_init_inv [OF made o(2)] m(2) by simp
  have r0: "reach init (sample_step body mark) allowed s0" using start [OF made] by (rule reach_init)
  have "span_size m \<noteq> 0" using m by (simp add: span_size_eq_0_iff)
  then have run1: "producer_run (sr_producer s0) (sr_pipe s0) = Some (P_write m 0 [], [], p)" by (simp add: s0_def pipeline_write_def)
  have s1: "s1 = s0\<lparr>sr_sys := \<lparr>ps_pipe = p, ps_in = ps_in (sr_sys s0) @ [], ps_out = ps_out (sr_sys s0)\<rparr>, sr_producer := P_write m 0 []\<rparr>"
    by (simp add: s1_def s0_def)
  have i1: "sample_inv options m s1" using producer_step [OF i0 run1] by (simp add: s1)
  have "sample_step body mark s0 (S_produce (P_write m 0 [])) s1" using s_produce [OF run1] by (simp add: s1)
  with r0 have r1: "reach init (sample_step body mark) allowed s1" using allowed(1) by (rule reach_step)
  obtain p' where t: "producer_run (P_write m 0 []) p = Some (after_first_write options m, take ?n m, p')" "pipe_bytes p' = take ?n m"
      "m_examined_size p' = 0"
    using producer_turn [OF p(2,3) m(1), of 0 "P_write m 0 []" "[]"] m(2) p(4,5,10)
    by (auto simp: room after_first_write_def Let_def min_def same_frame_def split: if_splits)
  define s2 where "s2 = s1\<lparr>sr_sys := \<lparr>ps_pipe = p', ps_in = ps_in (sr_sys s1) @ take ?n m, ps_out = ps_out (sr_sys s1)\<rparr>,
      sr_producer := after_first_write options m\<rparr>"
  have run2: "producer_run (sr_producer s1) (sr_pipe s1) = Some (after_first_write options m, take ?n m, p')"
    using t(1) by (simp add: s1_def s0_def)
  have "sample_step body mark s1 (S_produce (after_first_write options m)) s2" using s_produce [OF run2] by (simp add: s2_def)
  with r1 have "reach init (sample_step body mark) allowed s2" using allowed(2) by (rule reach_step)
  moreover have "sample_inv options m s2" using producer_step [OF i1 run2] by (simp add: s2_def)
  ultimately show thesis using t(2,3) by (intro that [of s2]) (simp_all add: s2_def s1_def s0_def)
qed

text \<open>From there, when the message fitted: the producer completes and the consumer reads everything.\<close>

context line_sample
begin

lemma complete_and_read:
  assumes r: "reach init (sample_step run mark) allowed s" and inv: "sample_inv options w s"
    and pc: "sr_producer s = P_next []" "sr_consumer s = C_reading"
    and allowed: "allowed (S_produce P_completed)" "allowed S_read"
  shows "\<exists>s'. reach init (sample_step run mark) allowed s' \<and> sr_consumer s' = C_ended"
proof -
  define s1 where "s1 = s\<lparr>sr_sys := \<lparr>ps_pipe = complete_writer (sr_pipe s), ps_in = ps_in (sr_sys s) @ [], ps_out = ps_out (sr_sys s)\<rparr>,
      sr_producer := P_completed\<rparr>"
  have run: "producer_run (sr_producer s) (sr_pipe s) = Some (P_completed, [], complete_writer (sr_pipe s))" using pc(1) by simp
  have i1: "sample_inv options w s1" using producer_step [OF inv run] by (simp add: s1_def)
  have "sample_step run mark s (S_produce P_completed) s1" using s_produce [OF run] by (simp add: s1_def)
  with r have r1: "reach init (sample_step run mark) allowed s1" using allowed(1) by (rule reach_step)
  have c1: "sr_consumer s1 = C_reading" "m_writer_completed (sr_pipe s1)" using pc(2) by (simp_all add: s1_def complete_writer_def)
  then obtain s2 where s2: "consume_call run mark (reader_read False (sr_pipe s1)) s1 = Some s2" "after_read keep line_effect s1 s2"
    using consume_call_ok [OF i1, of "reader_read False (sr_pipe s1)"] by (auto simp: data_available_def)
  have "sample_step run mark s1 S_read s2" using c1(1) s2(1) by (rule s_read)
  with r1 have "reach init (sample_step run mark) allowed s2" using allowed(2) by (rule reach_step)
  then show ?thesis using s2(2) c1(2) by (auto simp: after_read_def)
qed

end

lemma pipeline_options_ok: "options_ok False pipeline_options" "opt_buffer_size pipeline_options \<le> opt_resume_writer_threshold pipeline_options"
  "empty_room pipeline_options = 262144"
  by (simp_all add: options_ok_def pipeline_options_def empty_room_def)

text \<open>The run of a producer that only writes the first message.\<close>

lemma first_message_run:
  obtains s where "reach (pipeline_init (pipeline_messages [])) pipeline_step (\<lambda>_. True) s" and "sr_consumer s = C_reading"
    and "sr_producer s = P_next []" and "sample_inv pipeline_options (bytes_of ''First message'' @ [newline]) s"
proof -
  let ?m = "bytes_of ''First message'' @ [newline]"
  have len: "length ?m = 14" by simp
  have one: "pipeline_messages [] = [?m]" by (simp add: pipeline_messages_def)
  from first_write [OF pipeline_options_ok(1,2), of ?m "\<lparr>lineCount = 0, byteCount = 0\<rparr>" "pipeline_init (pipeline_messages [])" "\<lambda>_. True" count_lines view_begin]
  show thesis using len that unfolding one after_first_write_def pipeline_options_ok(3) Let_def
    by (auto simp del: bytes_of_eval)
qed


lemma pipeline_sample_progress_witness:
  "\<exists>s. reach (pipeline_init (pipeline_messages [])) pipeline_step (\<lambda>_. True) s \<and> sr_consumer s = C_reading
     \<and> (\<exists>l s'. pipeline_step s l s' \<and> s' \<noteq> s)"
proof -
  obtain s where s: "reach (pipeline_init (pipeline_messages [])) pipeline_step (\<lambda>_. True) s" "sr_consumer s = C_reading"
    by (rule first_message_run)
  have "sr_consumer s \<noteq> C_ended" using s(2) by simp
  from pipeline_sample_progress [OF s(1) this] s show ?thesis by blast
qed

section \<open>\<open>stdin.cpp\<close>\<close>

text \<open>A step does not leave a message partly written.\<close>

fun whole_write :: "sample_event \<Rightarrow> bool" where
  "whole_write (S_produce (P_write data copied ms)) \<longleftrightarrow> copied = 0"
| "whole_write (S_produce (P_wait data copied ms)) \<longleftrightarrow> copied = 0"
| "whole_write _ \<longleftrightarrow> True"

abbreviation is_message :: "byte list \<Rightarrow> bool" where
  "is_message m \<equiv> snd (split_lines m) = []"

fun whole_pc :: "producer_pc \<Rightarrow> bool" where
  "whole_pc (P_next ms) \<longleftrightarrow> list_all is_message ms"
| "whole_pc (P_write data copied ms) \<longleftrightarrow> copied = 0 \<and> list_all is_message (data # ms)"
| "whole_pc (P_wait data copied ms) \<longleftrightarrow> copied = 0 \<and> list_all is_message (data # ms)"
| "whole_pc _ \<longleftrightarrow> True"

lemma is_message_append: "is_message xs \<Longrightarrow> is_message ys \<Longrightarrow> is_message (xs @ ys)"
  using split_lines_append [of xs ys] by simp

lemma is_message_line: "newline \<notin> set l \<Longrightarrow> is_message (l @ [newline])"
  using split_lines_line [of l "[]"] by simp

lemma producer_whole:
  assumes inv: "sample_inv opts w s" and run: "producer_run (sr_producer s) (sr_pipe s) = Some (pc, bytes, p)"
    and whole: "whole_pc (sr_producer s)" "whole_write (S_produce pc)"
  shows "whole_pc pc \<and> is_message bytes"
proof (cases "\<exists>data copied ms. sr_producer s = P_write data copied ms \<or> sr_producer s = P_wait data copied ms")
  case True
  then obtain data copied ms where d: "sr_producer s = P_write data copied ms \<or> sr_producer s = P_wait data copied ms" by blast
  have "sr_producer s \<noteq> P_completed" using d by auto
  from sample_inv_idle [OF inv idle_consumer [OF inv this]] this
  have ok: "pipe_ok (sr_pipe s)" "\<not> is_any_completed (sr_pipe s)" "data \<noteq> []" "unat copied + length data < 2 ^ 64"
    using inv d by (auto simp: sample_inv_def stream_inv_def is_any_completed_def consumer_idle_def)
  have c: "copied = 0" "list_all is_message (data # ms)" using whole(1) d by auto
  show ?thesis
  proof (cases "m_writer_paused (sr_pipe s)")
    case True
    then show ?thesis using producer_turn [OF ok d] run c by simp
  next
    case False
    then obtain p' n where t: "n = min (length data) (free_room (sr_pipe s))" "producer_run (sr_producer s) (sr_pipe s)
        = Some (if n = length data then P_next ms else P_write (drop n data) (copied + of_nat n) ms, take n data, p')"
      using producer_turn [OF ok d] by (simp del: producer_run.simps) metis
    then have n: "n \<le> length data" "pc = (if n = length data then P_next ms else P_write (drop n data) (copied + of_nat n) ms)"
        "bytes = take n data"
      using run by simp_all
    have "n = 0 \<or> n = length data"
    proof (rule ccontr)
      assume "\<not> (n = 0 \<or> n = length data)"
      then have "(of_nat n :: size_t) = 0" using whole(2) n(2) c(1) by simp
      moreover have "unat (of_nat n :: size_t) = n" using n(1) ok(4) by (simp add: unat_of_nat_size)
      ultimately show False using \<open>\<not> (n = 0 \<or> n = length data)\<close> by simp
    qed
    then show ?thesis using n c by auto
  qed
next
  case False
  show ?thesis
  proof (cases "sr_producer s")
    case (P_next ms)
    then show ?thesis using run whole(1) by (cases ms) (auto simp: pipeline_write_def split: if_splits)
  qed (use False run in auto)
qed

definition stdin_lines :: "byte list \<Rightarrow> byte list list" where
  "stdin_lines input = takeWhile (\<lambda>line. line \<noteq> []) (getline_all input)"

definition stdin_inv :: "byte list \<Rightarrow> byte list list sample_run \<Rightarrow> bool" where
  "stdin_inv input s \<longleftrightarrow>
     sample_inv stdin_options (concat (stdin_messages input)) s \<and> lines_inv echo_line [] s
     \<and> is_message (pipe_bytes (sr_pipe s)) \<and> whole_pc (sr_producer s)"

lemma split_lines_mem: "l \<in> set (fst (split_lines xs)) \<Longrightarrow> newline \<notin> set l \<and> length l \<le> length xs"
proof (induction xs arbitrary: l)
  case (Cons b bs)
  then show ?case by (fastforce split: prod.splits list.splits if_splits)
qed simp

lemma getline_all_lines:
  assumes "l \<in> set (getline_all input)"
  shows "newline \<notin> set l \<and> length l \<le> length input"
proof -
  have "l \<in> set (fst (split_lines input)) \<or> l = snd (split_lines input)"
    using assms by (auto simp: getline_all_def case_prod_beta split: if_splits)
  moreover have "length (snd (split_lines input)) \<le> length input"
    using split_lines_bytes [of input] by (metis length_append le_add2)
  ultimately show ?thesis using split_lines_mem split_lines_rest by blast
qed

lemma stdin_messages_ok:
  assumes "Suc (length input) < 2 ^ 64"
  shows "stdin_messages input = as_messages (stdin_lines input)" and "\<forall>l \<in> set (stdin_lines input). newline \<notin> set l"
    and "short_messages (stdin_messages input)" and "list_all is_message (stdin_messages input)"
proof -
  show eq: "stdin_messages input = as_messages (stdin_lines input)" by (simp add: stdin_messages_def stdin_lines_def)
  have l: "newline \<notin> set l \<and> length l \<le> length input" if "l \<in> set (stdin_lines input)" for l
    using getline_all_lines [of l input] set_takeWhileD [of l _ "getline_all input"] that by (auto simp: stdin_lines_def)
  then show "\<forall>l \<in> set (stdin_lines input). newline \<notin> set l" by blast
  show "short_messages (stdin_messages input)" using l assms by (fastforce simp: eq)
  show "list_all is_message (stdin_messages input)" using l is_message_line by (auto simp: eq list_all_iff)
qed

interpretation stdin_sample: inductive_invariant "\<lambda>s. stdin_init input s \<and> Suc (length input) < 2 ^ 64" stdin_step whole_write
  "stdin_inv input" for input
proof unfold_locales
  fix s
  assume i: "stdin_init input s \<and> Suc (length input) < 2 ^ 64"
  note m = stdin_messages_ok [OF conjunct2 [OF i]]
  have "opt_buffer_size stdin_options \<le> opt_resume_writer_threshold stdin_options"
    by (simp add: stdin_options_def default_pipe_options_def)
  from sample_init_inv [OF conjunct1 [OF i] this m(3)] show "stdin_inv input s"
    using i m(4) by (simp add: stdin_inv_def lines_inv_def sample_init_def)
next
  fix s l t
  assume inv: "stdin_inv input s" and step: "stdin_step s l t" and l: "whole_write l"
  have s: "sample_inv stdin_options (concat (stdin_messages input)) s" "lines_inv echo_line [] s"
      "is_message (pipe_bytes (sr_pipe s))" "whole_pc (sr_producer s)"
    using inv by (auto simp: stdin_inv_def)
  have t: "sample_inv stdin_options (concat (stdin_messages input)) t \<and> lines_inv echo_line [] t"
    using echoing.sample_step_inv [OF s(1) step] echoing.step_lines [OF s(1,2) step] s(3) by blast
  have read: "is_message (pipe_bytes (sr_pipe t)) \<and> sr_producer t = sr_producer s"
    if "sr_consumer s \<in> {C_reading, C_waiting}" "call = reader_read False (sr_pipe s) \<or> call = read_wait 0 False (sr_pipe s)"
      "consume_call echo_lines view_end call s = Some t" for call
    using echoing.consume_call_ok [OF s(1) that(1,2)] that(3) s(3) by (auto simp: after_read_def split: if_splits)
  from step have "is_message (pipe_bytes (sr_pipe t)) \<and> whole_pc (sr_producer t)"
  proof (cases rule: sample_step.cases)
    case s_read
    then show ?thesis using read [of "reader_read False (sr_pipe s)"] s(4) by simp
  next
    case s_wake
    then show ?thesis using read [of "read_wait 0 False (sr_pipe s)"] s(4) by simp
  next
    case (s_produce pc bytes p)
    have "pipe_bytes p = pipe_bytes (sr_pipe s) @ bytes" using producer_step [OF s(1) s_produce(3)] by simp
    then show ?thesis
      using s_produce(1,2) producer_whole [OF s(1) s_produce(3) s(4)] l is_message_append [OF s(3)] by simp
  qed
  with t show "stdin_inv input t" by (simp add: stdin_inv_def)
qed

text \<open>The echo of the sample program for the standard input is right as long as every line goes into the
  pipeline in one piece: what has been echoed are exactly the lines released so far, no exception is
  thrown, and when the main thread has ended it has echoed every line of the input up to the first
  empty one.\<close>

lemma stdin_echoes_whole_lines:
  assumes "reach (\<lambda>s. stdin_init input s \<and> Suc (length input) < 2 ^ 64) stdin_step whole_write s"
  shows "sr_data s = fst (split_lines (ps_out (sr_sys s))) \<and> sr_consumer s \<noteq> C_failed e \<and> sr_producer s \<noteq> P_failed e
    \<and> (sr_consumer s = C_ended \<longrightarrow> sr_data s = takeWhile (\<lambda>line. line \<noteq> []) (getline_all input))"
proof -
  have len: "Suc (length input) < 2 ^ 64" using assms by (induction rule: reach.induct) auto
  note m = stdin_messages_ok [OF len]
  have inv: "sample_inv stdin_options (concat (as_messages (stdin_lines input))) s" and lines: "lines_inv echo_line [] s"
    using stdin_sample.reach_inv [OF assms] by (auto simp: stdin_inv_def m(1))
  have "sr_data s = fst (split_lines (ps_out (sr_sys s)))" using lines by (simp add: lines_inv_def fold_echo_line)
  then show ?thesis
    using ended_lines [OF inv lines m(2)] inv by (auto simp: sample_inv_def stdin_lines_def)
qed

lemma stdin_options_ok: "options_ok False stdin_options" "opt_buffer_size stdin_options \<le> opt_resume_writer_threshold stdin_options"
  "empty_room stdin_options = 131072"
  by (simp_all add: options_ok_def stdin_options_def default_pipe_options_def empty_room_def)

text \<open>C40: A line that does not fit into the pipeline in one piece is broken: when a line is longer than the pause
  threshold, the reader is shown its beginning, finds no newline, echoes nothing and advances to the
  end of what it saw, so the beginning is released and lost.\<close>

theorem stdin_loses_split_line:
  assumes "newline \<notin> set line" and "131072 \<le> length line" and "Suc (length line) < 2 ^ 64"
  shows "\<exists>s. reach (stdin_init (line @ [newline])) stdin_step (\<lambda>_. True) s \<and> sr_data s = []
    \<and> ps_out (sr_sys s) = take 131072 line \<and> pipe_bytes (sr_pipe s) = []
    \<and> to_write (sr_producer s) = drop 131072 line @ [newline]"
proof -
  let ?m = "line @ [newline]"
  have "stdin_messages ?m = [?m]"
    using split_lines_line [OF assms(1), of "[]"] assms(2) by (auto simp: stdin_messages_def getline_all_def)
  with first_write [OF stdin_options_ok(1,2), of ?m "[]" "stdin_init ?m" "\<lambda>_. True" echo_lines view_end] assms(3) obtain s where
    s: "reach (stdin_init ?m) stdin_step (\<lambda>_. True) s" "sr_producer s = after_first_write stdin_options ?m"
      "sr_consumer s = C_reading" "sr_data s = []" "pipe_bytes (sr_pipe s) = take 131072 ?m" "ps_out (sr_sys s) = []"
      "sample_inv stdin_options ?m s" "m_examined_size (sr_pipe s) = 0"
    unfolding stdin_options_ok(3) by auto
  have bytes: "pipe_bytes (sr_pipe s) = take 131072 line" using s(5) assms(2) by simp
  then have none: "split_lines (pipe_bytes (sr_pipe s)) = ([], take 131072 line)"
    using assms(1) by (auto intro!: split_lines_none dest: in_set_takeD)
  have "pipe_ok (sr_pipe s)" "consumer_idle (sr_pipe s)" using s(3,7) by (auto simp: sample_inv_def stream_inv_def)
  then have "unat (m_buffered_size (sr_pipe s)) = 131072" 
    using bytes assms(2) by (simp add: pipe_ok_def counters_ok_def consumer_idle_def)
  then have "data_available 0 (sr_pipe s)" using s(8) by (auto simp: data_available_def size_less_iff)
  then obtain t where t: "consume_call echo_lines view_end (reader_read False (sr_pipe s)) s = Some t" "sr_producer t = sr_producer s"
      "after_read False echo_line s t"
    using echoing.consume_call_ok [OF s(7), of "reader_read False (sr_pipe s)"] s(3) by auto
  have "stdin_step s S_read t" using s(3) t(1) by (rule s_read)
  with s(1) have "reach (stdin_init ?m) stdin_step (\<lambda>_. True) t" by (rule reach_step) simp
  moreover have "sr_data t = []" "ps_out (sr_sys t) = take 131072 line" "pipe_bytes (sr_pipe t) = []"
    using t(3) s(4,6) bytes none by (auto simp: after_read_def)
  moreover have "to_write (sr_producer t) = drop 131072 line @ [newline]"
    using t(2) s(2) assms(2) by (simp add: after_first_write_def stdin_options_ok(3) Let_def)
  ultimately show ?thesis by blast
qed

lemma stdin_echoes_whole_lines_witness:
  "\<exists>s. reach (\<lambda>s. stdin_init (bytes_of ''hi'' @ [newline]) s \<and> Suc (length (bytes_of ''hi'' @ [newline])) < 2 ^ 64) stdin_step whole_write s
     \<and> sr_consumer s = C_ended \<and> sr_data s = [bytes_of ''hi'']"
proof -
  let ?m = "bytes_of ''hi'' @ [newline]"
  let ?init = "\<lambda>s. stdin_init ?m s \<and> Suc (length ?m) < 2 ^ 64"
  have nl: "newline \<notin> set (bytes_of ''hi'')" by (simp add: byte_of_char_def newline_def)
  have lines: "getline_all ?m = [bytes_of ''hi'']"
    using split_lines_line [OF nl, of "[]"] by (simp add: getline_all_def del: bytes_of_eval)
  then have one: "stdin_messages ?m = [?m]" by (simp add: stdin_messages_def)
  have fw: "after_first_write stdin_options ?m = P_next []" by (simp add: after_first_write_def stdin_options_ok(3) Let_def)
  obtain s where s: "reach ?init stdin_step whole_write s" "sr_producer s = P_next []" "sr_consumer s = C_reading"
      "sample_inv stdin_options ?m s"
  proof (rule first_write [OF stdin_options_ok(1,2), of ?m "[]" ?init whole_write echo_lines view_end])
    show "?init s" if "sample_init stdin_options [?m] [] s" for s using that one by simp
    show "length ?m < 2 ^ 64" by simp
  qed (use that fw in \<open>auto simp del: bytes_of_eval\<close>)
  then obtain t where t: "reach ?init stdin_step whole_write t" "sr_consumer t = C_ended"
    using echoing.complete_and_read [OF s(1,4,2,3)] by auto
  with stdin_echoes_whole_lines [OF t(1)] lines show ?thesis by auto
qed

lemma stdin_loses_split_line_witness:
  "\<exists>line s. length line = 131072 \<and> reach (stdin_init (line @ [newline])) stdin_step (\<lambda>_. True) s \<and> sr_data s = []
     \<and> length (ps_out (sr_sys s)) = 131072"
proof -
  define line where "line = map (\<lambda>i. 65 :: byte) [0..<131072]"
  have l: "length line = 131072" "newline \<notin> set line" by (auto simp: line_def newline_def)
  have "131072 \<le> length line" "Suc (length line) < 2 ^ 64" by (simp_all add: l(1))
  from stdin_loses_split_line [OF l(2) this] l(1) show ?thesis by (metis length_take min.idem)
qed

end
