(* ===== verification/Chat_Commands.thy ===== *)
theory Chat_Commands
  imports Line_Reader
begin

text \<open>
  \<open>samples/chat/commands_parser.h\<close>: the command line of the chat sample.  A line is a view over the
  segments of the pipeline; a \<open>std::string\<close> is the list of its bytes.  The reference \<open>command_spec\<close>
  reads the flat bytes of the line: a line that starts with a slash is a command word up to the first
  white space and a trimmed argument, every other line is a message.
\<close>

section \<open>Characters\<close>

text \<open>\<open>std::tolower\<close> in the classic locale.\<close>

definition tolower :: "byte \<Rightarrow> byte" where
  "tolower b = (if 0x41 \<le> b \<and> b \<le> 0x5A then b + 0x20 else b)"

text \<open>\<open>find_first_not_of\<close> and \<open>find_last_not_of\<close> with a set of bytes.\<close>

definition find_first_not_of :: "byte list \<Rightarrow> byte list \<Rightarrow> nat option" where
  "find_first_not_of cs value = find_index (\<lambda>b. b \<notin> set cs) value"

definition find_last_not_of :: "byte list \<Rightarrow> byte list \<Rightarrow> nat option" where
  "find_last_not_of cs value =
     map_option (\<lambda>i. length value - 1 - i) (find_index (\<lambda>b. b \<notin> set cs) (rev value))"

section \<open>The parser\<close>

datatype command_type = Unknown | Message | Name | Help | Quit

definition command_definitions :: "(byte list \<times> command_type) list" where
  "command_definitions = [(bytes_of ''name'', Name), (bytes_of ''help'', Help), (bytes_of ''quit'', Quit)]"

definition whitespaces :: string where
  "whitespaces = [CHR 0x20, CHR 0x09, CHR 0x0A, CHR 0x0D, CHR 0x0C, CHR 0x0B]"

definition trim :: "byte list \<Rightarrow> byte list" where
  "trim value =
     (case find_first_not_of (bytes_of whitespaces) value of
        None \<Rightarrow> []
      | Some first \<Rightarrow>
          (case find_last_not_of (bytes_of whitespaces) value of
             None \<Rightarrow> []
           | Some final \<Rightarrow> take (final - first + 1) (drop first value)))"

definition is_equal_ignore_case :: "byte list \<Rightarrow> byte list \<Rightarrow> bool" where
  "is_equal_ignore_case a b \<longleftrightarrow>
     (if length a \<noteq> length b then False else list_all2 (\<lambda>x y. tolower x = tolower y) a b)"

definition parse_command_type :: "segmented_byte_view \<Rightarrow> command_type" where
  "parse_command_type command_bytes =
     (let command = to_string command_bytes in
      case find (\<lambda>d. is_equal_ignore_case command (fst d)) command_definitions of
        None \<Rightarrow> Unknown
      | Some d \<Rightarrow> snd d)"

definition parse_command :: "segmented_byte_view \<Rightarrow> (command_type \<times> byte list) throws option" where
  "parse_command line_bytes =
     (case index_at 0 line_bytes of
        None \<Rightarrow> None
      | Some (Inl e) \<Rightarrow> Some (Inl e)
      | Some (Inr b) \<Rightarrow>
          if b = byte_of_char (CHR ''/'') then
            (let separator = position_of_any_chars whitespaces line_bytes in
             case slice_off_pos 1 (if pos_bool separator then separator else view_end line_bytes) line_bytes of
               Inl e \<Rightarrow> Some (Inl e)
             | Inr command_bytes \<Rightarrow>
                 if pos_bool separator then
                   (case slice_pos (pos_plus separator 1) (view_end line_bytes) line_bytes of
                      Inl e \<Rightarrow> Some (Inl e)
                    | Inr argument_bytes \<Rightarrow>
                        Some (Inr (parse_command_type command_bytes, trim (to_string argument_bytes))))
                 else Some (Inr (parse_command_type command_bytes, [])))
          else Some (Inr (Message, to_string line_bytes)))"

section \<open>What a line means\<close>

definition is_space :: "byte \<Rightarrow> bool" where
  "is_space b \<longleftrightarrow> b \<in> set (bytes_of whitespaces)"

definition trim_spec :: "byte list \<Rightarrow> byte list" where
  "trim_spec bs = rev (dropWhile is_space (rev (dropWhile is_space bs)))"

definition command_word :: "byte list \<Rightarrow> command_type" where
  "command_word w =
     (if map tolower w = bytes_of ''name'' then Name
      else if map tolower w = bytes_of ''help'' then Help
      else if map tolower w = bytes_of ''quit'' then Quit
      else Unknown)"

definition command_spec :: "byte list \<Rightarrow> command_type \<times> byte list" where
  "command_spec line =
     (if hd line = byte_of_char (CHR ''/'')
      then (command_word (takeWhile (\<lambda>b. \<not> is_space b) (tl line)),
            trim_spec (tl (dropWhile (\<lambda>b. \<not> is_space b) (tl line))))
      else (Message, line))"

lemma find_index_dropWhile:
  "find_index P xs = (if dropWhile (\<lambda>x. \<not> P x) xs = [] then None
     else Some (length (takeWhile (\<lambda>x. \<not> P x) xs)))"
  by (induction xs) auto

lemma take_drop_trim:
  assumes "find_index P xs = Some i" and "find_index P (rev xs) = Some j"
  shows "take (length xs - 1 - j - i + 1) (drop i xs)
       = rev (dropWhile (\<lambda>x. \<not> P x) (rev (dropWhile (\<lambda>x. \<not> P x) xs)))"
proof -
  let ?Q = "\<lambda>x. \<not> P x"
  have i: "i = length (takeWhile ?Q xs)" and d: "dropWhile ?Q xs \<noteq> []"
    using assms(1) by (auto simp: find_index_dropWhile split: if_splits)
  define ys where "ys = dropWhile ?Q xs"
  have ys: "ys \<noteq> []" "P (hd ys)" using d hd_dropWhile [of ?Q xs] by (auto simp: ys_def)
  have dx: "drop i xs = ys" by (simp add: i ys_def dropWhile_eq_drop)
  have xs: "xs = takeWhile ?Q xs @ ys" by (simp add: ys_def)
  have "\<exists>y \<in> set (rev ys). \<not> ?Q y" using ys by (auto intro: hd_in_set)
  then have tw: "takeWhile ?Q (rev ys @ rev (takeWhile ?Q xs)) = takeWhile ?Q (rev ys)"
    by (auto intro: takeWhile_append1)
  have "rev xs = rev ys @ rev (takeWhile ?Q xs)" by (subst xs) simp
  then have j: "j = length (takeWhile ?Q (rev ys))"
    using assms(2) tw by (auto simp: find_index_dropWhile split: if_splits)
  have jl: "j < length ys"
  proof -
    have "length (takeWhile ?Q (rev ys)) + length (dropWhile ?Q (rev ys)) = length ys"
      by (metis length_append length_rev takeWhile_dropWhile_id)
    moreover have "dropWhile ?Q (rev ys) \<noteq> []" using ys by (auto simp: dropWhile_eq_Nil_conv intro!: bexI [of _ "hd ys"])
    ultimately show ?thesis using j by (cases "dropWhile ?Q (rev ys)") auto
  qed
  have len: "length xs = i + length ys" by (subst xs) (simp add: i)
  have "take (length ys - j) ys = rev (drop j (rev ys))" by (simp add: rev_drop)
  also have "\<dots> = rev (dropWhile ?Q (rev ys))" by (simp add: j dropWhile_eq_drop)
  finally have *: "take (length ys - j) ys = rev (dropWhile ?Q (rev ys))" .
  have "length xs - 1 - j - i + 1 = length ys - j" using len jl by simp
  then show ?thesis using * dx by (simp add: ys_def)
qed

lemma trim_correct: "trim bs = trim_spec bs"
proof (cases "find_index (\<lambda>b. \<not> is_space b) bs")
  case None
  then have "\<forall>b \<in> set bs. is_space b" by (simp add: find_index_None_iff)
  then have "dropWhile is_space bs = []" by (simp add: dropWhile_eq_Nil_conv)
  then have "trim_spec bs = []" unfolding trim_spec_def by (simp only: rev.simps dropWhile.simps)
  with None show ?thesis by (simp add: trim_def find_first_not_of_def is_space_def)
next
  case (Some i)
  then have "\<not> (\<forall>b \<in> set (rev bs). is_space b)" using find_index_None_iff [of "\<lambda>b. \<not> is_space b" bs] by auto
  then obtain j where j: "find_index (\<lambda>b. \<not> is_space b) (rev bs) = Some j"
    using find_index_None_iff [of "\<lambda>b. \<not> is_space b" "rev bs"] by auto
  show ?thesis
    using take_drop_trim [OF Some j] Some j
    by (simp add: trim_def trim_spec_def find_first_not_of_def find_last_not_of_def is_space_def [abs_def])
qed

lemma is_equal_ignore_case_map: "is_equal_ignore_case a b \<longleftrightarrow> map tolower a = map tolower b"
  by (auto simp: is_equal_ignore_case_def list_all2_conv_all_nth list_eq_iff_nth_eq)

lemma parse_command_type_word:
  assumes "view_ok v"
  shows "parse_command_type v = command_word (view_bytes v)"
  by (simp add: parse_command_type_def command_definitions_def command_word_def to_string_flat [OF assms]
      is_equal_ignore_case_map byte_of_char_def tolower_def)

lemma slash_not_space: "\<not> is_space (byte_of_char (CHR ''/''))"
  by (simp add: is_space_def whitespaces_def byte_of_char_def)

lemma first_byte:
  assumes ok: "view_ok v" and bs: "view_bytes v = b # bs"
  shows "index_at 0 v = Some (Inr b)" and "\<not> m_size v < 1"
proof -
  have sz: "m_size v \<noteq> 0" using view_ok_length [OF ok] bs by auto
  then show "index_at 0 v = Some (Inr b)" using index_at_ok [OF ok, of 0] bs by (simp add: word_neq_0_conv)
  show "\<not> m_size v < 1" using sz by (simp add: size_less_iff unat_eq_zero)
qed

lemma slice_from_second:
  assumes "view_ok v" and "view_bytes v = b # bs"
  shows "slice_off_pos 1 (position_at e) v = view_slice v \<lparr>range_begin = m_begin_offset v + 1, range_end = e\<rparr>"
  using first_byte(2) [OF assms] by (simp add: slice_off_pos_def bind_range_def resolve_slice_range_off_pos_def position_defs)

lemma whitespace_position:
  assumes ok: "view_ok v" and bs: "view_bytes v = byte_of_char (CHR ''/'') # bs"
  shows "position_of_any_chars whitespaces v =
    (case find_index is_space bs of None \<Rightarrow> position_none | Some i \<Rightarrow> position_at (m_begin_offset v + of_nat (Suc i)))"
proof -
  have "position_of_any_chars whitespaces v = found_at v (find_index is_space (view_bytes v))"
    unfolding position_of_any_chars_def position_of_any_flat [OF ok] bytes_of_def [symmetric]
    by (simp add: is_space_def [abs_def])
  then show ?thesis using slash_not_space by (simp add: bs found_at_def split: option.splits)
qed

text \<open>A command without an argument, and one with.\<close>

lemma parse_bare_command:
  assumes ok: "view_ok v" and bs: "view_bytes v = byte_of_char (CHR ''/'') # bs" and none: "find_index is_space bs = None"
  shows "parse_command v = Some (Inr (command_spec (view_bytes v)))"
proof -
  have "\<forall>x \<in> set bs. \<not> is_space x" using none by (simp add: find_index_None_iff)
  then have tw: "takeWhile (\<lambda>x. \<not> is_space x) bs = bs" "dropWhile (\<lambda>x. \<not> is_space x) bs = []"
    by (simp_all add: takeWhile_eq_all_conv dropWhile_eq_Nil_conv)
  have "trim_spec [] = []" by (simp add: trim_spec_def)
  then have spec: "command_spec (view_bytes v) = (command_word bs, [])"
    unfolding command_spec_def bs list.sel tw by simp
  obtain w where w: "view_slice v \<lparr>range_begin = m_begin_offset v + 1, range_end = end_offset v\<rparr> = Inr w"
      "view_ok w" "view_bytes w = bs"
    using view_cut [OF ok, of 1 "length (view_bytes v)"] bs by (auto simp: end_offset_length [OF ok])
  have "position_of_any_chars whitespaces v = position_none" using whitespace_position [OF ok bs] none by simp
  then show ?thesis
    using w first_byte(1) [OF ok bs]
    by (simp add: spec parse_command_def Let_def pos_bool_def position_none_def view_end_def slice_from_second [OF ok bs]
        parse_command_type_word)
qed

lemma parse_command_argument:
  assumes ok: "view_ok v" and bs: "view_bytes v = byte_of_char (CHR ''/'') # bs" and some: "find_index is_space bs = Some i"
  shows "parse_command v = Some (Inr (command_spec (view_bytes v)))"
proof -
  let ?ns = "\<lambda>x. \<not> is_space x"
  have i: "i = length (takeWhile ?ns bs)" and d: "dropWhile ?ns bs \<noteq> []"
    using some by (auto simp: find_index_dropWhile split: if_splits)
  have il: "i < length bs" using find_index_Some [OF some] by simp
  have pos: "position_of_any_chars whitespaces v = position_at (m_begin_offset v + of_nat (Suc i))"
    using whitespace_position [OF ok bs] some by simp
  obtain w where w: "view_slice v \<lparr>range_begin = m_begin_offset v + 1,
        range_end = m_begin_offset v + of_nat (Suc i)\<rparr> = Inr w"
      "view_ok w" "view_bytes w = take i bs"
    using view_cut [OF ok, of 1 "Suc i"] bs il by auto
  obtain u where u: "view_slice v \<lparr>range_begin = m_begin_offset v + of_nat (Suc (Suc i)), range_end = end_offset v\<rparr> = Inr u"
      "view_ok u" "view_bytes u = drop (Suc i) bs"
    using view_cut [OF ok, of "Suc (Suc i)" "length (view_bytes v)"] bs il by (auto simp: end_offset_length [OF ok])
  have plus: "pos_plus (position_at (m_begin_offset v + of_nat (Suc i))) 1
      = position_at (m_begin_offset v + of_nat (Suc (Suc i)))"
    by (simp add: position_defs)
  have tw: "takeWhile ?ns bs = take i bs" "tl (dropWhile ?ns bs) = drop (Suc i) bs"
    unfolding i by (metis takeWhile_eq_take) (metis dropWhile_eq_drop drop_Suc tl_drop)
  have spec: "command_spec (view_bytes v) = (command_word (take i bs), trim_spec (drop (Suc i) bs))"
    unfolding command_spec_def bs list.sel tw by simp
  show ?thesis
    unfolding parse_command_def first_byte(1) [OF ok bs] pos Let_def view_end_def plus slice_pos_eq spec
    using w u
    by (simp add: pos_bool_at slice_from_second [OF ok bs] parse_command_type_word to_string_flat trim_correct del: of_nat_Suc)
qed

lemma parse_command_ok:
  assumes ok: "view_ok v" and ne: "view_bytes v \<noteq> []"
  shows "parse_command v = Some (Inr (command_spec (view_bytes v)))"
proof -
  obtain b bs where bs: "view_bytes v = b # bs" using ne by (cases "view_bytes v") auto
  show ?thesis
  proof (cases "b = byte_of_char (CHR ''/'')")
    case False
    then show ?thesis
      using first_byte(1) [OF ok bs] bs by (simp add: parse_command_def command_spec_def to_string_flat [OF ok])
  next
    case True
    then show ?thesis
      using parse_bare_command [OF ok] parse_command_argument [OF ok] bs by (cases "find_index is_space bs") auto
  qed
qed

section \<open>Properties\<close>

text \<open>On every well-formed line, however it is cut into segments, the parser agrees with the reading of
  its flat bytes: a line that starts with a slash gives the command its first word names, in any mix
  of upper and lower case, or the unknown command, with the rest of the line trimmed at both ends as
  its argument; every other line is a message with the line unchanged.  An empty line is refused with
  an out-of-range exception, and no slice the parser takes is ever out of range.\<close>

lemma parse_command_correct:
  assumes "view_ok v"
  shows "parse_command v =
     (if view_bytes v = [] then Some (Inl (std_out_of_range ''index is out of range''))
      else Some (Inr (command_spec (view_bytes v))))"
proof (cases "view_bytes v = []")
  case True
  then have "m_size v = 0" using view_ok_length [OF assms] by (simp add: unat_eq_zero)
  then show ?thesis using True by (simp add: parse_command_def index_at_def)
qed (simp add: parse_command_ok [OF assms])

definition demo_line :: segmented_byte_view where
  "demo_line = view_make [bytes_of ''/N'', bytes_of ''aMe  '', bytes_of ''bob ''] 11"

lemma parse_command_correct_witness:
  "parse_command demo_line = Some (Inr (Name, bytes_of ''bob''))"
proof -
  have "view_ok demo_line" unfolding demo_line_def by (rule view_make_ok) simp_all
  from parse_command_correct [OF this] show ?thesis
    by (simp add: demo_line_def view_make_def view_bytes_def command_spec_def command_word_def trim_spec_def
        is_space_def whitespaces_def byte_of_char_def tolower_def)
qed

end
