(* ===== verification/Sample_Channel.thy ===== *)
theory Sample_Channel
  imports Channel_System Chat_Commands
begin

text \<open>
  \<open>samples/channel.cpp\<close>: two writers and two readers on one channel, and the main thread that joins the
  writers, completes the channel, checks that a further push is refused and joins the readers.  The
  threads are those of the channel's own step relation, numbered 0 and 1 for the writers, 2 and 3 for
  the readers and 4 for \<open>main\<close>; a run restricts them to the calls the program makes.  The barrier at
  the start only delays the first calls.  The push after completion stands inside an \<open>assert\<close>: with \<open>NDEBUG\<close>
  the call is compiled out, and the step that stands for it here changes nothing but the counter of the
  main thread.  Console output is left out.
\<close>

section \<open>The modes\<close>

text \<open>\<open>is_equal_ignore_case\<close> of \<open>utils.h\<close> passes plain \<open>char\<close>s to \<open>std::tolower\<close>: with a signed \<open>char\<close>, every
  byte from 128 on is negative, and but for \<open>EOF\<close> (\<open>-1\<close>) such an argument is undefined behaviour,
  \<open>None\<close> here.  The comparison stops at the first difference.\<close>

definition tolower_char :: "byte \<Rightarrow> byte option" where
  "tolower_char c = (if 128 \<le> c \<and> c \<noteq> 255 then None else Some (tolower c))"

fun equal_chars :: "byte list \<Rightarrow> byte list \<Rightarrow> bool option" where
  "equal_chars (c1 # a) (c2 # b) =
     (case (tolower_char c1, tolower_char c2) of
        (Some l1, Some l2) \<Rightarrow> if l1 = l2 then equal_chars a b else Some False
      | _ \<Rightarrow> None)"
| "equal_chars a b = Some (a = b)"

definition utils_is_equal_ignore_case :: "byte list \<Rightarrow> byte list \<Rightarrow> bool option" where
  "utils_is_equal_ignore_case a b = (if length a \<noteq> length b then Some False else equal_chars a b)"

text \<open>The capacity for the mode on the command line, or \<open>Some None\<close> for a usage error and exit code 1.\<close>

definition channel_mode :: "byte list list \<Rightarrow> size_t option option" where
  "channel_mode argv =
     (if length argv < 2 then Some None
      else
        (let mode = argv ! 1 in
         case utils_is_equal_ignore_case mode (bytes_of ''bounded'') of
           None \<Rightarrow> None
         | Some True \<Rightarrow> Some (Some 500)
         | Some False \<Rightarrow>
             (case utils_is_equal_ignore_case mode (bytes_of ''unbounded'') of
                None \<Rightarrow> None
              | Some True \<Rightarrow> Some (Some 0)
              | Some False \<Rightarrow> Some None)))"

section \<open>The run\<close>

datatype main_pc = M_joining_writers | M_completing | M_joining_readers | M_ended

record 'a channel_run =
  cr_sys :: "'a csys"
  cr_sent :: "nat \<Rightarrow> nat"
  cr_got :: "nat \<Rightarrow> 'a list"
  cr_done :: "nat \<Rightarrow> bool"
  cr_main :: main_pc

abbreviation th :: "'a channel_run \<Rightarrow> nat \<Rightarrow> 'a thread" where
  "th r k \<equiv> cs_threads (cr_sys r) ! k"

text \<open>The turn of a reader: a value is printed and the loop goes on; a call that returns without one
  ends the loop.\<close>

definition reader_turn :: "nat \<Rightarrow> 'a csys \<Rightarrow> 'a channel_run \<Rightarrow> 'a channel_run" where
  "reader_turn k s r =
     (let ys = drop (length (cs_out (cr_sys r))) (cs_out s) in
      r\<lparr>cr_sys := s, cr_got := (cr_got r)(k := cr_got r k @ ys),
        cr_done := (cr_done r)(k := (ys = [] \<and> \<not> in_read_wait (cs_threads s ! k)))\<rparr>)"

text \<open>Steps that belong to a call that is under way.\<close>

fun quiet :: "'a clabel \<Rightarrow> bool" where
  "quiet (C_notify_one i j) \<longleftrightarrow> True"
| "quiet (C_notify_all i) \<longleftrightarrow> True"
| "quiet (C_spurious i) \<longleftrightarrow> True"
| "quiet _ \<longleftrightarrow> False"

text \<open>\<open>n\<close> is the number of values a writer sends and \<open>item i\<close> the \<open>i\<close>-th of them, \<open>TestData(i, i * 0.1f)\<close>.\<close>

inductive channel_run_step :: "nat \<Rightarrow> (nat \<Rightarrow> 'a) \<Rightarrow> 'a channel_run \<Rightarrow> 'a clabel option \<Rightarrow> 'a channel_run \<Rightarrow> bool"
  for n item
where
  run_emplace: "k < 2 \<Longrightarrow> cr_sent r k < n \<Longrightarrow> cstep (cr_sys r) (C_emplace k (item (cr_sent r k))) s \<Longrightarrow>
     channel_run_step n item r (Some (C_emplace k (item (cr_sent r k))))
       (r\<lparr>cr_sys := s, cr_sent := (cr_sent r)(k := Suc (cr_sent r k))\<rparr>)"
| run_read: "k \<in> {2, 3} \<Longrightarrow> \<not> cr_done r k \<Longrightarrow> cstep (cr_sys r) (C_read k) s \<Longrightarrow>
     channel_run_step n item r (Some (C_read k)) (reader_turn k s r)"
| run_resume_writer: "k < 2 \<Longrightarrow> cstep (cr_sys r) (C_resume k) s \<Longrightarrow>
     channel_run_step n item r (Some (C_resume k)) (r\<lparr>cr_sys := s\<rparr>)"
| run_resume_reader: "k \<in> {2, 3} \<Longrightarrow> cstep (cr_sys r) (C_resume k) s \<Longrightarrow>
     channel_run_step n item r (Some (C_resume k)) (reader_turn k s r)"
| run_quiet: "quiet l \<Longrightarrow> cstep (cr_sys r) l s \<Longrightarrow> channel_run_step n item r (Some l) (r\<lparr>cr_sys := s\<rparr>)"
| run_complete: "cr_main r = M_joining_writers \<Longrightarrow> \<forall>k < 2. cr_sent r k = n \<and> fst (th r k) = Idle \<Longrightarrow>
     cstep (cr_sys r) (C_complete 4) s \<Longrightarrow>
     channel_run_step n item r (Some (C_complete 4)) (r\<lparr>cr_sys := s, cr_main := M_completing\<rparr>)"
| run_late: "cr_main r = M_completing \<Longrightarrow> cstep (cr_sys r) (C_emplace 4 (item 0)) s \<Longrightarrow>
     channel_run_step n item r (Some (C_emplace 4 (item 0))) (r\<lparr>cr_sys := s, cr_main := M_joining_readers\<rparr>)"
| run_end: "cr_main r = M_joining_readers \<Longrightarrow> \<forall>k \<in> {2, 3}. cr_done r k \<and> fst (th r k) = Idle \<Longrightarrow>
     channel_run_step n item r None (r\<lparr>cr_main := M_ended\<rparr>)"

definition channel_run_init :: "size_t \<Rightarrow> 'a channel_run \<Rightarrow> bool" where
  "channel_run_init cap r \<longleftrightarrow>
     cs_init cap 5 (cr_sys r) \<and> cr_sent r = (\<lambda>_. 0) \<and> cr_got r = (\<lambda>_. []) \<and> cr_done r = (\<lambda>_. False)
     \<and> cr_main r = M_joining_writers"

section \<open>Shuffles\<close>

lemma shuffles_snoc_left: "zs \<in> shuffles xs ys \<Longrightarrow> zs @ [x] \<in> shuffles (xs @ [x]) ys"
proof (induction xs ys arbitrary: zs rule: shuffles.induct)
  case (1 ys)
  have "ys @ [x] \<in> shuffles [x] ys" by (induction ys) (auto intro: Cons_in_shuffles_rightI)
  with 1 show ?case by simp
next
  case (3 a xs b ys)
  then show ?case by (auto intro: Cons_in_shuffles_leftI Cons_in_shuffles_rightI)
qed auto

lemma shuffles_snoc_right: "zs \<in> shuffles xs ys \<Longrightarrow> zs @ [x] \<in> shuffles xs (ys @ [x])"
  using shuffles_snoc_left [of zs ys xs x] by (simp add: shuffles_commutes)

section \<open>The calls of the threads\<close>

lemma emplace_step:
  assumes "cstep s (C_emplace k x) t \<and> cs_threads s ! k = (Idle, False)
      \<or> cstep s (C_resume k) t \<and> cs_threads s ! k = (Write_woken x, False)"
  obtains pc where "cs_threads t = (cs_threads s)[k := (pc, False)]" and "cs_out t = cs_out s"
    and "ch_writer_completed (cs_chan t) = ch_writer_completed (cs_chan s)"
    and "(pc = Write_blocked x \<and> \<not> ch_writer_completed (cs_chan s) \<and> cs_in t = cs_in s \<and> ch_queue (cs_chan t) = ch_queue (cs_chan s))
      \<or> (pc \<in> {Idle, Notify_reader} \<and> \<not> ch_writer_completed (cs_chan s) \<and> cs_in t = cs_in s @ [x]
          \<and> ch_queue (cs_chan t) = ch_queue (cs_chan s) @ [x])
      \<or> (pc = Idle \<and> ch_writer_completed (cs_chan s) \<and> cs_in t = cs_in s \<and> ch_queue (cs_chan t) = ch_queue (cs_chan s))"
proof -
  have "\<exists>pc. cs_threads t = (cs_threads s)[k := (pc, False)] \<and> cs_out t = cs_out s
    \<and> ch_writer_completed (cs_chan t) = ch_writer_completed (cs_chan s)
    \<and> ((pc = Write_blocked x \<and> \<not> ch_writer_completed (cs_chan s) \<and> cs_in t = cs_in s \<and> ch_queue (cs_chan t) = ch_queue (cs_chan s))
      \<or> (pc \<in> {Idle, Notify_reader} \<and> \<not> ch_writer_completed (cs_chan s) \<and> cs_in t = cs_in s @ [x]
          \<and> ch_queue (cs_chan t) = ch_queue (cs_chan s) @ [x])
      \<or> (pc = Idle \<and> ch_writer_completed (cs_chan s) \<and> cs_in t = cs_in s \<and> ch_queue (cs_chan t) = ch_queue (cs_chan s)))"
    using assms by (auto simp: call_outcomes thread_at_def elim!: cstep_cases split: if_splits)
  then show thesis using that by blast
qed

lemma read_step:
  assumes "cstep s (C_read k) t \<and> cs_threads s ! k = (Idle, False)
      \<or> cstep s (C_resume k) t \<and> cs_threads s ! k = (Read_woken Read, False)"
  obtains pc ys where "cs_threads t = (cs_threads s)[k := (pc, False)]" and "cs_in t = cs_in s"
    and "ch_writer_completed (cs_chan t) = ch_writer_completed (cs_chan s)"
    and "cs_out t = cs_out s @ ys" and "ch_queue (cs_chan s) = ys @ ch_queue (cs_chan t)"
    and "(pc = Read_blocked Read \<and> ys = [] \<and> \<not> ch_writer_completed (cs_chan s))
      \<or> (pc \<in> {Idle, Notify_writer} \<and> length ys = 1)
      \<or> (pc = Idle \<and> ys = [] \<and> ch_writer_completed (cs_chan s) \<and> ch_queue (cs_chan s) = [])"
proof -
  have "\<exists>pc ys. cs_threads t = (cs_threads s)[k := (pc, False)] \<and> cs_in t = cs_in s
    \<and> ch_writer_completed (cs_chan t) = ch_writer_completed (cs_chan s)
    \<and> cs_out t = cs_out s @ ys \<and> ch_queue (cs_chan s) = ys @ ch_queue (cs_chan t)
    \<and> ((pc = Read_blocked Read \<and> ys = [] \<and> \<not> ch_writer_completed (cs_chan s))
      \<or> (pc \<in> {Idle, Notify_writer} \<and> length ys = 1)
      \<or> (pc = Idle \<and> ys = [] \<and> ch_writer_completed (cs_chan s) \<and> ch_queue (cs_chan s) = []))"
    using assms by (cases "ch_queue (cs_chan s)") (auto simp: call_outcomes thread_at_def elim!: cstep_cases split: if_splits)
  then show thesis using that by blast
qed

text \<open>What a notification or a spurious wake-up does to a thread.\<close>

definition settles :: "'a thread \<Rightarrow> 'a thread \<Rightarrow> bool" where
  "settles t t' \<longleftrightarrow>
     t' \<in> {t, wake_reader t, wake_writer t}
     \<or> fst t \<in> {Notify_reader, Notify_writer, Notify_all_writers} \<and> t' = (Idle, snd t)
     \<or> fst t = Notify_all_readers \<and> t' = (Notify_all_writers, snd t)"

lemma settles_intros [simp]:
  "settles t t" "settles t (wake_reader t)" "settles t (wake_writer t)"
  "settles (Notify_reader, st) (Idle, st)" "settles (Notify_writer, st) (Idle, st)"
  "settles (Notify_all_writers, st) (Idle, st)" "settles (Notify_all_readers, st) (Notify_all_writers, st)"
  "settles (Read_blocked k, st) (Read_woken k, st)" "settles (Write_blocked x, st) (Write_woken x, st)"
  by (simp_all add: settles_def)

lemma quiet_step:
  assumes "cstep s l t" and "quiet l"
  shows "cs_chan t = cs_chan s \<and> cs_in t = cs_in s \<and> cs_out t = cs_out s \<and> length (cs_threads t) = length (cs_threads s)
    \<and> (\<forall>k < length (cs_threads s). settles (cs_threads s ! k) (cs_threads t ! k))"
  using assms by (auto simp: thread_at_def nth_list_update elim!: cstep_cases)

section \<open>The invariant\<close>

text \<open>The states a writer that has started \<open>m\<close> calls, a reader and the main thread can be in.\<close>

definition writer_ok :: "(nat \<Rightarrow> 'a) \<Rightarrow> nat \<Rightarrow> 'a thread \<Rightarrow> bool" where
  "writer_ok item m t \<longleftrightarrow>
     t \<in> {(Idle, False), (Notify_reader, False)}
     \<or> 0 < m \<and> t \<in> {(Write_blocked (item (m - 1)), False), (Write_woken (item (m - 1)), False)}"

definition reader_ok :: "'a thread \<Rightarrow> bool" where
  "reader_ok t \<longleftrightarrow> t \<in> {(Idle, False), (Notify_writer, False), (Read_blocked Read, False), (Read_woken Read, False)}"

definition main_ok :: "'a thread \<Rightarrow> bool" where
  "main_ok t \<longleftrightarrow> t \<in> {(Idle, False), (Notify_all_readers, False), (Notify_all_writers, False)}"

lemma settles_ok:
  assumes "settles t t'"
  shows "writer_ok item m t \<Longrightarrow> writer_ok item m t' \<and> in_write_wait t' = in_write_wait t"
    and "reader_ok t \<Longrightarrow> reader_ok t'"
    and "main_ok t \<Longrightarrow> main_ok t'"
    and "t = (Idle, False) \<Longrightarrow> t' = (Idle, False)"
  using assms by (auto simp: settles_def writer_ok_def reader_ok_def main_ok_def)

definition threads_ok :: "(nat \<Rightarrow> 'a) \<Rightarrow> (nat \<Rightarrow> nat) \<Rightarrow> 'a thread list \<Rightarrow> bool" where
  "threads_ok item sent ts \<longleftrightarrow>
     length ts = 5 \<and> (\<forall>k < 2. writer_ok item (sent k) (ts ! k)) \<and> (\<forall>k \<in> {2, 3}. reader_ok (ts ! k)) \<and> main_ok (ts ! 4)"

text \<open>The values of a writer that the channel has accepted: all it has sent, but the one it waits with.\<close>

definition accepted :: "(nat \<Rightarrow> 'a) \<Rightarrow> nat \<Rightarrow> 'a thread \<Rightarrow> 'a list" where
  "accepted item m t = map item [0 ..< m - (if in_write_wait t then 1 else 0)]"

definition delivery_inv :: "nat \<Rightarrow> (nat \<Rightarrow> 'a) \<Rightarrow> 'a channel_run \<Rightarrow> bool" where
  "delivery_inv n item r \<longleftrightarrow>
     (cs_live (cr_sys r) \<and> readers_served (cr_sys r))
     \<and> threads_ok item (cr_sent r) (cs_threads (cr_sys r))
     \<and> (\<forall>k < 2. cr_sent r k \<le> n)
     \<and> cs_in (cr_sys r) \<in> shuffles (accepted item (cr_sent r 0) (th r 0)) (accepted item (cr_sent r 1) (th r 1))
     \<and> cs_out (cr_sys r) \<in> shuffles (cr_got r 2) (cr_got r 3)
     \<and> (ch_writer_completed (cs_chan (cr_sys r)) \<longleftrightarrow> cr_main r \<noteq> M_joining_writers)
     \<and> (cr_main r = M_joining_writers \<longrightarrow> th r 4 = (Idle, False))
     \<and> (cr_main r \<noteq> M_joining_writers \<longrightarrow> (\<forall>k < 2. cr_sent r k = n \<and> th r k = (Idle, False)))
     \<and> (\<forall>k \<in> {2, 3}. cr_done r k \<longrightarrow>
          cr_main r \<noteq> M_joining_writers \<and> ch_queue (cs_chan (cr_sys r)) = [] \<and> th r k = (Idle, False))
     \<and> (cr_main r \<in> {M_joining_readers, M_ended} \<longrightarrow> th r 4 = (Idle, False))
     \<and> (cr_main r = M_ended \<longrightarrow> (\<forall>k \<in> {2, 3}. cr_done r k))"

text \<open>The system below keeps its own invariants.\<close>

lemma run_live:
  assumes "cs_live (cr_sys r) \<and> readers_served (cr_sys r)" and "channel_run_step n item r l r'"
  shows "cs_live (cr_sys r') \<and> readers_served (cr_sys r')"
proof -
  have "cr_sys r' = cr_sys r \<or> (\<exists>l'. cstep (cr_sys r) l' (cr_sys r') \<and> no_wait_to_read l')"
    using assms(2) by (cases rule: channel_run_step.cases)
      (auto simp: reader_turn_def Let_def no_wait_to_read_def elim!: quiet.elims)
  then show ?thesis using served.inv_step assms(1) by metis
qed

lemma writer_turn_inv:
  assumes inv: "delivery_inv n item r" and open_: "cr_main r = M_joining_writers" and k: "k < 2" and m: "0 < m" "m \<le> n"
    and before: "accepted item (cr_sent r k) (th r k) = map item [0 ..< m - 1]"
    and thr: "cs_threads s = (cs_threads (cr_sys r))[k := (pc, False)]" and out: "cs_out s = cs_out (cr_sys r)"
    and compl: "ch_writer_completed (cs_chan s) = ch_writer_completed (cs_chan (cr_sys r))"
    and ends: "pc = Write_blocked (item (m - 1)) \<and> cs_in s = cs_in (cr_sys r)
        \<or> pc \<in> {Idle, Notify_reader} \<and> cs_in s = cs_in (cr_sys r) @ [item (m - 1)]"
    and live: "cs_live s" "readers_served s"
  shows "delivery_inv n item (r\<lparr>cr_sys := s, cr_sent := (cr_sent r)(k := m)\<rparr>)"
proof -
  have len: "length (cs_threads (cr_sys r)) = 5" using inv by (simp add: delivery_inv_def threads_ok_def)
  have after: "accepted item m (pc, False) = (if pc = Write_blocked (item (m - 1)) then map item [0 ..< m - 1]
      else map item [0 ..< m - 1] @ [item (m - 1)])"
    using ends m(1) by (cases m) (auto simp: accepted_def)
  have sh: "cs_in (cr_sys r) \<in> shuffles (accepted item (cr_sent r 0) (th r 0)) (accepted item (cr_sent r 1) (th r 1))"
    using inv by (simp add: delivery_inv_def)
  have k01: "k = 0 \<or> k = 1" using k by auto
  then have "cs_in s \<in> shuffles (accepted item (((cr_sent r)(k := m)) 0) (cs_threads s ! 0))
      (accepted item (((cr_sent r)(k := m)) 1) (cs_threads s ! 1))"
    using ends sh before after by (auto simp: thr len intro: shuffles_snoc_left shuffles_snoc_right)
  moreover have "writer_ok item m (pc, False)" using ends m(1) by (auto simp: writer_ok_def)
  ultimately show ?thesis
    using inv open_ m(2) live k k01 out compl
    by (auto simp: delivery_inv_def threads_ok_def thr len nth_list_update)
qed

lemma reader_turn_inv:
  assumes inv: "delivery_inv n item r" and k: "k \<in> {2, 3}" and open_: "\<not> cr_done r k"
    and step: "cstep (cr_sys r) (C_read k) s \<and> th r k = (Idle, False) \<or> cstep (cr_sys r) (C_resume k) s \<and> th r k = (Read_woken Read, False)"
    and live: "cs_live s" "readers_served s"
  shows "delivery_inv n item (reader_turn k s r)"
proof -
  have len: "length (cs_threads (cr_sys r)) = 5" using inv by (simp add: delivery_inv_def threads_ok_def)
  obtain pc ys where t: "cs_threads s = (cs_threads (cr_sys r))[k := (pc, False)]" "cs_in s = cs_in (cr_sys r)"
      "ch_writer_completed (cs_chan s) = ch_writer_completed (cs_chan (cr_sys r))" "cs_out s = cs_out (cr_sys r) @ ys"
      "ch_queue (cs_chan (cr_sys r)) = ys @ ch_queue (cs_chan s)"
      "(pc = Read_blocked Read \<and> ys = [] \<and> \<not> ch_writer_completed (cs_chan (cr_sys r)))
        \<or> (pc \<in> {Idle, Notify_writer} \<and> length ys = 1)
        \<or> (pc = Idle \<and> ys = [] \<and> ch_writer_completed (cs_chan (cr_sys r)) \<and> ch_queue (cs_chan (cr_sys r)) = [])"
    using read_step [OF step] by metis
  have "cs_out (cr_sys r) \<in> shuffles (cr_got r 2) (cr_got r 3)" using inv by (simp add: delivery_inv_def)
  then have "cs_out s \<in> shuffles (((cr_got r)(k := cr_got r k @ ys)) 2) (((cr_got r)(k := cr_got r k @ ys)) 3)"
    using t(4,6) k by (auto simp: length_Suc_conv intro: shuffles_snoc_left shuffles_snoc_right)
  moreover have "reader_ok (pc, False)" using t(6) by (auto simp: reader_ok_def)
  ultimately show ?thesis
    using inv live k open_ t(2-6)
    by (auto simp: delivery_inv_def threads_ok_def reader_turn_def Let_def t(1) len nth_list_update)
qed

lemma quiet_inv:
  assumes inv: "delivery_inv n item r" and step: "cstep (cr_sys r) l s" "quiet l" and live: "cs_live s" "readers_served s"
  shows "delivery_inv n item (r\<lparr>cr_sys := s\<rparr>)"
proof -
  have th: "threads_ok item (cr_sent r) (cs_threads (cr_sys r))" using inv by (simp add: delivery_inv_def)
  then have len: "length (cs_threads (cr_sys r)) = 5" by (simp add: threads_ok_def)
  have q: "cs_chan s = cs_chan (cr_sys r)" "cs_in s = cs_in (cr_sys r)" "cs_out s = cs_out (cr_sys r)" "length (cs_threads s) = 5"
      "\<And>k. k < 5 \<Longrightarrow> settles (th r k) (cs_threads s ! k)"
    using quiet_step [OF step] len by auto
  have w: "writer_ok item (cr_sent r k) (cs_threads s ! k)" "in_write_wait (cs_threads s ! k) = in_write_wait (th r k)" if "k < 2" for k
    using settles_ok(1) [OF q(5)] th that by (auto simp: threads_ok_def)
  have o: "k \<in> {2, 3} \<Longrightarrow> reader_ok (cs_threads s ! k)" "main_ok (cs_threads s ! 4)" for k
    using settles_ok(2,3) [OF q(5)] th by (auto simp: threads_ok_def)
  have i: "k < 5 \<Longrightarrow> th r k = (Idle, False) \<Longrightarrow> cs_threads s ! k = (Idle, False)" for k
    using settles_ok(4) [OF q(5)] by blast
  have "threads_ok item (cr_sent r) (cs_threads s)" using w(1) o q(4) by (simp add: threads_ok_def)
  moreover have "accepted item m (cs_threads s ! k) = accepted item m (th r k)" if "k < 2" for k m
    using w(2) [OF that] by (simp add: accepted_def)
  ultimately show ?thesis using inv live i by (simp add: delivery_inv_def q(1-3))
qed

lemma joined_inv:
  assumes inv: "delivery_inv n item r" and main: "cr_main r = M_joining_writers"
    and joined: "\<forall>k < 2. cr_sent r k = n \<and> fst (th r k) = Idle"
    and step: "cstep (cr_sys r) (C_complete 4) s" and live: "cs_live s" "readers_served s"
  shows "delivery_inv n item (r\<lparr>cr_sys := s, cr_main := M_completing\<rparr>)"
proof -
  have len: "length (cs_threads (cr_sys r)) = 5" using inv by (simp add: delivery_inv_def threads_ok_def)
  have "\<forall>k < 2. th r k = (Idle, False)"
    using inv joined by (fastforce simp: delivery_inv_def threads_ok_def writer_ok_def)
  moreover have "th r 4 = (Idle, False)" using inv main by (simp add: delivery_inv_def)
  then have "s = (cr_sys r)\<lparr>cs_chan := channel_complete_writer (cs_chan (cr_sys r)),
      cs_threads := (cs_threads (cr_sys r))[4 := (Notify_all_readers, False)]\<rparr>"
    using step by (auto simp: thread_at_def elim!: cstep_cases)
  ultimately show ?thesis
    using inv live joined main
    by (auto simp: delivery_inv_def threads_ok_def len channel_complete_writer_def main_ok_def)
qed

text \<open>After completion the push of the main thread is refused and leaves no trace.\<close>

lemma late_step:
  assumes inv: "delivery_inv n item r" and main: "cr_main r = M_completing" and step: "cstep (cr_sys r) (C_emplace 4 x) s"
  shows "s = cr_sys r \<and> th r 4 = (Idle, False)"
proof -
  have "th r 4 = (Idle, False)" "ch_writer_completed (cs_chan (cr_sys r))"
    using inv main step by (auto simp: delivery_inv_def threads_ok_def main_ok_def thread_at_def elim!: cstep_cases)
  then show ?thesis using step
    by (auto simp: call_outcomes thread_at_def elim!: cstep_cases split: if_splits)
      (metis list_update_id csys.surjective csys.update_convs)
qed

lemma writer_call_inv:
  assumes inv: "delivery_inv n item r" and k: "k < 2" and m: "0 < m" "m \<le> n"
    and step: "cstep (cr_sys r) (C_emplace k (item (m - 1))) s \<and> th r k = (Idle, False) \<and> cr_sent r k = m - 1
      \<or> cstep (cr_sys r) (C_resume k) s \<and> th r k = (Write_woken (item (m - 1)), False) \<and> cr_sent r k = m"
    and live: "cs_live s" "readers_served s"
  shows "delivery_inv n item (r\<lparr>cr_sys := s, cr_sent := (cr_sent r)(k := m)\<rparr>)"
proof -
  have main: "cr_main r = M_joining_writers"
    using inv step k m by (auto simp: delivery_inv_def)
  then have "\<not> ch_writer_completed (cs_chan (cr_sys r))" using inv by (simp add: delivery_inv_def)
  moreover have "accepted item (cr_sent r k) (th r k) = map item [0 ..< m - 1]"
    using step by (auto simp: accepted_def)
  moreover have call: "cstep (cr_sys r) (C_emplace k (item (m - 1))) s \<and> th r k = (Idle, False)
      \<or> cstep (cr_sys r) (C_resume k) s \<and> th r k = (Write_woken (item (m - 1)), False)"
    using step by blast
  obtain pc where pc: "cs_threads s = (cs_threads (cr_sys r))[k := (pc, False)]" "cs_out s = cs_out (cr_sys r)"
      "ch_writer_completed (cs_chan s) = ch_writer_completed (cs_chan (cr_sys r))"
      "pc = Write_blocked (item (m - 1)) \<and> cs_in s = cs_in (cr_sys r)
        \<or> pc \<in> {Idle, Notify_reader} \<and> cs_in s = cs_in (cr_sys r) @ [item (m - 1)]
        \<or> ch_writer_completed (cs_chan (cr_sys r))"
    by (rule emplace_step [OF call]) blast
  ultimately show ?thesis using writer_turn_inv [OF inv main k m] live by metis
qed

text \<open>Where the thread of a call is when the call starts or goes on.\<close>

lemma call_thread:
  assumes inv: "delivery_inv n item r"
  shows "k < 2 \<Longrightarrow> cstep (cr_sys r) (C_emplace k x) s \<Longrightarrow> th r k = (Idle, False)"
    and "k \<in> {2, 3} \<Longrightarrow> cstep (cr_sys r) (C_read k) s \<Longrightarrow> th r k = (Idle, False)"
    and "k < 2 \<Longrightarrow> cstep (cr_sys r) (C_resume k) s \<Longrightarrow>
      th r k = (Write_woken (item (cr_sent r k - 1)), False) \<and> 0 < cr_sent r k"
    and "k \<in> {2, 3} \<Longrightarrow> cstep (cr_sys r) (C_resume k) s \<Longrightarrow> th r k = (Read_woken Read, False) \<and> \<not> cr_done r k"
proof -
  have ok: "k < 2 \<Longrightarrow> writer_ok item (cr_sent r k) (th r k)" "k \<in> {2, 3} \<Longrightarrow> reader_ok (th r k)"
    using inv by (auto simp: delivery_inv_def threads_ok_def)
  show "k < 2 \<Longrightarrow> cstep (cr_sys r) (C_emplace k x) s \<Longrightarrow> th r k = (Idle, False)"
    and "k < 2 \<Longrightarrow> cstep (cr_sys r) (C_resume k) s \<Longrightarrow>
      th r k = (Write_woken (item (cr_sent r k - 1)), False) \<and> 0 < cr_sent r k"
    using ok(1) by (auto simp: writer_ok_def thread_at_def elim!: cstep_cases)
  show "k \<in> {2, 3} \<Longrightarrow> cstep (cr_sys r) (C_read k) s \<Longrightarrow> th r k = (Idle, False)"
    using ok(2) by (auto simp: reader_ok_def thread_at_def elim!: cstep_cases)
  show "th r k = (Read_woken Read, False) \<and> \<not> cr_done r k" if k: "k \<in> {2, 3}" and "cstep (cr_sys r) (C_resume k) s"
  proof -
    have "th r k = (Read_woken Read, False)" using ok(2) that by (auto simp: reader_ok_def thread_at_def elim!: cstep_cases)
    moreover have "cr_done r k \<longrightarrow> th r k = (Idle, False)" using inv k by (auto simp: delivery_inv_def)
    ultimately show ?thesis by auto
  qed
qed

lemma delivery_step:
  assumes inv: "delivery_inv n item r" and step: "channel_run_step n item r l r'"
  shows "delivery_inv n item r'"
proof -
  have live: "cs_live (cr_sys r')" "readers_served (cr_sys r')"
    using run_live [OF _ step] inv by (simp_all add: delivery_inv_def)
  have sent: "k < 2 \<Longrightarrow> cr_sent r k \<le> n" for k using inv by (simp add: delivery_inv_def)
  note at = call_thread [OF inv]
  from step show ?thesis
  proof (cases rule: channel_run_step.cases)
    case (run_emplace k s)
    then show ?thesis using writer_call_inv [OF inv run_emplace(3), of "Suc (cr_sent r k)" s] at(1) live by simp
  next
    case (run_read k s)
    then show ?thesis using reader_turn_inv [OF inv run_read(3,4)] at(2) live by (simp add: reader_turn_def Let_def)
  next
    case (run_resume_writer k s)
    moreover have "r' = r\<lparr>cr_sys := s, cr_sent := (cr_sent r)(k := cr_sent r k)\<rparr>" using run_resume_writer(2) by simp
    ultimately show ?thesis
      using writer_call_inv [OF inv run_resume_writer(3), of "cr_sent r k" s] at(3) sent live by auto
  next
    case (run_resume_reader k s)
    then show ?thesis
      using reader_turn_inv [OF inv run_resume_reader(3)] at(4) live by (simp add: reader_turn_def Let_def)
  next
    case (run_quiet l s)
    then show ?thesis using quiet_inv [OF inv run_quiet(4,3)] live by simp
  next
    case (run_complete s)
    then show ?thesis using joined_inv [OF inv run_complete(3-5)] live by simp
  next
    case (run_late s)
    then have "s = cr_sys r" "th r 4 = (Idle, False)" using late_step [OF inv run_late(3,4)] by auto
    then show ?thesis using run_late inv by (auto simp: delivery_inv_def)
  next
    case run_end
    then show ?thesis using inv by (auto simp: delivery_inv_def)
  qed
qed

lemma delivery_init: "channel_run_init cap r \<Longrightarrow> delivery_inv n item r"
  using init_live [of cap 5 "cr_sys r"]
  by (auto simp: channel_run_init_def delivery_inv_def cs_init_def threads_ok_def writer_ok_def reader_ok_def main_ok_def
      channel_make_def accepted_def)

interpretation delivery: inductive_invariant "channel_run_init cap" "channel_run_step n item" "\<lambda>_. True" "delivery_inv n item"
  for cap n item
  by unfold_locales (auto intro: delivery_init delivery_step)

section \<open>Progress\<close>

lemma call_exists:
  assumes "thread_at s k (Idle, st)"
  shows "\<exists>t. cstep s (C_emplace k x) t" "\<exists>t. cstep s (C_read k) t" "\<exists>t. cstep s (C_complete k) t"
  using assms by (auto intro: cs_emplace cs_read cs_complete)

lemma resume_exists:
  "thread_at s k (Read_woken j, st) \<Longrightarrow> \<exists>t. cstep s (C_resume k) t"
  "thread_at s k (Write_woken x, st) \<Longrightarrow> \<exists>t. cstep s (C_resume k) t"
  by (cases j) (auto intro: cs_resume_read cs_resume_wait cs_resume_emplace)

fun notifies :: "'a thread \<Rightarrow> bool" where
  "notifies (p, st) \<longleftrightarrow> p \<in> {Notify_reader, Notify_writer, Notify_all_readers, Notify_all_writers}"

fun is_spurious :: "'a clabel option \<Rightarrow> bool" where
  "is_spurious (Some (C_spurious i)) \<longleftrightarrow> True"
| "is_spurious _ \<longleftrightarrow> False"

definition can_notify :: "'a csys \<Rightarrow> bool" where
  "can_notify s \<longleftrightarrow> (\<exists>l t. cstep s l t \<and> quiet l \<and> \<not> is_spurious (Some l))"

lemma can_notifyI: "cstep s l t \<Longrightarrow> quiet l \<Longrightarrow> \<not> is_spurious (Some l) \<Longrightarrow> can_notify s"
  unfolding can_notify_def by blast

lemma notify_one_exists:
  shows "thread_at s k (Notify_reader, st) \<Longrightarrow> can_notify s" and "thread_at s k (Notify_writer, st) \<Longrightarrow> can_notify s"
proof -
  assume at: "thread_at s k (Notify_reader, st)"
  show "can_notify s"
  proof (cases "\<exists>t \<in> set (cs_threads s). read_blocked t")
    case True
    then obtain j k' st' where "thread_at s j (Read_blocked k', st')"
      by (auto simp: in_set_conv_nth thread_at_def elim!: read_blocked.elims)
    from can_notifyI [OF cs_notify_reader [OF at this]] show ?thesis by simp
  next
    case False
    from can_notifyI [OF cs_notify_no_reader [OF at this]] show ?thesis by simp
  qed
next
  assume at: "thread_at s k (Notify_writer, st)"
  show "can_notify s"
  proof (cases "\<exists>t \<in> set (cs_threads s). write_blocked t")
    case True
    then obtain j x st' where "thread_at s j (Write_blocked x, st')"
      by (auto simp: in_set_conv_nth thread_at_def elim!: write_blocked.elims)
    from can_notifyI [OF cs_notify_writer [OF at this]] show ?thesis by simp
  next
    case False
    from can_notifyI [OF cs_notify_no_writer [OF at this]] show ?thesis by simp
  qed
qed

lemma notify_exists:
  assumes "thread_at s k t" and "notifies t"
  shows "can_notify s"
proof -
  obtain p st where t: "t = (p, st)" by (cases t)
  with assms(2) consider "p = Notify_reader" | "p = Notify_writer" | "p = Notify_all_readers" | "p = Notify_all_writers" by auto
  then show ?thesis
    using assms(1) t can_notifyI [OF cs_notify_all_readers [of s k st]] can_notifyI [OF cs_notify_all_writers [of s k st]]
    by cases (auto intro: notify_one_exists)
qed

text \<open>The steps other than spurious wake-ups.\<close>

definition can_move :: "nat \<Rightarrow> (nat \<Rightarrow> 'a) \<Rightarrow> 'a channel_run \<Rightarrow> bool" where
  "can_move n item r \<longleftrightarrow> (\<exists>l r'. channel_run_step n item r l r' \<and> \<not> is_spurious l)"

lemma can_moveI: "channel_run_step n item r l r' \<Longrightarrow> \<not> is_spurious l \<Longrightarrow> can_move n item r"
  unfolding can_move_def by blast

lemma notify_moves: "can_notify (cr_sys r) \<Longrightarrow> can_move n item r"
  unfolding can_notify_def using can_moveI [OF run_quiet] by blast

lemma restless_moves:
  assumes inv: "delivery_inv n item r" and k: "k < 5" and nrest: "\<not> at_rest (th r k)"
  shows "can_move n item r"
proof -
  have at: "thread_at (cr_sys r) k (th r k)" using inv k by (simp add: delivery_inv_def threads_ok_def thread_at_def)
  have "threads_ok item (cr_sent r) (cs_threads (cr_sys r))" using inv by (simp add: delivery_inv_def)
  moreover have "k < 2 \<or> k \<in> {2, 3} \<or> k = 4" using k by auto
  ultimately consider "k < 2" "writer_ok item (cr_sent r k) (th r k)" | "k \<in> {2, 3}" "reader_ok (th r k)" | "main_ok (th r k)"
    unfolding threads_ok_def by blast
  then show ?thesis
  proof cases
    case 1
    then consider "notifies (th r k)" | x where "th r k = (Write_woken x, False)"
      using nrest by (auto simp: writer_ok_def)
    then show ?thesis
      using at notify_moves [OF notify_exists [OF at]] resume_exists(2) [of "cr_sys r" k] can_moveI [OF run_resume_writer [OF 1(1)]]
      by cases (auto, fastforce)
  next
    case 2
    then consider "notifies (th r k)" | "th r k = (Read_woken Read, False)"
      using nrest by (auto simp: reader_ok_def)
    then show ?thesis
      using at notify_moves [OF notify_exists [OF at]] resume_exists(1) [of "cr_sys r" k] can_moveI [OF run_resume_reader [OF 2(1)]]
      by cases (auto, fastforce)
  next
    case 3
    then have "notifies (th r k)" using nrest by (auto simp: main_ok_def)
    then show ?thesis using notify_moves [OF notify_exists [OF at]] by blast
  qed
qed

text \<open>When every thread is at rest: the main thread is idle, a reader is idle or the channel is empty and open.\<close>

lemma resting_thread:
  assumes inv: "delivery_inv n item r" and rest: "list_all at_rest (cs_threads (cr_sys r))" and k: "k < 5"
  shows "thread_at (cr_sys r) k (th r k) \<and> at_rest (th r k)"
  using inv rest k by (auto simp: thread_at_def list_all_length delivery_inv_def threads_ok_def)

lemma resting_main:
  assumes inv: "delivery_inv n item r" and rest: "list_all at_rest (cs_threads (cr_sys r))"
  shows "thread_at (cr_sys r) 4 (Idle, False)"
  using resting_thread [OF assms, of 4] inv by (auto simp: delivery_inv_def threads_ok_def main_ok_def)

lemma resting_reader:
  assumes inv: "delivery_inv n item r" and rest: "list_all at_rest (cs_threads (cr_sys r))" and k: "k \<in> {2, 3}"
  shows "thread_at (cr_sys r) k (Idle, False)
    \<or> ch_queue (cs_chan (cr_sys r)) = [] \<and> \<not> ch_writer_completed (cs_chan (cr_sys r))"
proof (cases "read_blocked (th r k)")
  case True
  have live: "cs_live (cr_sys r)" "readers_served (cr_sys r)" and "k < length (cs_threads (cr_sys r))"
    using inv k by (auto simp: delivery_inv_def threads_ok_def)
  from cnt_pos [OF this(3), of read_blocked] True have "0 < cnt read_blocked (cs_threads (cr_sys r))" by simp
  then show ?thesis
    using blocked_at_rest(2) [OF live(1) rest] live(2) at_rest_counts(1) [OF rest] by (auto simp: readers_served_def)
next
  case False
  have "reader_ok (th r k)" "k < 5" using inv k by (auto simp: delivery_inv_def threads_ok_def)
  with False resting_thread [OF inv rest, of k] show ?thesis by (auto simp: reader_ok_def)
qed

lemma reader_moves:
  assumes "thread_at (cr_sys r) k (Idle, False)" and "\<not> cr_done r k" and "k \<in> {2, 3}"
  shows "can_move n item r"
  using call_exists(2) [OF assms(1)] can_moveI [OF run_read [OF assms(3,2)]] by fastforce

lemma blocked_writer_moves:
  assumes inv: "delivery_inv n item r" and rest: "list_all at_rest (cs_threads (cr_sys r))"
    and main: "cr_main r = M_joining_writers" and k: "k < 2" "write_blocked (th r k)"
  shows "can_move n item r"
proof -
  have live: "cs_live (cr_sys r)" and "k < length (cs_threads (cr_sys r))"
    using inv k by (auto simp: delivery_inv_def threads_ok_def)
  from cnt_pos [OF this(2), of write_blocked] k(2) have "0 < cnt write_blocked (cs_threads (cr_sys r))" by simp
  then have "full (cs_chan (cr_sys r))" using blocked_at_rest(1) [OF live rest] by blast
  moreover have "within_capacity (cs_chan (cr_sys r)) (length (ch_queue (cs_chan (cr_sys r))))"
    using live by (simp add: cs_live_def cs_basic_def)
  ultimately have "ch_queue (cs_chan (cr_sys r)) \<noteq> []" using full_iff by (fastforce simp: unat_eq_0)
  then show ?thesis
    using resting_reader [OF inv rest, of 2] reader_moves [of r 2] inv main by (auto simp: delivery_inv_def)
qed

lemma joining_writers_moves:
  assumes inv: "delivery_inv n item r" and rest: "list_all at_rest (cs_threads (cr_sys r))" and main: "cr_main r = M_joining_writers"
  shows "can_move n item r"
proof (cases "\<exists>k < 2. write_blocked (th r k)")
  case False
  have idle: "thread_at (cr_sys r) k (Idle, False)" if k: "k < 2" for k
  proof -
    have "writer_ok item (cr_sent r k) (th r k)" using inv k by (simp add: delivery_inv_def threads_ok_def)
    moreover have "thread_at (cr_sys r) k (th r k)" "at_rest (th r k)" using resting_thread [OF inv rest, of k] k by auto
    ultimately show ?thesis using False k by (auto simp: writer_ok_def)
  qed
  show ?thesis
  proof (cases "\<exists>k < 2. cr_sent r k \<noteq> n")
    case True
    then obtain k where k: "k < 2" "cr_sent r k < n" using inv by (fastforce simp: delivery_inv_def)
    from call_exists(1) [OF idle [OF k(1)]] can_moveI [OF run_emplace [OF k]] show ?thesis by fastforce
  next
    case False
    then have "\<forall>k < 2. cr_sent r k = n \<and> fst (th r k) = Idle" using idle by (auto simp: thread_at_def)
    from call_exists(3) [OF resting_main [OF inv rest]] can_moveI [OF run_complete [OF main this]] show ?thesis by fastforce
  qed
qed (use assms blocked_writer_moves in blast)

lemma resting_moves:
  assumes inv: "delivery_inv n item r" and rest: "list_all at_rest (cs_threads (cr_sys r))" and main: "cr_main r \<noteq> M_ended"
  shows "can_move n item r"
proof (cases "cr_main r")
  case M_completing
  from call_exists(1) [OF resting_main [OF inv rest]] can_moveI [OF run_late [OF this]] show ?thesis by fastforce
next
  case M_joining_readers
  then have reader: "thread_at (cr_sys r) k (Idle, False)" if "k \<in> {2, 3}" for k
    using inv resting_reader [OF inv rest that] by (auto simp: delivery_inv_def)
  show ?thesis
  proof (cases "\<forall>k \<in> {2, 3}. cr_done r k")
    case True
    then have "\<forall>k \<in> {2, 3}. cr_done r k \<and> fst (th r k) = Idle" using reader by (auto simp: thread_at_def)
    from can_moveI [OF run_end [OF M_joining_readers this]] show ?thesis by simp
  next
    case False
    then show ?thesis using reader_moves reader by blast
  qed
qed (use assms joining_writers_moves in auto)

lemma run_progress:
  assumes "delivery_inv n item r" and "cr_main r \<noteq> M_ended"
  shows "can_move n item r"
proof (cases "list_all at_rest (cs_threads (cr_sys r))")
  case False
  then obtain k where "k < 5" "\<not> at_rest (th r k)"
    using assms(1) by (auto simp: list_all_length delivery_inv_def threads_ok_def)
  then show ?thesis using restless_moves [OF assms(1)] by blast
qed (use assms resting_moves in blast)

section \<open>Termination\<close>

text \<open>The work that is left: every step but a spurious wake-up reduces it.\<close>

fun weight :: "'a thread \<Rightarrow> nat" where
  "weight (Idle, st) = 2"
| "weight (Read_blocked k, st) = 1"
| "weight (Read_woken k, st) = 2"
| "weight (Write_blocked x, st) = 1"
| "weight (Write_woken x, st) = 2"
| "weight (Notify_reader, st) = 4"
| "weight (Notify_writer, st) = 4"
| "weight (Notify_all_readers, st) = 16"
| "weight (Notify_all_writers, st) = 9"

definition weights :: "'a thread list \<Rightarrow> nat" where
  "weights ts = sum_list (map weight ts)"

fun main_weight :: "main_pc \<Rightarrow> nat" where
  "main_weight M_joining_writers = 20"
| "main_weight M_completing = 2"
| "main_weight M_joining_readers = 1"
| "main_weight M_ended = 0"

definition work :: "nat \<Rightarrow> 'a channel_run \<Rightarrow> nat" where
  "work n r =
     6 * (2 * n - length (cs_in (cr_sys r))) + 3 * length (ch_queue (cs_chan (cr_sys r)))
     + weights (cs_threads (cr_sys r)) + main_weight (cr_main r)
     + length (filter (\<lambda>k. \<not> cr_done r k) [2, 3])"

lemma weights_update: "k < length ts \<Longrightarrow> weights (ts[k := t]) + weight (ts ! k) = weights ts + weight t"
  by (induction ts arbitrary: k) (auto simp: weights_def split: nat.splits)

lemma weights_wake: "weights (map wake_reader ts) \<le> weights ts + length ts" "weights (map wake_writer ts) \<le> weights ts + length ts"
proof -
  have w: "weight (wake_reader t) \<le> weight t + 1" "weight (wake_writer t) \<le> weight t + 1" for t :: "'a thread"
    by (cases t rule: weight.cases; simp)+
  show "weights (map wake_reader ts) \<le> weights ts + length ts" "weights (map wake_writer ts) \<le> weights ts + length ts"
    by (induction ts) (use w in \<open>auto simp: weights_def intro: order_trans add_mono\<close>)
qed

lemma quiet_weights:
  assumes "cstep s l t" and "quiet l" and len: "length (cs_threads s) = 5"
  shows "if is_spurious (Some l) then weights (cs_threads t) = Suc (weights (cs_threads s))
    else weights (cs_threads t) < weights (cs_threads s)"
  using assms(1)
proof (cases rule: cstep.cases)
  case (cs_notify_reader i st j k st')
  then show ?thesis
    using weights_update [of i "cs_threads s" "(Idle, st)"] weights_update [of j "(cs_threads s)[i := (Idle, st)]" "(Read_woken k, st')"]
    by (auto simp: thread_at_def nth_list_update split: if_splits)
next
  case (cs_notify_writer i st j x st')
  then show ?thesis
    using weights_update [of i "cs_threads s" "(Idle, st)"] weights_update [of j "(cs_threads s)[i := (Idle, st)]" "(Write_woken x, st')"]
    by (auto simp: thread_at_def nth_list_update split: if_splits)
next
  case (cs_notify_all_readers i st)
  then show ?thesis
    using weights_update [of i "map wake_reader (cs_threads s)" "(Notify_all_writers, st)"] weights_wake(1) [of "cs_threads s"] len
    by (auto simp: thread_at_def)
next
  case (cs_notify_all_writers i st)
  then show ?thesis
    using weights_update [of i "map wake_writer (cs_threads s)" "(Idle, st)"] weights_wake(2) [of "cs_threads s"] len
    by (auto simp: thread_at_def)
next
  case (cs_notify_no_reader i st)
  then show ?thesis using weights_update [of i "cs_threads s" "(Idle, st)"] by (auto simp: thread_at_def)
next
  case (cs_notify_no_writer i st)
  then show ?thesis using weights_update [of i "cs_threads s" "(Idle, st)"] by (auto simp: thread_at_def)
next
  case (cs_spurious_reader i k st)
  then show ?thesis using weights_update [of i "cs_threads s" "(Read_woken k, st)"] by (auto simp: thread_at_def)
next
  case (cs_spurious_writer i x st)
  then show ?thesis using weights_update [of i "cs_threads s" "(Write_woken x, st)"] by (auto simp: thread_at_def)
qed (use assms(2) in auto)

lemma accepted_bound:
  assumes "delivery_inv n item r"
  shows "length (cs_in (cr_sys r)) \<le> 2 * n"
proof -
  have "cs_in (cr_sys r) \<in> shuffles (accepted item (cr_sent r 0) (th r 0)) (accepted item (cr_sent r 1) (th r 1))"
    and le: "cr_sent r 0 \<le> n" "cr_sent r 1 \<le> n" using assms by (auto simp: delivery_inv_def)
  from length_shuffles [OF this(1)] le show ?thesis by (simp add: accepted_def)
qed

lemma writer_call_work:
  assumes inv: "delivery_inv n item r" "delivery_inv n item r'" and k: "k < 2"
    and step: "cstep (cr_sys r) (C_emplace k x) s \<and> th r k = (Idle, False)
      \<or> cstep (cr_sys r) (C_resume k) s \<and> th r k = (Write_woken x, False)"
    and compl: "\<not> ch_writer_completed (cs_chan (cr_sys r))"
    and r': "cr_sys r' = s" "cr_main r' = cr_main r" "cr_done r' = cr_done r"
  shows "work n r' < work n r"
proof -
  have len: "k < length (cs_threads (cr_sys r))" using inv(1) k by (simp add: delivery_inv_def threads_ok_def)
  have w: "weight (th r k) = 2" using step by auto
  show ?thesis
    using emplace_step [OF step]
  proof cases
    fix pc
    assume t: "cs_threads s = (cs_threads (cr_sys r))[k := (pc, False)]" and "cs_out s = cs_out (cr_sys r)"
      and "pc = Write_blocked x \<and> \<not> ch_writer_completed (cs_chan (cr_sys r)) \<and> cs_in s = cs_in (cr_sys r)
          \<and> ch_queue (cs_chan s) = ch_queue (cs_chan (cr_sys r))
        \<or> pc \<in> {Idle, Notify_reader} \<and> \<not> ch_writer_completed (cs_chan (cr_sys r)) \<and> cs_in s = cs_in (cr_sys r) @ [x]
          \<and> ch_queue (cs_chan s) = ch_queue (cs_chan (cr_sys r)) @ [x]
        \<or> pc = Idle \<and> ch_writer_completed (cs_chan (cr_sys r)) \<and> cs_in s = cs_in (cr_sys r)
          \<and> ch_queue (cs_chan s) = ch_queue (cs_chan (cr_sys r))"
    then show ?thesis
      using weights_update [OF len, of "(pc, False)"] w compl accepted_bound [OF inv(2)] by (auto simp: work_def r')
  qed
qed

lemma reader_turn_work:
  assumes inv: "delivery_inv n item r" and k: "k \<in> {2, 3}" and open_: "\<not> cr_done r k"
    and step: "cstep (cr_sys r) (C_read k) s \<and> th r k = (Idle, False) \<or> cstep (cr_sys r) (C_resume k) s \<and> th r k = (Read_woken Read, False)"
  shows "work n (reader_turn k s r) < work n r"
proof -
  have len: "k < length (cs_threads (cr_sys r))" using inv k by (auto simp: delivery_inv_def threads_ok_def)
  have w: "weight (th r k) = 2" using step by auto
  obtain pc ys where t: "cs_threads s = (cs_threads (cr_sys r))[k := (pc, False)]" "cs_in s = cs_in (cr_sys r)"
      "cs_out s = cs_out (cr_sys r) @ ys" "ch_queue (cs_chan (cr_sys r)) = ys @ ch_queue (cs_chan s)"
      "(pc = Read_blocked Read \<and> ys = []) \<or> (pc \<in> {Idle, Notify_writer} \<and> length ys = 1) \<or> (pc = Idle \<and> ys = [])"
    by (rule read_step [OF step]) blast
  then show ?thesis
    using k open_ weights_update [OF len, of "(pc, False)"] w
    by (auto simp: work_def reader_turn_def Let_def len nth_list_update)
qed

lemma run_work:
  assumes inv: "delivery_inv n item r" and step: "channel_run_step n item r l r'"
  shows "if is_spurious l then work n r' = Suc (work n r) else work n r' < work n r"
proof -
  note inv' = delivery_step [OF assms]
  note at = call_thread [OF inv]
  have len: "length (cs_threads (cr_sys r)) = 5" using inv by (simp add: delivery_inv_def threads_ok_def)
  from step show ?thesis
  proof (cases rule: channel_run_step.cases)
    case (run_emplace k s)
    moreover from this have "\<not> ch_writer_completed (cs_chan (cr_sys r))" using inv by (auto simp: delivery_inv_def)
    ultimately show ?thesis using writer_call_work [OF inv inv' run_emplace(3)] at(1) [OF run_emplace(3,5)] by simp
  next
    case (run_read k s)
    then show ?thesis using reader_turn_work [OF inv run_read(3,4)] at(2) by simp
  next
    case (run_resume_writer k s)
    moreover from this at(3) have "\<not> ch_writer_completed (cs_chan (cr_sys r))" using inv by (auto simp: delivery_inv_def)
    ultimately show ?thesis using writer_call_work [OF inv inv' run_resume_writer(3)] at(3) [OF run_resume_writer(3,4)] by simp
  next
    case (run_resume_reader k s)
    then show ?thesis using reader_turn_work [OF inv run_resume_reader(3)] at(4) by simp
  next
    case (run_quiet l s)
    then show ?thesis
      using quiet_weights [OF run_quiet(4,3) len] quiet_step [OF run_quiet(4,3)] by (simp add: work_def split: if_splits)
  next
    case (run_complete s)
    moreover from this have "th r 4 = (Idle, False)" using inv by (simp add: delivery_inv_def)
    ultimately show ?thesis
      using weights_update [of 4 "cs_threads (cr_sys r)" "(Notify_all_readers, False)"] len
      by (auto simp: work_def thread_at_def channel_complete_writer_def elim!: cstep_cases)
  next
    case (run_late s)
    then show ?thesis using late_step [OF inv run_late(3,4)] by (simp add: work_def)
  next
    case run_end
    then show ?thesis by (simp add: work_def)
  qed
qed

interpretation channel_ends: bounded_runs "channel_run_init cap" "channel_run_step n item" "delivery_inv n item"
    is_spurious "work n" "\<lambda>r. cr_main r = M_ended"
  for cap n item
  by unfold_locales (use run_work run_progress in \<open>fastforce simp: can_move_def split: if_splits\<close>)+

section \<open>Properties\<close>

text \<open>C28: The channel sample loses nothing and duplicates nothing, for any capacity and any interleaving: what
  the two readers have received is in the order in which the channel delivered it; once the channel is
  completed it has accepted an interleaving of the two writers' full sequences, each in its order, and the
  push after completion is not among them; and when the program ends the queue is empty and the
  readers together hold exactly those values, so that the destructor of the channel drops nothing.\<close>

theorem channel_sample_delivers:
  assumes "reach (channel_run_init cap) (channel_run_step n item) (\<lambda>_. True) r"
  shows "cs_out (cr_sys r) \<in> shuffles (cr_got r 2) (cr_got r 3)
    \<and> (cr_main r \<noteq> M_joining_writers \<longrightarrow>
         cs_in (cr_sys r) \<in> shuffles (map item [0 ..< n]) (map item [0 ..< n]))
    \<and> (cr_main r = M_ended \<longrightarrow>
         ch_queue (cs_chan (cr_sys r)) = [] \<and> channel_destroy (cs_chan (cr_sys r)) = []
         \<and> cs_out (cr_sys r) = cs_in (cr_sys r))"
proof -
  have inv: "delivery_inv n item r" using delivery.reach_inv [OF assms] .
  then have "cs_in (cr_sys r) = cs_out (cr_sys r) @ ch_queue (cs_chan (cr_sys r))"
    by (simp add: delivery_inv_def cs_live_def cs_basic_def)
  with inv show ?thesis by (auto simp: delivery_inv_def accepted_def channel_destroy_def channel_complete_writer_def)
qed

text \<open>C29: The channel sample terminates: whatever the scheduler does, a run from the start takes at most
  \<open>12 n + 32\<close> steps, and two more for each spurious wake-up; and as long as the program has not ended, some
  thread can take a step that is not a spurious wake-up.  So nobody is left waiting.\<close>

theorem channel_sample_terminates:
  assumes "channel_run_init cap r\<^sub>0" and "run (channel_run_step n item) r\<^sub>0 ls r"
  shows "length ls \<le> 12 * n + 32 + 2 * length (filter is_spurious ls)
    \<and> (cr_main r \<noteq> M_ended \<longrightarrow> (\<exists>l r'. channel_run_step n item r l r' \<and> \<not> is_spurious l))"
proof -
  have "work n r\<^sub>0 = 12 * n + 32"
    using assms(1) by (auto simp: channel_run_init_def cs_init_def work_def weights_def channel_make_def sum_list_replicate)
  moreover have inv: "delivery_inv n item r"
    using delivery.run_inv [OF assms(2) delivery_init [OF assms(1)]] by (simp add: list_all_iff)
  ultimately show ?thesis
    using channel_ends.run_bound [OF assms(2) delivery_init [OF assms(1)]] channel_ends.progress [OF inv] by auto
qed

text \<open>A run with one value from each writer.\<close>

definition channel_start :: "nat channel_run" where
  "channel_start =
     \<lparr>cr_sys = \<lparr>cs_chan = channel_make 1, cs_threads = replicate 5 (Idle, False), cs_in = [], cs_out = []\<rparr>,
      cr_sent = (\<lambda>_. 0), cr_got = (\<lambda>_. []), cr_done = (\<lambda>_. False), cr_main = M_joining_writers\<rparr>"

lemma channel_start_init: "channel_run_init 1 channel_start"
  by (simp add: channel_run_init_def cs_init_def channel_start_def)

lemma channel_sample_delivers_witness:
  "\<exists>r :: nat channel_run. reach (channel_run_init 1) (channel_run_step 1 id) (\<lambda>_. True) r \<and> cr_main r = M_ended
     \<and> cs_in (cr_sys r) = [0, 0] \<and> cs_out (cr_sys r) = [0, 0] \<and> length (cr_got r 2) + length (cr_got r 3) = 2"
proof -
  obtain ls r where r: "run (channel_run_step 1 id) channel_start ls r" "cr_main r = M_ended"
    using channel_ends.run_ends [OF delivery_init [OF channel_start_init]] by blast
  have reach: "reach (channel_run_init 1) (channel_run_step 1 id) (\<lambda>_. True) r"
    using reach_run [OF r(1) reach_init] channel_start_init by (simp add: list_all_iff)
  note d = channel_sample_delivers [OF this]
  have "cs_in (cr_sys r) = [0, 0]" "cs_out (cr_sys r) = cs_in (cr_sys r)" using d r(2) by auto
  moreover have "length (cs_out (cr_sys r)) = length (cr_got r 2) + length (cr_got r 3)" using d length_shuffles by blast
  ultimately show ?thesis using reach r(2) by (intro exI [of _ r]) simp
qed

lemma channel_sample_terminates_witness:
  "\<exists>ls r. run (channel_run_step 1 id) channel_start ls r \<and> cr_main r = M_ended
     \<and> length ls \<le> 44 + 2 * length (filter is_spurious ls)"
proof -
  obtain ls r where "run (channel_run_step 1 id) channel_start ls r" "cr_main r = M_ended"
    using channel_ends.run_ends [OF delivery_init [OF channel_start_init]] by blast
  then show ?thesis using channel_sample_terminates [OF channel_start_init] by fastforce
qed

section \<open>The command line\<close>

lemma equal_chars_ascii:
  assumes "\<forall>c \<in> set a \<union> set b. c < 128 \<or> c = 255"
  shows "equal_chars a b = Some (map tolower a = map tolower b)"
  using assms by (induction a b rule: equal_chars.induct) (auto simp: tolower_char_def split: option.splits)

text \<open>On text without negative characters the comparison is the one of the commands parser.\<close>

lemma utils_is_equal_ignore_case_ascii:
  assumes "\<forall>c \<in> set a \<union> set b. c < 128 \<or> c = 255"
  shows "utils_is_equal_ignore_case a b = Some (is_equal_ignore_case a b)"
  using equal_chars_ascii [OF assms] map_eq_imp_length_eq
  by (fastforce simp: utils_is_equal_ignore_case_def is_equal_ignore_case_map)

text \<open>The modes in any letter case, the usage errors, and an argument with undefined behaviour: seven
  bytes that begin with a negative one.\<close>

lemma channel_mode_cases:
  "channel_mode [prog] = Some None"
  "channel_mode [prog, bytes_of ''Bounded''] = Some (Some 500)"
  "channel_mode [prog, bytes_of ''UNBOUNDED''] = Some (Some 0)"
  "channel_mode [prog, bytes_of ''other''] = Some None"
  "channel_mode [prog, 195 # rest] = None \<longleftrightarrow> length rest \<in> {6, 8}"
proof -
  show "channel_mode [prog, 195 # rest] = None \<longleftrightarrow> length rest \<in> {6, 8}"
    by (auto simp: channel_mode_def utils_is_equal_ignore_case_def tolower_char_def bytes_of_def byte_of_char_def Let_def
        split: if_splits)
qed (code_simp)+

end
