(* ===== verification/Chat_Connection.thy ===== *)
theory Chat_Connection
  imports Chat_Commands Text_Format
begin

text \<open>
  \<open>samples/chat/connection_handler.h\<close>: one client of the chat server.  The event loop writes what the
  client sent into a pipeline; a thread of the handler reads it, cuts it into lines and turns every
  line into calls on the server.  The record \<open>chat_connection\<close> holds the members of the class, the
  state of the thread and two histories: the bytes that went through the pipeline (\<open>pipe_sys\<close>) and the
  calls made on the server.  Log output is left out.

  The reference is \<open>session\<close>: the calls that a client's whole input asks for, line by line.
\<close>

section \<open>The messages\<close>

definition carriage_return :: byte where "carriage_return = 0x0D"

text \<open>The symbols in the messages, as their UTF-8 bytes.\<close>

definition warning_sign :: "byte list" where "warning_sign = [0xE2, 0x9A, 0xA0, 0xEF, 0xB8, 0x8F]"
definition info_sign :: "byte list" where "info_sign = [0xE2, 0x84, 0xB9, 0xEF, 0xB8, 0x8F]"
definition megaphone :: "byte list" where "megaphone = [0xF0, 0x9F, 0x93, 0xA3]"
definition speech_bubble :: "byte list" where "speech_bubble = [0xF0, 0x9F, 0x92, 0xAC]"
definition sparkles :: "byte list" where "sparkles = [0xE2, 0x9C, 0xA8]"
definition blossom :: "byte list" where "blossom = [0xF0, 0x9F, 0x8C, 0xB8]"
definition waving_hand :: "byte list" where "waving_hand = [0xF0, 0x9F, 0x91, 0x8B]"

definition UNKNOWN_COMMAND_RESPONSE :: "byte list" where
  "UNKNOWN_COMMAND_RESPONSE =
     bytes_of ''['' @ warning_sign @ bytes_of '': Unknown command. -- Send `/help` to see more options]'' @ [newline]"

definition HELP_RESPONSE :: "byte list" where
  "HELP_RESPONSE =
     [newline]
     @ bytes_of ''['' @ info_sign @ bytes_of '': Use `/help` to see this help message.]'' @ [newline]
     @ bytes_of ''['' @ info_sign @ bytes_of '': Use `/name <your_name>` to change your name.]'' @ [newline]
     @ bytes_of ''['' @ info_sign @ bytes_of '': Use `/quit` to disconnect from the chat.]'' @ [newline]
     @ [newline]"

definition MOTD :: "byte list \<Rightarrow> byte list" where
  "MOTD name =
     [newline]
     @ bytes_of ''['' @ sparkles @ bytes_of '' Welcome `'' @ name @ bytes_of ''`]'' @ [newline]
     @ bytes_of ''['' @ speech_bubble @ bytes_of '' Type a message and press Enter to chat]'' @ [newline]
     @ bytes_of ''['' @ blossom @ bytes_of '' Be kind, have fun, and enjoy your stay]'' @ [newline]
     @ bytes_of ''['' @ info_sign @ bytes_of '': Send `/help` for more information]'' @ [newline]
     @ [newline]"

definition joined_message :: "byte list \<Rightarrow> byte list" where
  "joined_message name =
     bytes_of ''['' @ megaphone @ bytes_of '': `'' @ name @ bytes_of ''` joined the chat! Say hello!]'' @ [newline]"

definition left_message :: "byte list \<Rightarrow> byte list" where
  "left_message name =
     bytes_of ''['' @ megaphone @ bytes_of '': `'' @ name @ bytes_of ''` has left the chat.]'' @ [newline]"

definition chat_message :: "byte list \<Rightarrow> byte list \<Rightarrow> byte list" where
  "chat_message name argument =
     bytes_of ''['' @ speech_bubble @ bytes_of '' '' @ name @ bytes_of '']: '' @ argument @ [newline]"

definition renamed_message :: "byte list \<Rightarrow> byte list \<Rightarrow> byte list" where
  "renamed_message old_name name =
     bytes_of ''['' @ megaphone @ bytes_of '': `'' @ old_name @ bytes_of ''` is now known as `'' @ name
     @ bytes_of ''`]'' @ [newline]"

definition bad_name_message :: "byte list" where
  "bad_name_message = bytes_of ''['' @ warning_sign @ bytes_of '': Name must be between 1 and 32 characters.]'' @ [newline]"

definition bye_message :: "byte list" where
  "bye_message = bytes_of ''['' @ megaphone @ bytes_of '': Disconnecting... Bye! '' @ waving_hand @ bytes_of '']'' @ [newline]"

section \<open>Commands\<close>

text \<open>The calls a handler makes on its server.\<close>

datatype server_call = Reply int "byte list" | Broadcast "byte list" | User_quit int

text \<open>The switch of \<open>process_command\<close>: the calls it makes and the name afterwards.\<close>

fun command_effect :: "int \<Rightarrow> byte list \<Rightarrow> command_type \<times> byte list \<Rightarrow> server_call list \<times> byte list" where
  "command_effect uid name (Message, argument) = ([Broadcast (chat_message name argument)], name)"
| "command_effect uid name (Name, argument) =
     (if argument = [] \<or> length argument > 32 then ([Reply uid bad_name_message], name)
      else ([Broadcast (renamed_message name argument)], argument))"
| "command_effect uid name (Help, argument) = ([Reply uid HELP_RESPONSE], name)"
| "command_effect uid name (Quit, argument) =
     ((if argument \<noteq> [] then [Broadcast (chat_message name argument)] else [])
        @ [Reply uid bye_message, User_quit uid], name)"
| "command_effect uid name (Unknown, argument) = ([Reply uid UNKNOWN_COMMAND_RESPONSE], name)"

definition process_command ::
  "int \<Rightarrow> byte list \<Rightarrow> segmented_byte_view \<Rightarrow> (server_call list \<times> byte list) throws option"
where
  "process_command uid name line_bytes =
     (if view_is_empty line_bytes then Some (Inr ([], name))
      else
        (case parse_command line_bytes of
           None \<Rightarrow> None
         | Some (Inl e) \<Rightarrow> Some (Inl e)
         | Some (Inr cmd) \<Rightarrow> Some (Inr (command_effect uid name cmd))))"

section \<open>The line loop\<close>

text \<open>What the loop does with one line: drop a carriage return at its end and process the rest.\<close>

definition handle_line ::
  "int \<Rightarrow> byte list \<Rightarrow> position \<Rightarrow> segmented_byte_view \<Rightarrow> (server_call list \<times> byte list) throws option"
where
  "handle_line uid name newLine line_bytes =
     (if view_is_empty line_bytes then Some (Inr ([], name))
      else
        (case index_from_end 1 line_bytes of
           None \<Rightarrow> None
         | Some (Inl e) \<Rightarrow> Some (Inl e)
         | Some (Inr b) \<Rightarrow>
             if b = carriage_return then
               (case slice_end (pos_minus newLine 1) line_bytes of
                  Inl e \<Rightarrow> Some (Inl e)
                | Inr stripped \<Rightarrow> process_command uid name stripped)
             else process_command uid name line_bytes))"

text \<open>
  The inner loop of \<open>process_incoming_data\<close>.  \<open>stop i\<close> is what the \<open>i\<close>-th test of the stop token
  answers.  The result is the number of tests made, the calls, the name and what is left of the data
  or the exception.  As a partial function it says nothing of termination: that it returns is proved.
\<close>

partial_function (option) process_lines ::
  "(nat \<Rightarrow> bool) \<Rightarrow> nat \<Rightarrow> int \<Rightarrow> segmented_byte_view \<Rightarrow> byte list \<Rightarrow> server_call list \<Rightarrow>
   (nat \<times> server_call list \<times> byte list \<times> segmented_byte_view throws) option"
where
  "process_lines stop i uid data name calls =
     (let newLine = position_of_char (CHR 0x0A) data in
      if pos_bool newLine then
        if stop i then Some (Suc i, calls, name, Inr data)
        else
          (case slice_end newLine data of
             Inl e \<Rightarrow> Some (Suc i, calls, name, Inl e)
           | Inr line_bytes \<Rightarrow>
               (case handle_line uid name newLine line_bytes of
                  None \<Rightarrow> None
                | Some res \<Rightarrow>
                    (case res of
                       Inl e \<Rightarrow> Some (Suc i, calls, name, Inl e)
                     | Inr (cs, name') \<Rightarrow>
                         (case slice_in_place_pos (pos_plus newLine 1) (view_end data) data of
                            Inl e \<Rightarrow> Some (Suc i, calls @ cs, name', Inl e)
                          | Inr data' \<Rightarrow> process_lines stop (Suc i) uid data' name' (calls @ cs)))))
      else Some (i, calls, name, Inr data))"

section \<open>The handler\<close>

datatype handler_pc = H_reading | H_waiting | H_ended

record chat_connection =
  cn_unique_id :: int
  cn_name :: "byte list"
  cn_closed :: bool
  cn_stop :: bool
  cn_sys :: pipe_sys
  cn_pc :: handler_pc
  cn_calls :: "server_call list"

abbreviation cn_pipe :: "chat_connection \<Rightarrow> pipeline" where
  "cn_pipe c \<equiv> ps_pipe (cn_sys c)"

definition set_pipe :: "pipeline \<Rightarrow> chat_connection \<Rightarrow> chat_connection" where
  "set_pipe p c = c\<lparr>cn_sys := (cn_sys c)\<lparr>ps_pipe := p\<rparr>\<rparr>"

text \<open>The constructor, with the calls it makes on the server, and the name it starts with.\<close>

definition initial_name :: "int \<Rightarrow> byte list" where
  "initial_name uid = bytes_of (int_dec uid)"

definition connection_make :: "int \<Rightarrow> heap \<Rightarrow> (server_call list \<times> chat_connection) throws option" where
  "connection_make uid h =
     (case pipeline_make False default_pipe_options h of
        None \<Rightarrow> None
      | Some (Inl e) \<Rightarrow> Some (Inl e)
      | Some (Inr p) \<Rightarrow>
          (let name = initial_name uid in
           Some (Inr ([Reply uid (MOTD name), Broadcast (joined_message name)],
             \<lparr>cn_unique_id = uid, cn_name = name, cn_closed = False, cn_stop = False,
              cn_sys = \<lparr>ps_pipe = p, ps_in = [], ps_out = []\<rparr>, cn_pc = H_reading, cn_calls = []\<rparr>))))"

definition connection_close :: "chat_connection \<Rightarrow> chat_connection" where
  "connection_close c =
     (if \<not> cn_closed c
      then set_pipe (complete_writer (cn_pipe c)) (c\<lparr>cn_closed := True, cn_stop := True\<rparr>)
      else c)"

text \<open>What \<open>receive_data\<close> starts: nothing once the connection is closed, else a write of the bytes.\<close>

definition connection_receive_data :: "byte list \<Rightarrow> size_t \<Rightarrow> chat_connection \<Rightarrow> write_call option" where
  "connection_receive_data data n c = (if \<not> cn_closed c then Some (writer_write (Some data) n) else None)"

text \<open>The destructor, once the thread has been joined: the call it makes.\<close>

definition connection_destroy :: "chat_connection \<Rightarrow> server_call list \<times> chat_connection" where
  "connection_destroy c = ([Broadcast (left_message (cn_name c))], connection_close c)"

definition handler_finish :: "chat_connection \<Rightarrow> chat_connection" where
  "handler_finish c = set_pipe (complete_reader (cn_pipe c)) (c\<lparr>cn_pc := H_ended\<rparr>)"

text \<open>The body of the outer loop for a read result: the lines, the advance and the exit test.  Every
  exception is caught, logged and ends the thread.\<close>

definition handle_result :: "(nat \<Rightarrow> bool) \<Rightarrow> read_result \<Rightarrow> chat_connection \<Rightarrow> chat_connection option" where
  "handle_result stop r c =
     (if \<not> read_result_bool r then Some (handler_finish c)
      else
        (case process_lines stop 0 (cn_unique_id c) (rr_buffer r) (cn_name c) [] of
           None \<Rightarrow> None
         | Some (i, calls, name, res) \<Rightarrow>
             (let c1 = c\<lparr>cn_name := name, cn_calls := cn_calls c @ calls\<rparr> in
              case res of
                Inl e \<Rightarrow> Some (handler_finish c1)
              | Inr data \<Rightarrow>
                  (case reader_advance_view data (cn_pipe c1) of
                     None \<Rightarrow> None
                   | Some (Inl e) \<Rightarrow> Some (handler_finish c1)
                   | Some (Inr (notify, p)) \<Rightarrow>
                       (let released = take (unat (sequence_offset (view_begin data))) (pipe_bytes (cn_pipe c1));
                            c2 = c1\<lparr>cn_sys := \<lparr>ps_pipe = p, ps_in = ps_in (cn_sys c1), ps_out = ps_out (cn_sys c1) @ released\<rparr>,
                                    cn_pc := H_reading\<rparr>
                        in Some (if rr_completed r \<or> stop i then handler_finish c2 else c2))))))"

definition handle_call :: "(nat \<Rightarrow> bool) \<Rightarrow> read_result call \<Rightarrow> chat_connection \<Rightarrow> chat_connection option" where
  "handle_call stop r c =
     (case r of
        Throws e \<Rightarrow> Some (handler_finish c)
      | Blocks p \<Rightarrow> Some ((set_pipe p c)\<lparr>cn_pc := H_waiting\<rparr>)
      | Returns res p \<Rightarrow> handle_result stop res (set_pipe p c))"

text \<open>One turn of the outer loop from the read on, and its continuation when the wait wakes up.\<close>

definition handler_turn :: "(nat \<Rightarrow> bool) \<Rightarrow> chat_connection \<Rightarrow> chat_connection option" where
  "handler_turn stop c = handle_call stop (reader_read False (cn_pipe c)) c"

definition handler_wake :: "(nat \<Rightarrow> bool) \<Rightarrow> chat_connection \<Rightarrow> chat_connection option" where
  "handler_wake stop c = handle_call stop (read_wait 0 False (cn_pipe c)) c"

section \<open>What a session means\<close>

definition line_spec :: "int \<Rightarrow> byte list \<Rightarrow> byte list \<Rightarrow> server_call list \<times> byte list" where
  "line_spec uid name line =
     (let l = (if line \<noteq> [] \<and> last line = carriage_return then butlast line else line) in
      if l = [] then ([], name) else command_effect uid name (command_spec l))"

text \<open>The calls for every complete line of the input, the name at the end and the unfinished line.\<close>

function session :: "int \<Rightarrow> byte list \<Rightarrow> byte list \<Rightarrow> server_call list \<times> byte list \<times> byte list" where
  "session uid name input =
     (if newline \<in> set input then
        (let line = takeWhile (\<lambda>b. b \<noteq> newline) input;
             rest = tl (dropWhile (\<lambda>b. b \<noteq> newline) input)
         in case line_spec uid name line of (cs, name') \<Rightarrow>
              (case session uid name' rest of (cs', name'', left) \<Rightarrow> (cs @ cs', name'', left)))
      else ([], name, input))"
  by pat_completeness auto
termination
proof (relation "measure (\<lambda>(uid, name, input). length input)", goal_cases)
  case (2 uid name input line rest)
  then have "dropWhile (\<lambda>b. b \<noteq> newline) input \<noteq> []" by (auto simp: dropWhile_eq_Nil_conv)
  then have "length rest < length (dropWhile (\<lambda>b. b \<noteq> newline) input)" using 2(3) by simp
  also have "\<dots> \<le> length input" by (rule length_dropWhile_le)
  finally show ?case by simp
qed simp

declare session.simps [simp del]

lemma session_no_newline: "newline \<notin> set input \<Longrightarrow> session uid name input = ([], name, input)"
  by (subst session.simps) simp

lemma session_line:
  assumes "newline \<notin> set line"
  shows "session uid name (line @ newline # rest) =
     (case line_spec uid name line of (cs, name') \<Rightarrow>
        (case session uid name' rest of (cs', name'', left) \<Rightarrow> (cs @ cs', name'', left)))"
proof -
  have "takeWhile (\<lambda>b. b \<noteq> newline) (line @ newline # rest) = line"
      "dropWhile (\<lambda>b. b \<noteq> newline) (line @ newline # rest) = newline # rest"
    using assms by (auto simp: takeWhile_append dropWhile_append)
  then show ?thesis by (subst session.simps) (simp add: Let_def)
qed

lemma session_append:
  assumes "session uid name xs = (cs, name', [])"
  shows "session uid name (xs @ ys) =
     (case session uid name' ys of (cs', name'', left) \<Rightarrow> (cs @ cs', name'', left))"
  using assms
proof (induction uid name xs arbitrary: cs rule: session.induct)
  case (1 uid name xs)
  show ?case
  proof (cases "newline \<in> set xs")
    case False
    with 1(2) show ?thesis by (simp add: session_no_newline split: prod.split)
  next
    case True
    obtain line rest where xs: "xs = line @ newline # rest" "newline \<notin> set line"
      using split_list_first [OF True] by auto
    obtain c1 n1 where l: "line_spec uid name line = (c1, n1)" by fastforce
    obtain c2 where r: "session uid n1 rest = (c2, name', [])" "cs = c1 @ c2"
      using 1(2) xs l by (auto simp: session_line split: prod.splits)
    have tw: "takeWhile (\<lambda>b. b \<noteq> newline) xs = line" "tl (dropWhile (\<lambda>b. b \<noteq> newline) xs) = rest"
      using xs by (auto simp: takeWhile_append dropWhile_append)
    from 1(1) [OF True refl refl, unfolded tw, OF l [symmetric] r(1)]
    show ?thesis using xs l r by (simp add: session_line split: prod.splits)
  qed
qed

section \<open>The line loop follows the session\<close>

lemma process_command_spec:
  assumes "view_ok v"
  shows "process_command uid name v =
     Some (Inr (if view_bytes v = [] then ([], name) else command_effect uid name (command_spec (view_bytes v))))"
proof -
  have "view_is_empty v \<longleftrightarrow> view_bytes v = []"
    using view_ok_length [OF assms] by (auto simp: view_is_empty_def unat_eq_zero)
  then show ?thesis using parse_command_ok [OF assms] by (simp add: process_command_def)
qed

lemma handle_line_spec:
  assumes ok: "view_ok v" and nl: "newLine = position_at (m_begin_offset v + of_nat (length (view_bytes v)))"
  shows "handle_line uid name newLine v = Some (Inr (line_spec uid name (view_bytes v)))"
proof (cases "view_bytes v = []")
  case True
  then have "m_size v = 0" using view_ok_length [OF ok] by (simp add: unat_eq_zero)
  with True show ?thesis by (simp add: handle_line_def view_is_empty_def line_spec_def)
next
  case False
  let ?n = "length (view_bytes v)"
  have sz: "m_size v \<noteq> 0" "unat (m_size v) = ?n" using False view_ok_length [OF ok] by auto
  then have "(1 :: size_t) \<le> m_size v" using False by (simp add: size_le_iff Suc_leI)
  then have lst: "index_from_end 1 v = Some (Inr (last (view_bytes v)))"
    using index_from_end_ok [OF ok, of 1] sz False by (simp add: last_conv_nth)
  have "pos_minus newLine 1 = position_at (m_begin_offset v + of_nat (?n - 1))"
    using False by (simp add: nl position_defs of_nat_diff Suc_leI)
  moreover obtain w where w: "view_slice v \<lparr>range_begin = m_begin_offset v,
        range_end = m_begin_offset v + of_nat (?n - 1)\<rparr> = Inr w" "view_ok w" "view_bytes w = butlast (view_bytes v)"
    using view_cut [OF ok, of 0 "?n - 1"] by (auto simp: butlast_conv_take)
  ultimately have strip: "slice_end (pos_minus newLine 1) v = Inr w" by (simp add: slice_pos_eq)
  show ?thesis
    using sz(1) lst strip w False
    by (simp add: handle_line_def view_is_empty_def process_command_spec ok line_spec_def Let_def)
qed

text \<open>The loop returns: it makes the calls of the lines it takes off the front, leaves the rest of the
  view, and stops early only when the stop token says so.\<close>

lemma process_lines_spec:
  assumes "view_ok data"
  shows "\<exists>i' cs name' data' pre.
     process_lines stop i uid data name calls = Some (i', calls @ cs, name', Inr data')
     \<and> view_ok data' \<and> view_bytes data = pre @ view_bytes data'
     \<and> m_begin_offset data' = m_begin_offset data + of_nat (length pre)
     \<and> session uid name pre = (cs, name', [])
     \<and> i \<le> i' \<and> (newline \<notin> set (view_bytes data') \<or> (i < i' \<and> stop (i' - 1)))"
  using assms
proof (induction "length (view_bytes data)" arbitrary: data i name calls rule: less_induct)
  case less
  note ok = less.prems
  show ?case
  proof (cases "newline \<in> set (view_bytes data)")
    case False
    then have "process_lines stop i uid data name calls = Some (i, calls, name, Inr data)"
      using no_line [OF ok] by (subst process_lines.simps) (simp add: Let_def)
    with False ok show ?thesis
      by (intro exI [of _ i] exI [of _ "[]"] exI [of _ name] exI [of _ data]) (simp add: session_no_newline)
  next
    case True
    from next_line [OF ok this] obtain pos line rest where
      pos: "position_of_char (CHR 0x0A) data = pos" "pos_bool pos"
        "pos = position_at (m_begin_offset data + of_nat (length (view_bytes line)))"
      and cut: "slice_end pos data = Inr line" "slice_in_place_pos (pos_plus pos 1) (view_end data) data = Inr rest"
      and ln: "view_ok line" "view_ok rest" "m_begin_offset line = m_begin_offset data"
        "m_begin_offset rest = m_begin_offset data + of_nat (Suc (length (view_bytes line)))"
      and bytes: "view_bytes data = view_bytes line @ newline # view_bytes rest" and nnl: "newline \<notin> set (view_bytes line)" .
    obtain c1 n1 where l: "line_spec uid name (view_bytes line) = (c1, n1)" by fastforce
    have "handle_line uid name pos line = Some (Inr (c1, n1))"
      using handle_line_spec [OF ln(1), of pos uid name] pos(3) ln(3) l by simp
    then have step: "process_lines stop i uid data name calls =
        (if stop i then Some (Suc i, calls, name, Inr data)
         else process_lines stop (Suc i) uid rest n1 (calls @ c1))"
      using pos(1,2) cut by (subst process_lines.simps) (simp add: Let_def)
    show ?thesis
    proof (cases "stop i")
      case True
      with step ok show ?thesis
        by (intro exI [of _ "Suc i"] exI [of _ "[]"] exI [of _ name] exI [of _ data]) (simp add: session_no_newline)
    next
      case False
      have "length (view_bytes rest) < length (view_bytes data)" using bytes by simp
      from less.hyps [OF this ln(2), of "Suc i" n1 "calls @ c1"] obtain i' cs name' data' pre where
        IH: "process_lines stop (Suc i) uid rest n1 (calls @ c1) = Some (i', (calls @ c1) @ cs, name', Inr data')"
          "view_ok data'" "view_bytes rest = pre @ view_bytes data'"
          "m_begin_offset data' = m_begin_offset rest + of_nat (length pre)"
          "session uid n1 pre = (cs, name', [])" "Suc i \<le> i'"
          "newline \<notin> set (view_bytes data') \<or> (Suc i < i' \<and> stop (i' - 1))" by blast
      have "session uid name (view_bytes line @ newline # pre) = (c1 @ cs, name', [])"
        using session_line [OF nnl] l IH(5) by simp
      moreover have "m_begin_offset data' = m_begin_offset data + of_nat (length (view_bytes line @ newline # pre))"
        using IH(4) ln(4) by simp
      ultimately show ?thesis
        using step False IH bytes
        by (intro exI [of _ i'] exI [of _ "c1 @ cs"] exI [of _ name'] exI [of _ data']
            exI [of _ "view_bytes line @ newline # pre"]) auto
    qed
  qed
qed

section \<open>The handler and the event loop, interleaved\<close>

text \<open>
  \<open>seen k\<close> are the answers of a stop token from whose \<open>k\<close>-th test on a stop is requested.  The writer
  side of the pipeline runs in the event loop: its critical sections are the write events of the
  pipeline's own step relation, so a blocked write may continue at any later time.
\<close>

definition seen :: "nat option \<Rightarrow> nat \<Rightarrow> bool" where
  "seen k i = (case k of None \<Rightarrow> False | Some n \<Rightarrow> n \<le> i)"

datatype conn_event = Cn_turn "nat option" | Cn_wake "nat option" | Cn_writer pipe_event | Cn_close

inductive conn_step :: "chat_connection \<Rightarrow> conn_event \<Rightarrow> chat_connection \<Rightarrow> bool" where
  cn_turn: "cn_pc c = H_reading \<Longrightarrow> (cn_stop c \<Longrightarrow> k = Some 0) \<Longrightarrow> handler_turn (seen k) c = Some c' \<Longrightarrow>
     conn_step c (Cn_turn k) c'"
| cn_wake: "cn_pc c = H_waiting \<Longrightarrow> (cn_stop c \<Longrightarrow> k = Some 0) \<Longrightarrow> handler_wake (seen k) c = Some c' \<Longrightarrow>
     conn_step c (Cn_wake k) c'"
| cn_writer: "writer_event e \<Longrightarrow> pipe_step (cn_sys c) e s \<Longrightarrow> conn_step c (Cn_writer e) (c\<lparr>cn_sys := s\<rparr>)"
| cn_close: "conn_step c Cn_close (connection_close c)"

inductive_cases conn_step_cases: "conn_step c l c'"

definition conn_init :: "int \<Rightarrow> chat_connection \<Rightarrow> bool" where
  "conn_init uid c \<longleftrightarrow> (\<exists>h calls. heap_ok h \<and> connection_make uid h = Some (Inr (calls, c)))"

text \<open>The handler is between two reads: nothing is pending and what it examined holds no newline.\<close>

definition reader_idle :: "pipeline \<Rightarrow> bool" where
  "reader_idle p \<longleftrightarrow>
     \<not> m_reader_completed p \<and> \<not> m_has_pending_read p
     \<and> newline \<notin> set (take (unat (m_examined_size p)) (pipe_bytes p))"

definition conn_inv :: "int \<Rightarrow> chat_connection \<Rightarrow> bool" where
  "conn_inv uid c \<longleftrightarrow>
     cn_unique_id c = uid \<and> stream_inv (cn_sys c)
     \<and> session uid (initial_name uid) (ps_out (cn_sys c)) = (cn_calls c, cn_name c, [])
     \<and> (cn_pc c \<noteq> H_ended \<longrightarrow> reader_idle (cn_pipe c))"

text \<open>A read result that shows the whole buffer is handled without an exception.\<close>

lemma handle_result_ok:
  assumes ok: "pipe_ok (cn_pipe c)" and pend: "m_has_pending_read (cn_pipe c)" "\<not> m_reader_completed (cn_pipe c)"
    and v: "view_ok v" "m_begin_offset v = 0" "view_bytes v = pipe_bytes (cn_pipe c)"
      "m_pending_read_size (cn_pipe c) = m_size v"
  shows "\<exists>i cs pre p c2.
     handle_result stop \<lparr>rr_buffer = v, rr_completed = w, rr_cancelled = False\<rparr> c
       = Some (if w \<or> stop i then handler_finish c2 else c2)
     \<and> c2 = c\<lparr>cn_name := cn_name c2, cn_calls := cn_calls c @ cs,
          cn_sys := \<lparr>ps_pipe = p, ps_in = ps_in (cn_sys c), ps_out = ps_out (cn_sys c) @ pre\<rparr>,
          cn_pc := H_reading\<rparr>
     \<and> session (cn_unique_id c) (cn_name c) pre = (cs, cn_name c2, [])
     \<and> pipe_bytes (cn_pipe c) = pre @ pipe_bytes p \<and> pipe_ok p
     \<and> (newline \<notin> set (pipe_bytes p) \<or> (0 < i \<and> stop (i - 1)))
     \<and> unat (m_examined_size p) = length (pipe_bytes p)
     \<and> \<not> m_has_pending_read p \<and> \<not> m_reader_completed p
     \<and> m_writer_completed p = m_writer_completed (cn_pipe c)
     \<and> m_writer_paused p = (m_writer_paused (cn_pipe c) \<and> \<not> should_resume_writer p)
     \<and> same_config (cn_pipe c) p
     \<and> (pre = [] \<longrightarrow> m_actual_buffered_size p = m_actual_buffered_size (cn_pipe c))"
proof -
  obtain i cs name' data pre where
    l: "process_lines stop 0 (cn_unique_id c) v (cn_name c) [] = Some (i, [] @ cs, name', Inr data)"
      "view_ok data" "view_bytes v = pre @ view_bytes data"
      "m_begin_offset data = m_begin_offset v + of_nat (length pre)"
      "session (cn_unique_id c) (cn_name c) pre = (cs, name', [])"
      "newline \<notin> set (view_bytes data) \<or> (0 < i \<and> stop (i - 1))"
    using process_lines_spec [OF v(1), of stop 0 "cn_unique_id c" "cn_name c" "[]"] by blast
  have off: "unat (sequence_offset (view_begin data)) = length pre" "sequence_offset (view_end data) = m_size v"
    using rest_offsets [OF v(1,2) l(2,3)] l(4) v(2) by simp_all
  have "pipe_bytes (cn_pipe c) = pre @ view_bytes data" "unat (m_pending_read_size (cn_pipe c)) = length (pipe_bytes (cn_pipe c))"
    using v(3,4) l(3) view_ok_length [OF v(1)] by simp_all
  from advance_upto [OF ok pend this off(1)] off(2) v(4) obtain p where
    p: "reader_advance_view data (cn_pipe c) = Some (Inr (m_writer_paused (cn_pipe c) \<and> \<not> m_writer_paused p, p))"
      "pipe_ok p" "pipe_bytes p = view_bytes data" "unat (m_examined_size p) = length (view_bytes data)"
      "\<not> m_has_pending_read p" "m_writer_paused p = (m_writer_paused (cn_pipe c) \<and> \<not> should_resume_writer p)"
      "\<not> m_reader_completed p" "m_writer_completed p = m_writer_completed (cn_pipe c)" "same_config (cn_pipe c) p"
      "take (unat (sequence_offset (view_begin data))) (pipe_bytes (cn_pipe c)) = pre"
      "pre = [] \<Longrightarrow> m_actual_buffered_size p = m_actual_buffered_size (cn_pipe c)"
    unfolding reader_advance_view_def by metis
  define c2 where "c2 = c\<lparr>cn_name := name', cn_calls := cn_calls c @ cs,
          cn_sys := \<lparr>ps_pipe = p, ps_in = ps_in (cn_sys c), ps_out = ps_out (cn_sys c) @ pre\<rparr>,
          cn_pc := H_reading\<rparr>"
  have "handle_result stop \<lparr>rr_buffer = v, rr_completed = w, rr_cancelled = False\<rparr> c
       = Some (if w \<or> stop i then handler_finish c2 else c2)"
    using l(1) p(1,10) by (simp add: handle_result_def read_result_bool_def Let_def c2_def)
  then show ?thesis
    using l(3,5,6) p(2-9,11) v(3)
    by (intro exI [of _ i] exI [of _ cs] exI [of _ pre] exI [of _ p] exI [of _ c2]) (auto simp: c2_def)
qed

lemma seen_mono: "seen k i \<Longrightarrow> i \<le> j \<Longrightarrow> seen k j"
  by (auto simp: seen_def split: option.splits)

text \<open>A turn or a wake-up of an idle handler returns, and keeps the invariant.\<close>

lemma handle_call_inv:
  assumes inv: "conn_inv uid c" and pc: "cn_pc c \<noteq> H_ended"
    and call: "call = reader_read False (cn_pipe c) \<or> call = read_wait 0 False (cn_pipe c)"
  shows "\<exists>c'. handle_call (seen k) call c = Some c' \<and> conn_inv uid c'
    \<and> (cn_pc c' = H_waiting \<longrightarrow> \<not> data_available 0 (cn_pipe c'))"
proof -
  have ok: "pipe_ok (cn_pipe c)" and idle: "\<not> m_has_pending_read (cn_pipe c)" "\<not> m_reader_completed (cn_pipe c)"
    using inv pc by (auto simp: conn_inv_def stream_inv_def reader_idle_def)
  from read_call_cases [OF ok idle call] show ?thesis
  proof (elim disjE conjE exE)
    fix w
    assume "\<not> data_available 0 (cn_pipe c)" "call = Blocks ((cn_pipe c)\<lparr>m_reader_waiting := w\<rparr>)"
    then show ?thesis
      using inv pc
      by (simp add: handle_call_def set_pipe_def conn_inv_def stream_inv_def reader_idle_def data_available_def)
  next
    fix v p'
    assume c: "call = Returns \<lparr>rr_buffer = v, rr_completed = m_writer_completed (cn_pipe c), rr_cancelled = False\<rparr> p'"
      and v: "view_ok v" "m_begin_offset v = 0" "view_bytes v = pipe_bytes (cn_pipe c)"
      and p': "pipe_ok p'" "pipe_bytes p' = pipe_bytes (cn_pipe c)" "m_has_pending_read p'"
        "m_pending_read_size p' = m_size v" "\<not> m_reader_completed p'"
    let ?c = "set_pipe p' c"
    have cp: "cn_pipe ?c = p'" by (simp add: set_pipe_def)
    obtain i cs pre p c2 where
      r: "handle_result (seen k) \<lparr>rr_buffer = v, rr_completed = m_writer_completed (cn_pipe c), rr_cancelled = False\<rparr> ?c
         = Some (if m_writer_completed (cn_pipe c) \<or> seen k i then handler_finish c2 else c2)"
      "c2 = ?c\<lparr>cn_name := cn_name c2, cn_calls := cn_calls ?c @ cs,
          cn_sys := \<lparr>ps_pipe = p, ps_in = ps_in (cn_sys ?c), ps_out = ps_out (cn_sys ?c) @ pre\<rparr>, cn_pc := H_reading\<rparr>"
      "session (cn_unique_id ?c) (cn_name ?c) pre = (cs, cn_name c2, [])"
      "pipe_bytes (cn_pipe ?c) = pre @ pipe_bytes p" "pipe_ok p"
      "newline \<notin> set (pipe_bytes p) \<or> (0 < i \<and> seen k (i - 1))"
      "unat (m_examined_size p) = length (pipe_bytes p)" "\<not> m_has_pending_read p" "\<not> m_reader_completed p"
      using handle_result_ok [of ?c v "seen k" "m_writer_completed (cn_pipe c)", unfolded cp, OF p'(1,3,5) v(1,2) _ p'(4)]
        v(3) p'(2) unfolding cp by metis
    define s where "s = \<lparr>ps_pipe = p, ps_in = ps_in (cn_sys c), ps_out = ps_out (cn_sys c) @ pre\<rparr>"
    have c2: "cn_sys c2 = s" "cn_calls c2 = cn_calls c @ cs" "cn_pc c2 = H_reading" "cn_unique_id c2 = cn_unique_id c"
      by (subst r(2), simp add: s_def set_pipe_def)+
    have "stream_inv s"
      using inv r(4,5) p'(2) by (simp add: s_def conn_inv_def stream_inv_def cp)
    moreover have "session uid (initial_name uid) (ps_out s) = (cn_calls c2, cn_name c2, [])"
      using inv session_append [of uid "initial_name uid" "ps_out (cn_sys c)" "cn_calls c" "cn_name c" pre] r(3) c2
      by (simp add: s_def conn_inv_def set_pipe_def)
    ultimately have base: "cn_unique_id c2 = uid \<and> stream_inv (cn_sys c2)
        \<and> session uid (initial_name uid) (ps_out (cn_sys c2)) = (cn_calls c2, cn_name c2, [])"
      using inv c2 by (simp add: conn_inv_def)
    have fin: "conn_inv uid (handler_finish c2) \<and> cn_pc (handler_finish c2) = H_ended"
      using base by (simp add: handler_finish_def set_pipe_def conn_inv_def stream_inv_def complete_reader_ok)
    have go: "conn_inv uid c2" if "\<not> seen k i"
    proof -
      have "newline \<notin> set (pipe_bytes p)" using that r(6) seen_mono [of k "i - 1" i] by auto
      then have "reader_idle p" using r(8,9) by (auto simp: reader_idle_def dest: in_set_takeD)
      then show ?thesis using base c2 by (simp add: conn_inv_def s_def)
    qed
    have "handle_call (seen k) call c = Some (if m_writer_completed (cn_pipe c) \<or> seen k i then handler_finish c2 else c2)"
      using r(1) c by (simp add: handle_call_def)
    then show ?thesis using fin go c2(3) by auto
  qed
qed

lemma reader_idle_complete_writer: "reader_idle (complete_writer p) = reader_idle p"
  by (simp add: reader_idle_def complete_writer_def pipe_bytes_def)

lemma conn_step_inv:
  assumes inv: "conn_inv uid c" and step: "conn_step c l c'"
  shows "conn_inv uid c'"
  using step
proof (cases rule: conn_step.cases)
  case (cn_turn k)
  then show ?thesis using handle_call_inv [OF inv, of "reader_read False (cn_pipe c)" k] by (auto simp: handler_turn_def)
next
  case (cn_wake k)
  then show ?thesis using handle_call_inv [OF inv, of "read_wait 0 False (cn_pipe c)" k] by (auto simp: handler_wake_def)
next
  case (cn_writer e s)
  have ok: "stream_inv (cn_sys c)" "pipe_ok (cn_pipe c)" using inv by (auto simp: conn_inv_def stream_inv_def)
  obtain xs where w: "same_frame (cn_pipe c) (ps_pipe s)" "ps_out s = ps_out (cn_sys c)"
      "pipe_bytes (ps_pipe s) = pipe_bytes (cn_pipe c) @ xs"
    using writer_step_frame [OF cn_writer(4,3) ok(2)] by auto
  have "reader_idle (ps_pipe s)" if "reader_idle (cn_pipe c)"
  proof -
    have "unat (m_examined_size (cn_pipe c)) \<le> length (pipe_bytes (cn_pipe c))"
      using ok(2) that by (auto simp: pipe_ok_def reader_ok_def counters_ok_def reader_idle_def)
    then show ?thesis using that w(1,3) by (simp add: reader_idle_def same_frame_def)
  qed
  then show ?thesis
    using inv stream_step [OF ok(1) cn_writer(4)] w(2) cn_writer(2) by (auto simp: conn_inv_def)
next
  case cn_close
  then show ?thesis
    using inv by (simp add: connection_close_def set_pipe_def conn_inv_def stream_inv_def complete_writer_ok
        reader_idle_complete_writer)
qed

interpretation conn: inductive_invariant "conn_init uid" conn_step "\<lambda>_. True" "conn_inv uid" for uid
proof unfold_locales
  fix c
  assume "conn_init uid c"
  then obtain h calls where h: "heap_ok h" "connection_make uid h = Some (Inr (calls, c))"
    by (auto simp: conn_init_def)
  obtain p where p: "pipeline_make False default_pipe_options h = Some (Inr p)" "pipe_ok p" "pipe_bytes p = []"
      "\<not> is_any_completed p" "\<not> m_has_pending_read p"
    using pipeline_make_ok [OF h(1) default_options_ok] by metis
  have "session uid (initial_name uid) [] = ([], initial_name uid, [])" by (simp add: session_no_newline)
  then show "conn_inv uid c"
    using h(2) p
    by (auto simp: connection_make_def Let_def conn_inv_def stream_inv_def reader_idle_def is_any_completed_def)
qed (auto intro: conn_step_inv)

section \<open>Properties\<close>

lemma waiting_no_newline:
  assumes "conn_inv uid c" and "cn_pc c = H_waiting" and "\<not> data_available 0 (cn_pipe c)"
  shows "newline \<notin> set (pipe_bytes (cn_pipe c))"
proof -
  have ok: "pipe_ok (cn_pipe c)" "reader_idle (cn_pipe c)"
    using assms(1,2) by (auto simp: conn_inv_def stream_inv_def)
  then have "unat (m_buffered_size (cn_pipe c)) = length (pipe_bytes (cn_pipe c))"
    by (simp add: pipe_ok_def counters_ok_def reader_idle_def)
  then have "length (pipe_bytes (cn_pipe c)) \<le> unat (m_examined_size (cn_pipe c))"
    using assms(3) by (simp add: data_available_def size_less_iff)
  with ok(2) show ?thesis by (simp add: reader_idle_def)
qed

text \<open>A turn without a stop request on a connection with new data.\<close>

lemma handler_turn_ok:
  assumes ok: "pipe_ok (cn_pipe c)" and idle: "reader_idle (cn_pipe c)"
    and da: "data_available 0 (cn_pipe c)" and wc: "\<not> m_writer_completed (cn_pipe c)"
  shows "\<exists>c' cs pre. handler_turn (\<lambda>_. False) c = Some c' \<and> cn_pc c' = H_reading
    \<and> cn_stop c' = cn_stop c \<and> ps_in (cn_sys c') = ps_in (cn_sys c)
    \<and> pipe_ok (cn_pipe c') \<and> reader_idle (cn_pipe c') \<and> cn_calls c' = cn_calls c @ cs
    \<and> session (cn_unique_id c) (cn_name c) pre = (cs, cn_name c', [])
    \<and> pipe_bytes (cn_pipe c) = pre @ pipe_bytes (cn_pipe c')
    \<and> \<not> data_available 0 (cn_pipe c') \<and> \<not> m_writer_completed (cn_pipe c')
    \<and> m_writer_paused (cn_pipe c') = (m_writer_paused (cn_pipe c) \<and> \<not> should_resume_writer (cn_pipe c'))
    \<and> same_config (cn_pipe c) (cn_pipe c')
    \<and> (pre = [] \<longrightarrow> m_actual_buffered_size (cn_pipe c') = m_actual_buffered_size (cn_pipe c))"
proof -
  have idle': "\<not> m_has_pending_read (cn_pipe c)" "\<not> m_reader_completed (cn_pipe c)"
    using idle by (auto simp: reader_idle_def)
  obtain v p' where c: "reader_read False (cn_pipe c)
        = Returns \<lparr>rr_buffer = v, rr_completed = m_writer_completed (cn_pipe c), rr_cancelled = False\<rparr> p'"
      "view_ok v" "m_begin_offset v = 0" "view_bytes v = pipe_bytes (cn_pipe c)"
      "pipe_ok p'" "pipe_bytes p' = pipe_bytes (cn_pipe c)" "m_has_pending_read p'"
      "m_pending_read_size p' = m_size v" "\<not> m_reader_completed p'"
      "m_writer_paused p' = m_writer_paused (cn_pipe c)" "same_config (cn_pipe c) p'"
      "m_writer_completed p' = m_writer_completed (cn_pipe c)"
      "m_actual_buffered_size p' = m_actual_buffered_size (cn_pipe c)"
    using read_call_cases [OF ok idle', of "reader_read False (cn_pipe c)"] da by blast
  let ?c = "set_pipe p' c"
  have cp: "cn_pipe ?c = p'" by (simp add: set_pipe_def)
  obtain i cs pre p c2 where
    r: "handle_result (\<lambda>_. False) \<lparr>rr_buffer = v, rr_completed = m_writer_completed (cn_pipe c), rr_cancelled = False\<rparr> ?c
       = Some (if m_writer_completed (cn_pipe c) \<or> False then handler_finish c2 else c2)"
    "c2 = ?c\<lparr>cn_name := cn_name c2, cn_calls := cn_calls ?c @ cs,
        cn_sys := \<lparr>ps_pipe = p, ps_in = ps_in (cn_sys ?c), ps_out = ps_out (cn_sys ?c) @ pre\<rparr>, cn_pc := H_reading\<rparr>"
    "session (cn_unique_id ?c) (cn_name ?c) pre = (cs, cn_name c2, [])"
    "pipe_bytes p' = pre @ pipe_bytes p" "pipe_ok p" "newline \<notin> set (pipe_bytes p)"
    "unat (m_examined_size p) = length (pipe_bytes p)" "\<not> m_has_pending_read p" "\<not> m_reader_completed p"
    "m_writer_completed p = m_writer_completed p'"
    "m_writer_paused p = (m_writer_paused p' \<and> \<not> should_resume_writer p)" "same_config p' p"
    "pre = [] \<longrightarrow> m_actual_buffered_size p = m_actual_buffered_size p'"
    using handle_result_ok [of ?c v "\<lambda>_. False" "m_writer_completed (cn_pipe c)", unfolded cp, OF c(5,7,9) c(2,3) _ c(8)]
      c(4,6) by auto
  have c2: "cn_pipe c2 = p" "cn_calls c2 = cn_calls c @ cs" "cn_pc c2 = H_reading" "cn_stop c2 = cn_stop c"
      "ps_in (cn_sys c2) = ps_in (cn_sys c)"
    by (subst r(2), simp add: set_pipe_def)+
  have "unat (m_buffered_size p) = length (pipe_bytes p)" using r(5,9) by (simp add: pipe_ok_def counters_ok_def)
  then have "\<not> data_available 0 p" using r(7,10) c(12) wc by (simp add: data_available_def size_less_iff)
  moreover have "reader_idle p" using r(6,8,9) by (auto simp: reader_idle_def dest: in_set_takeD)
  moreover have "handler_turn (\<lambda>_. False) c = Some c2" using r(1) c(1) wc by (simp add: handler_turn_def handle_call_def)
  moreover have "same_config (cn_pipe c) p" using c(11) r(12) by (simp add: same_config_def)
  ultimately show ?thesis
    using r(3-5,10,11,13) c(6,10,12,13) c2 wc
    by (intro exI [of _ c2] exI [of _ cs] exI [of _ pre]) (simp add: set_pipe_def)
qed


text \<open>C39: A line as long as the pipeline can hold blocks the server.  When the pipeline is full and holds no
  newline, the handler's turn consumes nothing, its next read waits for data that the paused writer
  cannot add, and every write waits for space that the reader does not free.  The writer is the event
  loop of the server, so all clients stand still, and nobody is left to close the connection.\<close>

theorem long_line_blocks_server:
  assumes "reach (conn_init uid) conn_step (\<lambda>_. True) c" and "cn_pc c = H_reading"
    and "data_available 0 (cn_pipe c)" and "\<not> is_any_completed (cn_pipe c)" and "m_writer_paused (cn_pipe c)"
    and "m_pause_writer_threshold (cn_pipe c) \<le> m_actual_buffered_size (cn_pipe c)"
    and "newline \<notin> set (pipe_bytes (cn_pipe c))"
  shows "\<exists>c1 c2. handler_turn (\<lambda>_. False) c = Some c1 \<and> handler_turn (\<lambda>_. False) c1 = Some c2
    \<and> cn_pc c2 = H_waiting \<and> cn_calls c2 = cn_calls c
    \<and> handler_wake (\<lambda>_. False) c2 = Some c2
    \<and> write_section False (\<lambda>_. False) data copied (cn_pipe c2) = Some W_blocks
    \<and> write_wait False (\<lambda>_. False) data copied (cn_pipe c2) = Some W_blocks"
proof -
  have inv: "pipe_ok (cn_pipe c)" "reader_idle (cn_pipe c)"
    using conn.reach_inv [OF assms(1)] assms(2) by (auto simp: conn_inv_def stream_inv_def)
  have wc: "\<not> m_writer_completed (cn_pipe c)" using assms(4) by (simp add: is_any_completed_def)
  obtain c1 cs pre where t: "handler_turn (\<lambda>_. False) c = Some c1" "cn_pc c1 = H_reading"
      "reader_idle (cn_pipe c1)" "cn_calls c1 = cn_calls c @ cs"
      "session (cn_unique_id c) (cn_name c) pre = (cs, cn_name c1, [])"
      "pipe_bytes (cn_pipe c) = pre @ pipe_bytes (cn_pipe c1)"
      "\<not> data_available 0 (cn_pipe c1)" "\<not> m_writer_completed (cn_pipe c1)"
      "m_writer_paused (cn_pipe c1) = (m_writer_paused (cn_pipe c) \<and> \<not> should_resume_writer (cn_pipe c1))"
      "same_config (cn_pipe c) (cn_pipe c1)"
      "pre = [] \<longrightarrow> m_actual_buffered_size (cn_pipe c1) = m_actual_buffered_size (cn_pipe c)"
    using handler_turn_ok [OF inv assms(3) wc] by blast
  have "newline \<notin> set pre" using assms(7) t(6) by auto
  then have pre: "pre = []" "cs = []" using session_no_newline [of pre "cn_unique_id c" "cn_name c"] t(5) by auto
  then have "\<not> should_resume_writer (cn_pipe c1)"
    using t(10,11) assms(6) by (auto simp: should_resume_writer_def same_config_def)
  then have paused: "m_writer_paused (cn_pipe c1)" using t(9) assms(5) by simp
  define p where "p = (cn_pipe c1)\<lparr>m_reader_waiting := True\<rparr>"
  define c2 where "c2 = (set_pipe p c1)\<lparr>cn_pc := H_waiting\<rparr>"
  have idle: "\<not> m_has_pending_read (cn_pipe c1)" "\<not> m_reader_completed (cn_pipe c1)" using t(3) by (auto simp: reader_idle_def)
  have nd: "\<not> data_available 0 p" using t(7) by (simp add: p_def data_available_def)
  have "handler_turn (\<lambda>_. False) c1 = Some c2"
    using idle t(8) nd
    by (simp add: handler_turn_def reader_read_def read_at_least_def read_wait_def handle_call_def c2_def flip: p_def)
  moreover have p2: "cn_pipe c2 = p" by (simp add: c2_def set_pipe_def)
  moreover have "handler_wake (\<lambda>_. False) c2 = Some c2"
    using nd by (simp add: handler_wake_def p2 read_wait_def handle_call_def) (simp add: c2_def set_pipe_def)
  moreover have "write_section False (\<lambda>_. False) data copied p = Some W_blocks"
      "write_wait False (\<lambda>_. False) data copied p = Some W_blocks"
    using paused idle t(8)
    by (simp_all add: p_def write_section_def write_wait_def space_available_def is_any_completed_def)
  moreover have "cn_pc c2 = H_waiting" "cn_calls c2 = cn_calls c" using t(4) pre by (simp_all add: c2_def set_pipe_def)
  ultimately show ?thesis using t(1) by auto
qed

section \<open>A connection in use\<close>

text \<open>A new connection after one write of the event loop.\<close>

lemma fresh_write:
  assumes len: "length data < 2 ^ 64"
  obtains c where "reach (conn_init uid) conn_step (\<lambda>_. True) c" and "cn_pc c = H_reading" and "\<not> cn_stop c"
    and "pipe_ok (cn_pipe c)" and "reader_idle (cn_pipe c)" and "\<not> is_any_completed (cn_pipe c)"
    and "ps_in (cn_sys c) = take 131072 data" and "pipe_bytes (cn_pipe c) = take 131072 data"
    and "m_pause_writer_threshold (cn_pipe c) = 131072" and "m_examined_size (cn_pipe c) = 0"
    and "131072 < length data \<Longrightarrow> m_writer_paused (cn_pipe c)"
proof -
  obtain p where p: "pipeline_make False default_pipe_options heap_empty = Some (Inr p)" "pipe_ok p"
      "pipe_bytes p = []" "\<not> is_any_completed p" "\<not> m_writer_paused p" "\<not> m_has_pending_read p"
      "m_examined_size p = 0" "m_pause_writer_threshold p = opt_pause_writer_threshold default_pipe_options"
      "m_buffer_size p = opt_buffer_size default_pipe_options" "m_actual_buffered_size p = 0" "m_deque p = []"
    using pipeline_make_ok [OF heap_ok_empty default_options_ok] by metis
  have cfg: "m_pause_writer_threshold p = 131072" "m_buffer_size p = 4096"
    using p(8,9) by (simp_all add: default_pipe_options_def)
  have room: "free_room p = 131072" by (simp add: free_room_def p(10,11) cfg)
  define c0 where "c0 = \<lparr>cn_unique_id = uid, cn_name = initial_name uid, cn_closed = False, cn_stop = False,
      cn_sys = \<lparr>ps_pipe = p, ps_in = [], ps_out = []\<rparr>, cn_pc = H_reading, cn_calls = []\<rparr>"
  have "conn_init uid c0"
    using p(1) heap_ok_empty by (auto simp: conn_init_def connection_make_def Let_def c0_def)
  then have r0: "reach (conn_init uid) conn_step (\<lambda>_. True) c0" by (rule reach_init)
  let ?n = "min (length data) 131072"
  have n64: "unat (of_nat ?n :: size_t) = ?n" using len by (simp add: unat_of_nat_size)
  obtain p' where w: "write_section False (\<lambda>_. False) data 0 p =
        Some (W_done (W_unlock (drop ?n data) (of_nat ?n) (0 < ?n \<and> m_reader_waiting p)) p')"
      "pipe_bytes p' = take ?n data" "pipe_ok p'" "same_frame p p'" "?n = length data \<or> m_writer_paused p'"
    using write_turn_ok [OF p(2,4,5), of 0 data] len p(3) room by auto
  define c where "c = c0\<lparr>cn_sys := \<lparr>ps_pipe = p', ps_in = take ?n data, ps_out = []\<rparr>\<rparr>"
  have tk: "take ?n data = take 131072 data" by (simp add: min_def)
  have "pipe_step (cn_sys c0) (Ev_write False (\<lambda>_. False) data 0) (cn_sys c)"
    using step_write [of False "\<lambda>_. False" data 0 "cn_sys c0" _ p'] w(1) len n64
    by (simp add: c0_def c_def)
  then have "conn_step c0 (Cn_writer (Ev_write False (\<lambda>_. False) data 0)) c"
    using cn_writer [of "Ev_write False (\<lambda>_. False) data 0" c0 "cn_sys c"] by (simp add: c_def)
  with r0 have "reach (conn_init uid) conn_step (\<lambda>_. True) c" by (rule reach_step) simp
  moreover have "reader_idle p'" "\<not> is_any_completed p'" "m_pause_writer_threshold p' = 131072" "m_examined_size p' = 0"
    using w(4) p(4,6,7) cfg(1) by (auto simp: reader_idle_def same_frame_def is_any_completed_def)
  ultimately show thesis
    using w(2,3,5) tk by (intro that [of c]) (auto simp: c_def c0_def)
qed


lemma long_line_blocks_server_witness:
  "\<exists>c c2. reach (conn_init 7) conn_step (\<lambda>_. True) c
     \<and> length (ps_in (cn_sys c)) = 131072 \<and> set (ps_in (cn_sys c)) \<subseteq> {65}
     \<and> handler_wake (\<lambda>_. False) c2 = Some c2 \<and> cn_pc c2 = H_waiting
     \<and> write_wait False (\<lambda>_. False) [65] 131072 (cn_pipe c2) = Some W_blocks"
proof -
  obtain n :: nat where n: "n = 131073" by simp
  define data where "data = replicate n (65 :: byte)"
  have data: "length data = 131073" "set data \<subseteq> {65}" using n by (auto simp: data_def)
  let ?line = "take 131072 data"
  have line: "length ?line = 131072" "set ?line \<subseteq> {65}"
    using data by (simp, meson order_trans set_take_subset)
  have "length data < 2 ^ 64" "131072 < length data" using data(1) by simp_all
  from fresh_write [OF this(1), of 7] this(2) obtain c where
    c: "reach (conn_init 7) conn_step (\<lambda>_. True) c" "cn_pc c = H_reading"
      "pipe_ok (cn_pipe c)" "reader_idle (cn_pipe c)" "\<not> is_any_completed (cn_pipe c)"
      "ps_in (cn_sys c) = ?line" "pipe_bytes (cn_pipe c) = ?line"
      "m_pause_writer_threshold (cn_pipe c) = 131072" "m_examined_size (cn_pipe c) = 0"
      "m_writer_paused (cn_pipe c)" by metis
  have cnt: "resource_ok (cn_pipe c)" "counters_ok (cn_pipe c)"
    using c(3,4) by (auto simp: pipe_ok_def reader_idle_def)
  then have "unat (m_buffered_size (cn_pipe c)) = 131072" using c(7) line(1) by (simp add: counters_ok_def)
  then have da: "data_available 0 (cn_pipe c)" using c(9) by (simp add: data_available_def size_less_iff)
  have "length (pipe_bytes (cn_pipe c)) \<le> unat (m_actual_buffered_size (cn_pipe c))"
    using cnt length_segs_bytes [of "m_deque (cn_pipe c)" "m_buffer_size (cn_pipe c)"]
    by (simp add: resource_ok_def segs_ok_def counters_ok_def pipe_bytes_def)
  then have full: "m_pause_writer_threshold (cn_pipe c) \<le> m_actual_buffered_size (cn_pipe c)"
    using c(7) line(1) by (simp add: c(8) size_le_iff)
  have nl: "newline \<notin> set (pipe_bytes (cn_pipe c))" using line(2) by (auto simp: c(7) newline_def)
  from long_line_blocks_server [OF c(1,2) da c(5,10) full nl, of "[65]" 131072] obtain c2 where
    "handler_wake (\<lambda>_. False) c2 = Some c2" "cn_pc c2 = H_waiting"
    "write_wait False (\<lambda>_. False) [65] 131072 (cn_pipe c2) = Some W_blocks" by blast
  with c(1,6) line show ?thesis by metis
qed

end
