(* ===== verification/Chat_Socket.thy ===== *)
theory Chat_Socket
  imports Chat_Connection
begin

text \<open>
  The calls of \<open>samples/chat/server.h\<close> on the operating system: retrying, sending, receiving, the
  listening socket, the epoll set and the constructor.  A system call is a script of the answers it
  gives; after the script the answer is a failure.  Descriptors that are opened, closed, registered
  and removed are recorded as \<open>fd_op\<close>s.  A thrown \<open>std::system_error\<close> is a \<open>std_runtime_error\<close>, its base
  class, with the message it is constructed with.
\<close>

section \<open>Retrying\<close>

text \<open>\<open>retry\<close>: repeat a call while it is interrupted.  \<open>final\<close> is the answer after the script.\<close>

fun retry :: "('a \<Rightarrow> bool) \<Rightarrow> 'a \<Rightarrow> 'a list \<Rightarrow> 'a \<times> 'a list" where
  "retry interrupted final [] = (final, [])"
| "retry interrupted final (a # rest) =
     (if interrupted a then retry interrupted final rest else (a, rest))"

lemma retry_shorter: "retry P d xs = (a, ys) \<Longrightarrow> a \<noteq> d \<Longrightarrow> length ys < length xs"
  by (induction xs) (auto split: if_splits)

lemma retry_not_interrupted: "retry P d xs = (a, ys) \<Longrightarrow> \<not> P d \<Longrightarrow> \<not> P a"
  by (induction xs) (auto split: if_splits)

lemma retry_suffix: "retry P d xs = (a, ys) \<Longrightarrow> \<exists>zs. xs = zs @ ys"
proof (induction xs)
  case (Cons x xs)
  show ?case
  proof (cases "P x")
    case True
    then obtain zs where "xs = zs @ ys" using Cons by auto
    then show ?thesis by (intro exI [of _ "x # zs"]) simp
  next
    case False
    then show ?thesis using Cons.prems by (intro exI [of _ "[x]"]) simp
  qed
qed simp

section \<open>Sending\<close>

datatype io_result = Io nat | Io_interrupted | Io_would_block | Io_error

datatype poll_result = Poll_events "16 word" | Poll_timeout | Poll_interrupted | Poll_error

definition POLLOUT :: "16 word" where "POLLOUT = 0x04"
definition POLLERR :: "16 word" where "POLLERR = 0x08"
definition POLLHUP :: "16 word" where "POLLHUP = 0x10"
definition POLLNVAL :: "16 word" where "POLLNVAL = 0x20"

unbundle bit_operations_syntax

fun poll_writable :: "poll_result \<Rightarrow> bool" where
  "poll_writable (Poll_events revents) \<longleftrightarrow>
     revents AND POLLOUT \<noteq> 0 \<and> \<not> (revents AND (POLLERR OR POLLHUP OR POLLNVAL) \<noteq> 0)"
| "poll_writable _ \<longleftrightarrow> False"

definition wait_writable :: "poll_result list \<Rightarrow> bool \<times> poll_result list" where
  "wait_writable polls =
     (case retry (\<lambda>a. a = Poll_interrupted) Poll_error polls of (result, rest) \<Rightarrow> (poll_writable result, rest))"

text \<open>The loop of \<open>send_data\<close>: whether all was sent, the bytes the socket took, and the answers left.\<close>

function send_loop ::
  "io_result list \<Rightarrow> poll_result list \<Rightarrow> byte list \<Rightarrow> bool \<times> byte list \<times> io_result list \<times> poll_result list"
where
  "send_loop sends polls message =
     (if message = [] then (True, [], sends, polls)
      else
        (case retry (\<lambda>a. a = Io_interrupted) Io_error sends of (result, sends') \<Rightarrow>
           (case result of
              Io n \<Rightarrow>
                if n > 0 then
                  (case send_loop sends' polls (drop n message) of (ok, out, s, p) \<Rightarrow> (ok, take n message @ out, s, p))
                else (False, [], sends', polls)
            | Io_would_block \<Rightarrow>
                (case wait_writable polls of (writable, polls') \<Rightarrow>
                   if writable then send_loop sends' polls' message else (False, [], sends', polls'))
            | _ \<Rightarrow> (False, [], sends', polls))))"
  by pat_completeness auto
termination
proof (relation "measure (\<lambda>(sends, polls, message). length sends)", goal_cases)
  case (2 sends polls message x y n)
  then show ?case using retry_shorter [of _ Io_error sends "Io n" y] by auto
next
  case (3 sends polls message x y z)
  then show ?case using retry_shorter [of _ Io_error sends Io_would_block y] by auto
qed simp

declare send_loop.simps [simp del]

record chat_socket =
  sk_fd :: int
  sk_sends :: "io_result list"
  sk_polls :: "poll_result list"
  sk_sent :: "byte list"

definition send_data :: "byte list \<Rightarrow> chat_socket \<Rightarrow> bool \<times> chat_socket" where
  "send_data message s =
     (if sk_fd s < 0 then (False, s)
      else
        (case send_loop (sk_sends s) (sk_polls s) message of (ok, out, sends, polls) \<Rightarrow>
           (ok, s\<lparr>sk_sends := sends, sk_polls := polls, sk_sent := sk_sent s @ out\<rparr>)))"

section \<open>Receiving\<close>

datatype recv_answer = Rx "byte list" | Rx_interrupted | Rx_would_block | Rx_error

text \<open>
  The loop of \<open>receive_data\<close>.  \<open>fd i\<close> is what the \<open>i\<close>-th load of the descriptor gives, \<open>deliver\<close> the
  handler's \<open>receive_data\<close> (\<open>None\<close> when it blocks).  The result is whether the client is still
  connected, or the exception of the handler.
\<close>

function receive_loop ::
  "(nat \<Rightarrow> int) \<Rightarrow> nat \<Rightarrow> recv_answer list \<Rightarrow> (byte list \<Rightarrow> 'c \<Rightarrow> ('c throws) option) \<Rightarrow> 'c \<Rightarrow> (bool throws \<times> 'c) option"
where
  "receive_loop fd i answers deliver c =
     (if fd i < 0 then Some (Inr False, c)
      else
        (case retry (\<lambda>a. a = Rx_interrupted) Rx_error answers of (result, rest) \<Rightarrow>
           (case result of
              Rx data \<Rightarrow>
                if data \<noteq> [] then
                  (case deliver data c of
                     None \<Rightarrow> None
                   | Some (Inl e) \<Rightarrow> Some (Inl e, c)
                   | Some (Inr c') \<Rightarrow> receive_loop fd (Suc i) rest deliver c')
                else Some (Inr False, c)
            | Rx_would_block \<Rightarrow> Some (Inr True, c)
            | _ \<Rightarrow> Some (Inr False, c))))"
  by pat_completeness auto
termination
proof (relation "measure (\<lambda>(fd, i, answers, deliver, c). length answers)", goal_cases)
  case (2 fd i answers deliver c x y data z c')
  then show ?case using retry_shorter [of _ Rx_error answers "Rx data" y] by auto
qed simp

declare receive_loop.simps [simp del]

text \<open>\<open>enter_pressed\<close>: a read of the standard input.\<close>

definition enter_pressed :: "recv_answer list \<Rightarrow> bool throws" where
  "enter_pressed answers =
     (case fst (retry (\<lambda>a. a = Rx_interrupted) Rx_error answers) of
        Rx data \<Rightarrow> Inr (data \<noteq> [] \<and> newline \<in> set data)
      | _ \<Rightarrow> Inl (std_runtime_error ''failed to read stdin''))"

section \<open>Event flags\<close>

definition EPOLLIN :: "32 word" where "EPOLLIN = 0x001"
definition EPOLLPRI :: "32 word" where "EPOLLPRI = 0x002"
definition EPOLLOUT :: "32 word" where "EPOLLOUT = 0x004"
definition EPOLLERR :: "32 word" where "EPOLLERR = 0x008"
definition EPOLLHUP :: "32 word" where "EPOLLHUP = 0x010"
definition EPOLLRDHUP :: "32 word" where "EPOLLRDHUP = 0x2000"
definition EPOLLONESHOT :: "32 word" where "EPOLLONESHOT = 0x40000000"
definition EPOLLET :: "32 word" where "EPOLLET = 0x80000000"

definition event_flags :: "(32 word \<times> string) list" where
  "event_flags =
     [(EPOLLIN, ''EPOLLIN''), (EPOLLOUT, ''EPOLLOUT''), (EPOLLERR, ''EPOLLERR''), (EPOLLHUP, ''EPOLLHUP''),
      (EPOLLRDHUP, ''EPOLLRDHUP''), (EPOLLPRI, ''EPOLLPRI''), (EPOLLET, ''EPOLLET''), (EPOLLONESHOT, ''EPOLLONESHOT'')]"

fun flags_loop :: "32 word \<Rightarrow> (32 word \<times> string) list \<Rightarrow> string \<Rightarrow> 32 word \<Rightarrow> string \<times> 32 word" where
  "flags_loop events [] result remaining = (result, remaining)"
| "flags_loop events ((flag, name) # flags) result remaining =
     (if events AND flag = 0 then flags_loop events flags result remaining
      else flags_loop events flags ((if result \<noteq> [] then result @ ''|'' else result) @ name) (remaining AND NOT flag))"

text \<open>The format \<open>{:X}\<close>.\<close>

definition hex_digit :: "nat \<Rightarrow> char" where
  "hex_digit n = ''0123456789ABCDEF'' ! n"

fun hex :: "nat \<Rightarrow> string" where
  "hex n = (if n < 16 then [hex_digit n] else hex (n div 16) @ [hex_digit (n mod 16)])"

declare hex.simps [simp del]

definition epoll_events_to_string :: "32 word \<Rightarrow> string" where
  "epoll_events_to_string events =
     (case flags_loop events event_flags [] events of (result, remaining) \<Rightarrow>
        if remaining \<noteq> 0 \<or> result = []
        then (if result \<noteq> [] then result @ ''|'' else result) @ ''0x'' @ hex (unat remaining)
        else result)"

section \<open>The listening socket and the constructor\<close>

datatype fd_op = Open_fd int | Close_fd int | Shutdown_fd int | Epoll_add int | Epoll_del int

text \<open>The answers of the calls that set the server up; negative means failure.\<close>

record setup_answers =
  sa_socket :: int
  sa_setsockopt :: int
  sa_bind :: int
  sa_listen :: int
  sa_epoll_create :: int
  sa_add_listen :: int
  sa_add_stdin :: int

definition opened_fd :: "int \<Rightarrow> fd_op list" where
  "opened_fd fd = (if fd < 0 then [] else [Open_fd fd])"

definition create_listen_socket :: "nat \<Rightarrow> setup_answers \<Rightarrow> fd_op list \<times> int throws" where
  "create_listen_socket port a =
     (let fd = sa_socket a in
      if fd < 0 then ([], Inl (std_runtime_error ''failed to create listen socket''))
      else if sa_setsockopt a < 0 then ([Open_fd fd, Close_fd fd], Inl (std_runtime_error ''failed to set SO_REUSEADDR''))
      else if sa_bind a < 0 then ([Open_fd fd, Close_fd fd], Inl (std_runtime_error (''failed to bind on port '' @ dec port)))
      else if sa_listen a < 0 then ([Open_fd fd, Close_fd fd], Inl (std_runtime_error ''failed to listen''))
      else ([Open_fd fd], Inr fd))"

definition add_to_epoll :: "int \<Rightarrow> int \<Rightarrow> fd_op list \<times> bool" where
  "add_to_epoll answer fd = (if answer < 0 then ([], False) else ([Epoll_add fd], True))"

text \<open>The descriptors part of \<open>cleanup\<close>.\<close>

definition close_server_fds :: "int \<Rightarrow> int \<Rightarrow> fd_op list" where
  "close_server_fds listen_fd epoll_fd =
     (if listen_fd \<ge> 0 then [Close_fd listen_fd] else []) @ (if epoll_fd \<ge> 0 then [Close_fd epoll_fd] else [])"

definition server_setup :: "nat \<Rightarrow> setup_answers \<Rightarrow> fd_op list \<times> (int \<times> int) throws" where
  "server_setup port a =
     (case create_listen_socket port a of
        (ops, Inl e) \<Rightarrow> (ops @ close_server_fds (- 1) (- 1), Inl e)
      | (ops, Inr listen_fd) \<Rightarrow>
          (let epoll_fd = sa_epoll_create a; ops1 = ops @ opened_fd epoll_fd in
           if epoll_fd < 0
           then (ops1 @ close_server_fds listen_fd epoll_fd, Inl (std_runtime_error ''failed to create epoll''))
           else
             (case add_to_epoll (sa_add_listen a) listen_fd of (ops2, ok2) \<Rightarrow>
                if \<not> ok2
                then (ops1 @ ops2 @ close_server_fds listen_fd epoll_fd,
                      Inl (std_runtime_error ''failed to add listen socket to epoll''))
                else
                  (case add_to_epoll (sa_add_stdin a) 0 of (ops3, ok3) \<Rightarrow>
                     if \<not> ok3
                     then (ops1 @ ops2 @ ops3 @ close_server_fds listen_fd epoll_fd,
                           Inl (std_runtime_error ''failed to add stdin to epoll''))
                     else (ops1 @ ops2 @ ops3, Inr (listen_fd, epoll_fd))))))"

section \<open>Sending and receiving are exact\<close>

lemma send_loop_prefix:
  "send_loop sends polls message = (ok, out, s, p) \<Longrightarrow> \<exists>rest. message = out @ rest \<and> (ok \<longleftrightarrow> rest = [])"
proof (induction sends polls message arbitrary: ok out s p rule: send_loop.induct)
  case (1 sends polls message)
  show ?case
  proof (cases "message = []")
    case True
    then show ?thesis using 1(3) by (subst (asm) send_loop.simps) simp
  next
    case ne: False
    obtain r sends' where r: "retry (\<lambda>a. a = Io_interrupted) Io_error sends = (r, sends')" by fastforce
    have stop: "\<exists>rest. message = out @ rest \<and> (ok \<longleftrightarrow> rest = [])" if "out = []" "\<not> ok" using that ne by simp
    show ?thesis
    proof (cases r)
      case (Io n)
      show ?thesis
      proof (cases "n > 0")
        case True
        obtain ok' out' s' p' where rec: "send_loop sends' polls (drop n message) = (ok', out', s', p')"
          by (cases "send_loop sends' polls (drop n message)") auto
        then have "send_loop sends polls message = (ok', take n message @ out', s', p')"
          using ne r Io True by (subst send_loop.simps) simp
        then have "ok = ok'" "out = take n message @ out'" using 1(3) by simp_all
        moreover obtain rest where "drop n message = out' @ rest" "ok' \<longleftrightarrow> rest = []"
          using 1(1) [OF ne r [symmetric] Io True rec] by blast
        ultimately show ?thesis by (metis append.assoc append_take_drop_id)
      next
        case False
        then show ?thesis using 1(3) ne r Io by (subst (asm) send_loop.simps) (auto intro: stop)
      qed
    next
      case Io_would_block
      obtain w polls' where w: "wait_writable polls = (w, polls')" by fastforce
      show ?thesis
      proof (cases w)
        case True
        then have "send_loop sends polls message = send_loop sends' polls' message"
          using ne r w Io_would_block by (subst send_loop.simps) simp
        then have "send_loop sends' polls' message = (ok, out, s, p)" using 1(3) by simp
        then show ?thesis using 1(2) [OF ne r [symmetric] Io_would_block w [symmetric] True] by blast
      next
        case False
        then show ?thesis using 1(3) ne r w Io_would_block by (subst (asm) send_loop.simps) (auto intro: stop)
      qed
    qed (use 1(3) ne r in \<open>subst (asm) send_loop.simps, auto intro: stop\<close>)+
  qed
qed

text \<open>How many answers of a script take bytes, and that none of them ends the loop.\<close>

definition takes_bytes :: "io_result \<Rightarrow> bool" where
  "takes_bytes a \<longleftrightarrow> (case a of Io n \<Rightarrow> n > 0 | _ \<Rightarrow> False)"

definition harmless :: "io_result \<Rightarrow> bool" where
  "harmless a \<longleftrightarrow> takes_bytes a \<or> a = Io_interrupted"

lemma send_loop_completes:
  assumes "list_all harmless sends" and "length message \<le> length (filter takes_bytes sends)"
  shows "fst (send_loop sends polls message)"
  using assms
proof (induction sends arbitrary: message)
  case Nil
  then show ?case by (subst send_loop.simps) simp
next
  case (Cons a sends)
  show ?case
  proof (cases "message = []")
    case True
    then show ?thesis by (subst send_loop.simps) simp
  next
    case ne: False
    show ?thesis
    proof (cases "a = Io_interrupted")
      case True
      then have "fst (send_loop sends polls message)" using Cons by (simp add: takes_bytes_def)
      moreover have "send_loop (a # sends) polls message = send_loop sends polls message"
        using True ne by (subst (1 2) send_loop.simps) simp
      ultimately show ?thesis by simp
    next
      case False
      then obtain n where n: "a = Io n" "n > 0"
        using Cons.prems(1) by (auto simp: harmless_def takes_bytes_def split: io_result.splits)
      have "fst (send_loop sends polls (drop n message))"
        using Cons n by (intro Cons.IH) (auto simp: takes_bytes_def)
      then show ?thesis
        using n ne by (subst send_loop.simps) (auto split: prod.split)
    qed
  qed
qed

text \<open>The chunks that arrive before the first answer that is not data.\<close>

fun chunks :: "recv_answer list \<Rightarrow> byte list list" where
  "chunks [] = []"
| "chunks (Rx data # rest) = (if data = [] then [] else data # chunks rest)"
| "chunks (Rx_interrupted # rest) = chunks rest"
| "chunks (_ # rest) = []"

lemma receive_loop_delivers:
  assumes "\<And>i. fd i \<ge> 0"
  shows "\<exists>alive. receive_loop fd i answers (\<lambda>data c. Some (Inr (f data c))) c
     = Some (Inr alive, fold f (chunks answers) c)"
proof (induction answers arbitrary: i c)
  case Nil
  then show ?case using assms [of i] by (subst receive_loop.simps) auto
next
  case (Cons a answers)
  note nn = assms [of i]
  show ?case
  proof (cases a)
    case (Rx data)
    then show ?thesis using nn Cons [of "Suc i" "f data c"] by (subst receive_loop.simps) auto
  next
    case Rx_interrupted
    then have "receive_loop fd i (a # answers) (\<lambda>data c. Some (Inr (f data c))) c
        = receive_loop fd i answers (\<lambda>data c. Some (Inr (f data c))) c"
      by (subst (1 2) receive_loop.simps) simp
    then show ?thesis using Cons [of i c] Rx_interrupted by simp
  qed (use nn in \<open>subst receive_loop.simps, auto\<close>)+
qed

section \<open>Setting up without a leak\<close>

definition opens :: "fd_op list \<Rightarrow> int list" where
  "opens ops = List.map_filter (\<lambda>ev. case ev of Open_fd fd \<Rightarrow> Some fd | _ \<Rightarrow> None) ops"

definition closes :: "fd_op list \<Rightarrow> int list" where
  "closes ops = List.map_filter (\<lambda>ev. case ev of Close_fd fd \<Rightarrow> Some fd | _ \<Rightarrow> None) ops"

lemma fd_ops_simps [simp]:
  "opens [] = []" "opens (Open_fd fd # ops) = fd # opens ops" "opens (Close_fd fd # ops) = opens ops"
  "opens (Epoll_add fd # ops) = opens ops" "opens (xs @ ys) = opens xs @ opens ys"
  "closes [] = []" "closes (Open_fd fd # ops) = closes ops" "closes (Close_fd fd # ops) = fd # closes ops"
  "closes (Epoll_add fd # ops) = closes ops" "closes (xs @ ys) = closes xs @ closes ys"
  by (simp_all add: opens_def closes_def map_filter_def)

text \<open>The constructor of the server either fails with every descriptor it opened closed again, in
  order and once, or returns its two descriptors open.\<close>

lemma server_setup_no_leak:
  "case server_setup port a of
     (ops, Inl e) \<Rightarrow> closes ops = opens ops
   | (ops, Inr (listen_fd, epoll_fd)) \<Rightarrow>
       opens ops = [listen_fd, epoll_fd] \<and> closes ops = [] \<and> listen_fd \<ge> 0 \<and> epoll_fd \<ge> 0"
  by (simp add: server_setup_def create_listen_socket_def add_to_epoll_def close_server_fds_def opened_fd_def Let_def)

section \<open>Event flags\<close>

fun join :: "string list \<Rightarrow> string" where
  "join [] = []"
| "join (s # ss) = s @ concat (map (\<lambda>t. ''|'' @ t) ss)"

lemma join_snoc: "ss \<noteq> [] \<Longrightarrow> join (ss @ [t]) = join ss @ ''|'' @ t"
  by (cases ss) auto

lemma join_Nil_iff: "[] \<notin> set ss \<Longrightarrow> join ss = [] \<longleftrightarrow> ss = []"
  by (cases ss) auto

definition flag_set :: "32 word \<Rightarrow> 32 word \<times> string \<Rightarrow> bool" where
  "flag_set events f \<longleftrightarrow> events AND fst f \<noteq> 0"

lemma flags_loop_join:
  assumes "[] \<notin> set ss" and "[] \<notin> set (map snd flags)"
  shows "flags_loop events flags (join ss) remaining =
     (join (ss @ map snd (filter (flag_set events) flags)),
      foldl (\<lambda>r f. r AND NOT (fst f)) remaining (filter (flag_set events) flags))"
  using assms
proof (induction flags arbitrary: ss remaining)
  case (Cons f flags)
  obtain m n where f: "f = (m, n)" by fastforce
  have nx: "(if join ss \<noteq> [] then join ss @ ''|'' else join ss) @ n = join (ss @ [n])"
    using join_Nil_iff [OF Cons.prems(1)] join_snoc [of ss n] by auto
  have IH: "flags_loop events flags (join (ss @ [n])) rem =
      (join ((ss @ [n]) @ map snd (filter (flag_set events) flags)),
       foldl (\<lambda>r f. r AND NOT (fst f)) rem (filter (flag_set events) flags))" for rem
    using Cons.prems f by (intro Cons.IH) auto
  show ?case using Cons f nx IH by (auto simp: flag_set_def)
qed simp

text \<open>The text of an event word is the names of its known flags and the other bits in hexadecimal,
  separated by bars.\<close>

lemma epoll_events_to_string_join:
  fixes events :: "32 word"
  defines "known \<equiv> filter (flag_set events) event_flags"
  defines "remaining \<equiv> foldl (\<lambda>r f. r AND NOT (fst f)) events known"
  shows "epoll_events_to_string events =
     join (map snd known @ (if remaining \<noteq> 0 \<or> known = [] then [''0x'' @ hex (unat remaining)] else []))"
proof -
  have ne: "[] \<notin> set (map snd event_flags)" by (simp add: event_flags_def)
  have fl: "flags_loop events event_flags [] events = (join (map snd known), remaining)"
    using flags_loop_join [of "[]" event_flags events events] ne by (simp add: known_def remaining_def)
  have "[] \<notin> set (map snd known)" using ne by (auto simp: known_def)
  from join_Nil_iff [OF this] show ?thesis
    using fl join_snoc [of "map snd known"] by (auto simp: epoll_events_to_string_def)
qed

lemma epoll_text_example: "epoll_events_to_string 0x2011 = ''EPOLLIN|EPOLLHUP|EPOLLRDHUP''"
  by (simp add: epoll_events_to_string_def event_flags_def EPOLLIN_def EPOLLOUT_def EPOLLERR_def EPOLLHUP_def
      EPOLLRDHUP_def EPOLLPRI_def EPOLLET_def EPOLLONESHOT_def)

section \<open>Properties\<close>

text \<open>C27: Sending to a client never reorders, repeats or invents bytes, however the socket splits the message,
  interrupts the call or makes it wait: the socket has taken a prefix of the message, and the call
  reports success exactly when that prefix is the whole message.  Nothing is sent on a closed
  descriptor.  When no answer of the socket is a failure and there are enough of them, the call
  succeeds.\<close>

theorem send_data_correct:
  "case send_data message s of (ok, s') \<Rightarrow>
     if sk_fd s < 0 then \<not> ok \<and> s' = s
     else (\<exists>out rest. sk_sent s' = sk_sent s @ out \<and> message = out @ rest \<and> (ok \<longleftrightarrow> rest = []))
        \<and> sk_fd s' = sk_fd s
        \<and> (list_all harmless (sk_sends s) \<and> length message \<le> length (filter takes_bytes (sk_sends s)) \<longrightarrow> ok)"
proof (cases "sk_fd s < 0")
  case True
  then show ?thesis by (simp add: send_data_def)
next
  case False
  obtain ok out sends polls where l: "send_loop (sk_sends s) (sk_polls s) message = (ok, out, sends, polls)"
    by (cases "send_loop (sk_sends s) (sk_polls s) message") auto
  then show ?thesis
    using send_loop_prefix [OF l] send_loop_completes [of "sk_sends s" message "sk_polls s"] False
    by (auto simp: send_data_def)
qed

definition demo_socket :: chat_socket where
  "demo_socket = \<lparr>sk_fd = 5, sk_sends = [Io 2, Io_would_block, Io_interrupted, Io 1],
     sk_polls = [Poll_interrupted, Poll_events 4], sk_sent = []\<rparr>"

lemma send_data_correct_witness:
  "fst (send_data [1, 2, 3] demo_socket) \<and> sk_sent (snd (send_data [1, 2, 3] demo_socket)) = [1, 2, 3]"
proof -
  have "fst (send_data [1, 2, 3] demo_socket)"
    apply (simp add: send_data_def demo_socket_def)
    apply (subst send_loop.simps, simp)
    apply (subst send_loop.simps, simp add: wait_writable_def POLLOUT_def POLLERR_def POLLHUP_def POLLNVAL_def)
    apply (subst send_loop.simps, simp)
    by (subst send_loop.simps, simp)
  with send_data_correct [where message = "[1, 2, 3]" and s = demo_socket] show ?thesis
    by (auto simp: demo_socket_def split: prod.splits)
qed

end
