(* ===== verification/Chat_Descriptor.thy ===== *)
theory Chat_Descriptor
  imports Chat_Socket
begin

text \<open>
  The descriptor of one client in \<open>samples/chat/server.h\<close>: \<open>connection_data\<close> keeps it in an atomic
  integer beside a mutex.  Handler threads send on it, shut it down and close it, while the event loop
  receives from it and closes it too.  The step relation interleaves any number of threads at the
  granularity of the atomic accesses, the lock operations and the system calls of \<open>send_data\<close>,
  \<open>user_quit\<close>, \<open>close_connection\<close> and \<open>receive_data\<close>.
\<close>

section \<open>Threads on a descriptor\<close>

text \<open>Where a thread is; a number is the descriptor it has loaded.  A thread in \<open>Send_load\<close>, \<open>Send_call\<close>,
  \<open>Quit_load\<close>, \<open>Quit_call\<close> or \<open>Close_call\<close> holds the mutex.\<close>

datatype fd_pc =
    Idle
  | Send_lock | Send_load | Send_call int
  | Quit_lock | Quit_load | Quit_call int
  | Close_exchange | Close_shutdown int | Close_lock int | Close_call int
  | Recv_load | Recv_call int

datatype fd_use = Use_send | Use_shutdown | Use_close | Use_recv

text \<open>\<open>fs_uses\<close> is the history of the system calls on the descriptor, each with whether the descriptor
  was still open at the call.\<close>

record fd_sys =
  fs_fd :: int
  fs_mutex :: "nat option"
  fs_open :: bool
  fs_threads :: "fd_pc list"
  fs_uses :: "(fd_use \<times> bool) list"

definition use_fd :: "fd_use \<Rightarrow> fd_sys \<Rightarrow> fd_sys" where
  "use_fd u s = s\<lparr>fs_uses := fs_uses s @ [(u, fs_open s)]\<rparr>"

definition lock :: "nat \<Rightarrow> fd_pc \<Rightarrow> fd_sys \<Rightarrow> (fd_pc \<times> fd_sys) option" where
  "lock i pc s = (if fs_mutex s = None then Some (pc, s\<lparr>fs_mutex := Some i\<rparr>) else None)"

definition unlock :: "fd_sys \<Rightarrow> fd_sys" where
  "unlock s = s\<lparr>fs_mutex := None\<rparr>"

text \<open>One step of a thread; \<open>None\<close> when it waits for the mutex.  \<open>again\<close> says whether a loop of system
  calls goes on.\<close>

fun fd_run :: "bool \<Rightarrow> nat \<Rightarrow> fd_pc \<Rightarrow> fd_sys \<Rightarrow> (fd_pc \<times> fd_sys) option" where
  "fd_run again i Idle s = None"
| "fd_run again i Send_lock s = lock i Send_load s"
| "fd_run again i Send_load s = Some (if fs_fd s < 0 then (Idle, unlock s) else (Send_call (fs_fd s), s))"
| "fd_run again i (Send_call fd) s =
     Some (if again then (Send_call fd, use_fd Use_send s) else (Idle, unlock (use_fd Use_send s)))"
| "fd_run again i Quit_lock s = lock i Quit_load s"
| "fd_run again i Quit_load s = Some (if fs_fd s \<ge> 0 then (Quit_call (fs_fd s), s) else (Idle, unlock s))"
| "fd_run again i (Quit_call fd) s = Some (Idle, unlock (use_fd Use_shutdown s))"
| "fd_run again i Close_exchange s =
     Some (if fs_fd s < 0 then Idle else Close_shutdown (fs_fd s), s\<lparr>fs_fd := - 1\<rparr>)"
| "fd_run again i (Close_shutdown fd) s = Some (Close_lock fd, use_fd Use_shutdown s)"
| "fd_run again i (Close_lock fd) s = lock i (Close_call fd) s"
| "fd_run again i (Close_call fd) s = Some (Idle, unlock ((use_fd Use_close s)\<lparr>fs_open := False\<rparr>))"
| "fd_run again i Recv_load s = Some (if fs_fd s < 0 then Idle else Recv_call (fs_fd s), s)"
| "fd_run again i (Recv_call fd) s = Some (if again then Recv_load else Idle, use_fd Use_recv s)"

datatype fd_event = Start nat fd_pc | Run nat bool

inductive fd_step :: "fd_sys \<Rightarrow> fd_event \<Rightarrow> fd_sys \<Rightarrow> bool" where
  fd_start: "i < length (fs_threads s) \<Longrightarrow> fs_threads s ! i = Idle \<Longrightarrow>
     pc \<in> {Send_lock, Quit_lock, Close_exchange, Recv_load} \<Longrightarrow>
     fd_step s (Start i pc) (s\<lparr>fs_threads := (fs_threads s)[i := pc]\<rparr>)"
| fd_thread: "i < length (fs_threads s) \<Longrightarrow> fd_run again i (fs_threads s ! i) s = Some (pc, s') \<Longrightarrow>
     fd_step s (Run i again) (s'\<lparr>fs_threads := (fs_threads s)[i := pc]\<rparr>)"

definition fd_init :: "fd_sys \<Rightarrow> bool" where
  "fd_init s \<longleftrightarrow> fs_fd s \<ge> 0 \<and> fs_mutex s = None \<and> fs_open s \<and> list_all (\<lambda>pc. pc = Idle) (fs_threads s) \<and> fs_uses s = []"

section \<open>The invariant\<close>

fun holds_mutex :: "fd_pc \<Rightarrow> bool" where
  "holds_mutex Send_load = True"
| "holds_mutex (Send_call fd) = True"
| "holds_mutex Quit_load = True"
| "holds_mutex (Quit_call fd) = True"
| "holds_mutex (Close_call fd) = True"
| "holds_mutex _ = False"

fun closer :: "fd_pc \<Rightarrow> bool" where
  "closer (Close_shutdown fd) = True"
| "closer (Close_lock fd) = True"
| "closer (Close_call fd) = True"
| "closer _ = False"

fun uses_fd :: "fd_pc \<Rightarrow> bool" where
  "uses_fd (Send_call fd) = True"
| "uses_fd (Quit_call fd) = True"
| "uses_fd _ = False"

abbreviation closers :: "fd_pc list \<Rightarrow> nat" where
  "closers ts \<equiv> length (filter closer ts)"

definition close_count :: "(fd_use \<times> bool) list \<Rightarrow> nat" where
  "close_count us = length (filter (\<lambda>u. fst u = Use_close) us)"

text \<open>The right to close the descriptor is in exactly one place: in the atomic variable, with the one
  thread that took it out, or spent.\<close>

definition fd_inv :: "fd_sys \<Rightarrow> bool" where
  "fd_inv s \<longleftrightarrow>
     of_bool (fs_fd s \<ge> 0) + closers (fs_threads s) + of_bool (\<not> fs_open s) = (1 :: nat)
     \<and> (\<forall>i < length (fs_threads s). holds_mutex (fs_threads s ! i) \<longleftrightarrow> fs_mutex s = Some i)
     \<and> (\<forall>i < length (fs_threads s). uses_fd (fs_threads s ! i) \<longrightarrow> fs_open s)
     \<and> list_all (\<lambda>(u, alive). u = Use_recv \<or> alive) (fs_uses s)
     \<and> close_count (fs_uses s) = of_bool (\<not> fs_open s)"

lemma closers_update:
  "i < length ts \<Longrightarrow> closers (ts[i := pc]) + of_bool (closer (ts ! i)) = closers ts + of_bool (closer pc)"
  using count_list_update [of i ts closer pc] by auto

lemma closer_pos: "i < length ts \<Longrightarrow> closer (ts ! i) \<Longrightarrow> 0 < closers ts"
  using filter_length_pos_iff [of closer ts] by blast

lemma uses_holds: "uses_fd pc \<Longrightarrow> holds_mutex pc"
  by (cases pc) auto

lemma close_count_simps [simp]:
  "close_count [] = 0" "close_count (us @ [(u, alive)]) = close_count us + of_bool (u = Use_close)"
  by (simp_all add: close_count_def)

text \<open>A step of thread \<open>i\<close> that keeps its own part of the invariant keeps all of it: only the holder
  of the mutex closes, so no other thread is using the descriptor then.\<close>

lemma fd_inv_thread:
  assumes inv: "fd_inv s" and i: "i < length (fs_threads s)"
    and part: "of_bool (fs_fd s' \<ge> 0) + closers ((fs_threads s)[i := pc]) + of_bool (\<not> fs_open s') = (1 :: nat)"
    and mutex: "fs_mutex s' = (if holds_mutex pc then Some i else if holds_mutex (fs_threads s ! i) then None else fs_mutex s)"
    and free: "holds_mutex pc \<Longrightarrow> \<not> holds_mutex (fs_threads s ! i) \<Longrightarrow> fs_mutex s = None"
    and using_it: "uses_fd pc \<Longrightarrow> fs_open s'"
    and opn: "fs_open s' = fs_open s \<or> holds_mutex (fs_threads s ! i)"
    and hist: "list_all (\<lambda>(u, alive). u = Use_recv \<or> alive) (fs_uses s')"
      "close_count (fs_uses s') = of_bool (\<not> fs_open s')"
  shows "fd_inv (s'\<lparr>fs_threads := (fs_threads s)[i := pc]\<rparr>)"
proof -
  let ?ts = "fs_threads s"
  have mx: "\<And>j. j < length ?ts \<Longrightarrow> holds_mutex (?ts ! j) \<longleftrightarrow> fs_mutex s = Some j"
    and op: "\<And>j. j < length ?ts \<Longrightarrow> uses_fd (?ts ! j) \<Longrightarrow> fs_open s"
    using inv by (auto simp: fd_inv_def)
  have "holds_mutex (?ts[i := pc] ! j) \<longleftrightarrow> fs_mutex s' = Some j" if j: "j < length ?ts" for j
  proof (cases "j = i")
    case True
    then show ?thesis using mutex mx [OF i] i by (cases "holds_mutex pc"; cases "holds_mutex (?ts ! i)") simp_all
  next
    case False
    then have e: "?ts[i := pc] ! j = ?ts ! j" by simp
    show ?thesis
    proof (cases "holds_mutex (?ts ! i)")
      case True
      then have "fs_mutex s = Some i" using mx [OF i] by simp
      then show ?thesis using e mutex mx [OF j] True False by simp
    next
      case nh: False
      show ?thesis
      proof (cases "holds_mutex pc")
        case True
        then show ?thesis using e mutex mx [OF j] free [OF True nh] False by simp
      next
        case False
        then show ?thesis using e mutex mx [OF j] nh by simp
      qed
    qed
  qed
  moreover have "fs_open s'" if j: "j < length ?ts" "uses_fd (?ts[i := pc] ! j)" for j
  proof (cases "j = i")
    case True
    then show ?thesis using that using_it by simp
  next
    case False
    then have u: "uses_fd (?ts ! j)" using j by simp
    then have "fs_mutex s = Some j" using mx [OF j(1)] uses_holds by blast
    then have "\<not> holds_mutex (?ts ! i)" using mx [OF i] False by simp
    then show ?thesis using op [OF j(1) u] opn by blast
  qed
  ultimately show ?thesis using part hist by (simp add: fd_inv_def)
qed

lemma fd_step_inv:
  assumes inv: "fd_inv s" and step: "fd_step s l t"
  shows "fd_inv t"
  using step
proof (cases rule: fd_step.cases)
  case (fd_start i pc)
  then have "\<not> closer pc" "\<not> holds_mutex pc" "\<not> uses_fd pc" by auto
  then show ?thesis
    using inv fd_start closers_update [OF fd_start(3), of pc] fd_inv_thread [OF inv fd_start(3), of s pc]
    by (auto simp: fd_inv_def)
next
  case (fd_thread i again pc s')
  let ?ts = "fs_threads s"
  have part: "of_bool (fs_fd s \<ge> 0) + closers ?ts + of_bool (\<not> fs_open s) = (1 :: nat)"
    and mx: "holds_mutex (?ts ! i) \<longleftrightarrow> fs_mutex s = Some i"
    and op: "uses_fd (?ts ! i) \<Longrightarrow> fs_open s"
    and us: "list_all (\<lambda>(u, alive). u = Use_recv \<or> alive) (fs_uses s)"
    and cl: "close_count (fs_uses s) = of_bool (\<not> fs_open s)"
    using inv fd_thread(3) by (auto simp: fd_inv_def)
  note cnt = closers_update [OF fd_thread(3), of pc]
  have live: "fs_open s" if "closer (?ts ! i)"
    using closer_pos [OF fd_thread(3) that] part by (cases "fs_open s") auto
  have fresh: "fs_open s" if "fs_fd s \<ge> 0" using part that by (cases "fs_open s") auto
  obtain q where q: "?ts ! i = q" by simp
  note run = fd_thread(4) [unfolded q]
  note mx = mx [unfolded q] and op = op [unfolded q] and live = live [unfolded q] and cnt = cnt [unfolded q]
  show ?thesis
    unfolding fd_thread(2)
  proof (rule fd_inv_thread [OF inv fd_thread(3)], unfold q)
    show "of_bool (fs_fd s' \<ge> 0) + closers (?ts[i := pc]) + of_bool (\<not> fs_open s') = (1 :: nat)"
      using run part cnt live
      by (cases q) (auto simp: lock_def unlock_def use_fd_def split: if_splits)
    show "fs_mutex s' = (if holds_mutex pc then Some i else if holds_mutex (q) then None else fs_mutex s)"
      using run mx
      by (cases q) (auto simp: lock_def unlock_def use_fd_def split: if_splits)
    show "fs_mutex s = None" if "holds_mutex pc" "\<not> holds_mutex (q)"
      using run that by (cases q) (auto simp: lock_def split: if_splits)
    show "fs_open s'" if "uses_fd pc"
      using run that op fresh by (cases q) (auto simp: lock_def use_fd_def split: if_splits)
    show "fs_open s' = fs_open s \<or> holds_mutex (q)"
      using run by (cases q) (auto simp: lock_def unlock_def use_fd_def split: if_splits)
    show "list_all (\<lambda>(u, alive). u = Use_recv \<or> alive) (fs_uses s')"
      using run us op live by (cases q) (auto simp: lock_def unlock_def use_fd_def split: if_splits)
    show "close_count (fs_uses s') = of_bool (\<not> fs_open s')"
      using run cl live by (cases q) (auto simp: lock_def unlock_def use_fd_def split: if_splits)
  qed
qed

interpretation fd: inductive_invariant fd_init fd_step "\<lambda>_. True" fd_inv
proof unfold_locales
  fix s
  assume i: "fd_init s"
  then have "filter closer (fs_threads s) = []"
    by (auto simp: fd_init_def list_all_iff filter_empty_conv)
  then show "fd_inv s"
    using i by (auto simp: fd_init_def fd_inv_def list_all_length)
qed (rule fd_step_inv)

section \<open>Properties\<close>

text \<open>C26: The mutex and the atomic exchange keep the client's descriptor safe from its own threads: in every
  interleaving of any number of threads that send, shut down, close and receive, no send, shutdown or
  close ever reaches a descriptor that is already closed (so it cannot hit a descriptor that the
  system has handed out again), and the descriptor is closed at most once.  Once it is closed no
  thread is in the middle of sending, and the stored descriptor is the invalid one.\<close>

theorem client_descriptor_protocol:
  assumes "reach fd_init fd_step (\<lambda>_. True) s"
  shows "list_all (\<lambda>(u, alive). u = Use_recv \<or> alive) (fs_uses s)
    \<and> close_count (fs_uses s) = of_bool (\<not> fs_open s)
    \<and> (fs_open s \<or> list_all (\<lambda>pc. \<not> uses_fd pc \<and> \<not> closer pc) (fs_threads s) \<and> fs_fd s < 0)"
proof -
  have inv: "fd_inv s" using assms by (rule fd.reach_inv)
  have "list_all (\<lambda>pc. \<not> uses_fd pc \<and> \<not> closer pc) (fs_threads s) \<and> fs_fd s < 0" if "\<not> fs_open s"
  proof -
    have "closers (fs_threads s) = 0" "fs_fd s < 0" using inv that by (auto simp: fd_inv_def)
    then have "\<not> closer (fs_threads s ! j)" if "j < length (fs_threads s)" for j using closer_pos [OF that] by auto
    moreover have "\<not> uses_fd (fs_threads s ! j)" if "j < length (fs_threads s)" for j
      using inv that \<open>\<not> fs_open s\<close> by (auto simp: fd_inv_def)
    ultimately show ?thesis using \<open>fs_fd s < 0\<close> by (simp add: list_all_length)
  qed
  then show ?thesis using inv by (auto simp: fd_inv_def)
qed

text \<open>A thread sends while another closes and a third receives.\<close>

definition demo_fd :: fd_sys where
  "demo_fd = \<lparr>fs_fd = 5, fs_mutex = None, fs_open = True, fs_threads = [Idle, Idle, Idle], fs_uses = []\<rparr>"

definition demo_fd_end :: fd_sys where
  "demo_fd_end = \<lparr>fs_fd = - 1, fs_mutex = None, fs_open = False, fs_threads = [Idle, Idle, Idle],
     fs_uses = [(Use_shutdown, True), (Use_send, True), (Use_close, True), (Use_recv, False)]\<rparr>"

definition demo_fd_run :: "fd_event list" where
  "demo_fd_run =
     [Start 0 Send_lock, Start 1 Close_exchange, Start 2 Recv_load, Run 0 False, Run 0 False, Run 2 False,
      Run 1 False, Run 1 False, Run 0 False, Run 1 False, Run 1 False, Run 2 False]"

text \<open>The step relation as a function, to run a schedule.\<close>

fun fd_exec :: "fd_event list \<Rightarrow> fd_sys \<Rightarrow> fd_sys option" where
  "fd_exec [] s = Some s"
| "fd_exec (Start i pc # es) s =
     (if i < length (fs_threads s) \<and> fs_threads s ! i = Idle
         \<and> (pc = Send_lock \<or> pc = Quit_lock \<or> pc = Close_exchange \<or> pc = Recv_load)
      then fd_exec es (s\<lparr>fs_threads := (fs_threads s)[i := pc]\<rparr>) else None)"
| "fd_exec (Run i again # es) s =
     (if i < length (fs_threads s)
      then (case fd_run again i (fs_threads s ! i) s of
              None \<Rightarrow> None
            | Some (pc, s') \<Rightarrow> fd_exec es (s'\<lparr>fs_threads := (fs_threads s)[i := pc]\<rparr>))
      else None)"

lemma fd_exec_run: "fd_exec es s = Some t \<Longrightarrow> run fd_step s es t"
  by (induction es s rule: fd_exec.induct)
    (auto simp: run_cons_iff intro: fd_start fd_thread split: if_splits option.splits prod.splits)

text \<open>\<open>receive_data\<close> loads the descriptor without the mutex: it can call \<open>recv\<close> on a closed one.\<close>

lemma receive_on_closed: "reach fd_init fd_step (\<lambda>_. True) demo_fd_end"
proof -
  have "reach fd_init fd_step (\<lambda>_. True) demo_fd"
    by (rule reach_init) (simp add: fd_init_def demo_fd_def)
  moreover have "run fd_step demo_fd demo_fd_run demo_fd_end"
    by (rule fd_exec_run) (simp add: demo_fd_run_def demo_fd_def demo_fd_end_def lock_def unlock_def use_fd_def)
  moreover have "list_all (\<lambda>_. True) demo_fd_run" by (simp add: demo_fd_run_def)
  ultimately show ?thesis by (metis reach_run)
qed

lemma client_descriptor_protocol_witness:
  "close_count (fs_uses demo_fd_end) = 1 \<and> (Use_recv, False) \<in> set (fs_uses demo_fd_end)
   \<and> list_all (\<lambda>(u, alive). u = Use_recv \<or> alive) (fs_uses demo_fd_end)"
  using client_descriptor_protocol [OF receive_on_closed] by (simp add: demo_fd_end_def)

end
