(* ===== verification/Chat_Server.thy ===== *)
theory Chat_Server
  imports Chat_Descriptor
begin

text \<open>
  \<open>samples/chat/server.h\<close>: the registry of clients and the event loop.  The map of clients is an
  association list; its order stands for the unspecified order of the \<open>unordered_map\<close> and of the
  parallel loop in \<open>broadcast\<close>, whose iterations work on different clients.  A \<open>client_ptr\<close> that goes out
  of scope destroys a client that is no longer registered, and the destructor of its handler joins the
  handler's thread and broadcasts.  \<open>self\<close> is the thread that runs an operation: \<open>None\<close> for the event
  loop, \<open>Some id\<close> for the thread of the handler with that id.  Log output is left out.
\<close>

section \<open>Outcomes\<close>

text \<open>An operation goes on with a value, ends the program through \<open>std::terminate\<close>, or does not return.\<close>

datatype 'a outcome = Runs 'a | Terminates | Hangs

fun and_then :: "'a outcome \<Rightarrow> ('a \<Rightarrow> 'b outcome) \<Rightarrow> 'b outcome" where
  "and_then (Runs x) f = f x"
| "and_then Terminates f = Terminates"
| "and_then Hangs f = Hangs"

section \<open>Clients\<close>

record chat_client =
  cl_socket :: chat_socket
  cl_connection :: "chat_connection option"

record chat_server =
  sv_listen_fd :: int
  sv_epoll_fd :: int
  sv_clients :: "(int \<times> chat_client) list"
  sv_ops :: "fd_op list"

definition find_client :: "int \<Rightarrow> chat_server \<Rightarrow> chat_client option" where
  "find_client fd sv = map_of (sv_clients sv) fd"

text \<open>An assignment through a \<open>client_ptr\<close> is seen through the map.\<close>

definition put_client :: "int \<Rightarrow> chat_client \<Rightarrow> chat_server \<Rightarrow> chat_server" where
  "put_client fd c sv = sv\<lparr>sv_clients := map (\<lambda>(k, d). (k, if k = fd then c else d)) (sv_clients sv)\<rparr>"

definition log_ops :: "fd_op list \<Rightarrow> chat_server \<Rightarrow> chat_server" where
  "log_ops ops sv = sv\<lparr>sv_ops := sv_ops sv @ ops\<rparr>"

definition close_connection :: "chat_client \<Rightarrow> fd_op list \<times> chat_client" where
  "close_connection c =
     (let fd = sk_fd (cl_socket c);
          c1 = c\<lparr>cl_socket := (cl_socket c)\<lparr>sk_fd := - 1\<rparr>\<rparr>
      in if fd < 0 then ([], c1)
         else ([Shutdown_fd fd, Close_fd fd], c1\<lparr>cl_connection := map_option connection_close (cl_connection c1)\<rparr>))"

text \<open>\<open>disconnect_client\<close> also returns the client it removed: it lives until the last pointer to it goes.\<close>

definition disconnect_client :: "int \<Rightarrow> chat_server \<Rightarrow> chat_client list \<times> chat_server" where
  "disconnect_client fd sv =
     (case map_of (sv_clients sv) fd of
        None \<Rightarrow> ([], sv)
      | Some c \<Rightarrow>
          (case close_connection c of (ops, c') \<Rightarrow>
             ([c'], log_ops (Epoll_del fd # ops)
                (sv\<lparr>sv_clients := filter (\<lambda>(k, d). k \<noteq> fd) (sv_clients sv)\<rparr>))))"

section \<open>Sending to clients\<close>

text \<open>Send a message to one client; on failure disconnect the client with the given key.\<close>

definition send_or_disconnect :: "byte list \<Rightarrow> int \<Rightarrow> chat_server \<Rightarrow> chat_client list \<times> chat_server" where
  "send_or_disconnect message fd sv =
     (case map_of (sv_clients sv) fd of
        None \<Rightarrow> ([], sv)
      | Some c \<Rightarrow>
          (case send_data message (cl_socket c) of (ok, s) \<Rightarrow>
             (let sv' = put_client fd (c\<lparr>cl_socket := s\<rparr>) sv in
              if ok then ([], sv') else disconnect_client (sk_fd s) sv')))"

fun send_each :: "byte list \<Rightarrow> int list \<Rightarrow> chat_server \<Rightarrow> chat_client list \<times> chat_server" where
  "send_each message [] sv = ([], sv)"
| "send_each message (fd # fds) sv =
     (case send_or_disconnect message fd sv of (gone, sv1) \<Rightarrow>
        (case send_each message fds sv1 of (gone', sv2) \<Rightarrow> (gone @ gone', sv2)))"

definition send_everyone :: "byte list \<Rightarrow> chat_server \<Rightarrow> chat_client list \<times> chat_server" where
  "send_everyone message sv = send_each message (map fst (sv_clients sv)) sv"

lemma disconnect_count:
  "disconnect_client fd sv = (gone, sv') \<Longrightarrow> length (sv_clients sv') + length gone \<le> length (sv_clients sv)"
proof (cases "map_of (sv_clients sv) fd")
  case (Some c)
  assume d: "disconnect_client fd sv = (gone, sv')"
  have "length (filter (\<lambda>(k, d). k \<noteq> fd) (sv_clients sv)) < length (sv_clients sv)"
    using map_of_SomeD [OF Some] by (intro length_filter_less [of "(fd, c)"]) auto
  with d Some show ?thesis by (auto simp: disconnect_client_def log_ops_def split: prod.splits)
qed (simp add: disconnect_client_def)

lemma send_or_disconnect_count:
  assumes "send_or_disconnect m fd sv = (gone, sv')"
  shows "length (sv_clients sv') + length gone \<le> length (sv_clients sv)"
proof -
  have "length (sv_clients (put_client fd c sv)) = length (sv_clients sv)" for c by (simp add: put_client_def)
  then show ?thesis
    using assms disconnect_count [of _ "put_client fd _ sv" gone sv']
    by (fastforce simp: send_or_disconnect_def Let_def split: option.splits prod.splits if_splits)
qed

lemma send_each_count:
  "send_each m fds sv = (gone, sv') \<Longrightarrow> length (sv_clients sv') + length gone \<le> length (sv_clients sv)"
proof (induction fds arbitrary: sv gone sv')
  case (Cons fd fds)
  obtain g1 sv1 g2 where s: "send_or_disconnect m fd sv = (g1, sv1)" "send_each m fds sv1 = (g2, sv')" "gone = g1 @ g2"
    using Cons.prems by (auto split: prod.splits)
  then show ?case using send_or_disconnect_count [OF s(1)] Cons.IH [OF s(2)] by simp
qed simp

section \<open>Destroying clients\<close>

text \<open>
  Destroy clients that nobody points to any more.  The destructor of the handler joins its thread:
  in that very thread \<open>join\<close> throws, which inside a destructor is \<open>std::terminate\<close>.  Then it broadcasts
  that the client left; the clients this disconnects are destroyed when that broadcast returns, before
  the next of the list.
\<close>

function destroy_clients :: "int option \<Rightarrow> chat_client list \<Rightarrow> chat_server \<Rightarrow> chat_server outcome" where
  "destroy_clients self [] sv = Runs sv"
| "destroy_clients self (c # cs) sv =
     (case cl_connection c of
        None \<Rightarrow> destroy_clients self cs sv
      | Some cn \<Rightarrow>
          if self = Some (cn_unique_id cn) then Terminates
          else
            (case send_everyone (left_message (cn_name cn)) sv of (gone, sv') \<Rightarrow>
               destroy_clients self (gone @ cs) sv'))"
  by pat_completeness auto
termination
proof (relation "measure (\<lambda>(self, cs, sv). length cs + length (sv_clients sv))", goal_cases)
  case (3 self c cs sv cn gone sv')
  then have "length (sv_clients sv') + length gone \<le> length (sv_clients sv)"
    by (intro send_each_count) (auto simp: send_everyone_def)
  then show ?case by simp
qed auto

definition broadcast :: "int option \<Rightarrow> byte list \<Rightarrow> chat_server \<Rightarrow> chat_server outcome" where
  "broadcast self message sv =
     (case send_everyone message sv of (gone, sv') \<Rightarrow> destroy_clients self gone sv')"

definition reply :: "int option \<Rightarrow> int \<Rightarrow> byte list \<Rightarrow> chat_server \<Rightarrow> chat_server outcome" where
  "reply self client_id message sv =
     (case find_client client_id sv of
        None \<Rightarrow> Runs sv
      | Some c \<Rightarrow>
          (case send_data message (cl_socket c) of (ok, s) \<Rightarrow>
             (let sv' = put_client client_id (c\<lparr>cl_socket := s\<rparr>) sv in
              if ok then Runs sv'
              else (case disconnect_client client_id sv' of (gone, sv'') \<Rightarrow> destroy_clients self gone sv''))))"

definition user_quit :: "int \<Rightarrow> chat_server \<Rightarrow> chat_server" where
  "user_quit client_id sv =
     (case find_client client_id sv of
        None \<Rightarrow> sv
      | Some c \<Rightarrow>
          (let fd = sk_fd (cl_socket c) in if fd \<ge> 0 then log_ops [Shutdown_fd fd] sv else sv))"

text \<open>The calls of a handler.\<close>

fun perform :: "int option \<Rightarrow> server_call \<Rightarrow> chat_server \<Rightarrow> chat_server outcome" where
  "perform self (Reply client_id message) sv = reply self client_id message sv"
| "perform self (Broadcast message) sv = broadcast self message sv"
| "perform self (User_quit client_id) sv = Runs (user_quit client_id sv)"

fun perform_all :: "int option \<Rightarrow> server_call list \<Rightarrow> chat_server \<Rightarrow> chat_server outcome" where
  "perform_all self [] sv = Runs sv"
| "perform_all self (c # cs) sv = and_then (perform self c sv) (perform_all self cs)"

section \<open>Accepting connections\<close>

text \<open>
  \<open>start_connection_handler\<close> for an accepted descriptor.  \<open>sends\<close> and \<open>polls\<close> are the future answers of
  the new socket, \<open>answer\<close> that of \<open>epoll_ctl\<close>, \<open>h\<close> the heap the handler's pipeline is made on.  The
  handler's constructor sends to the new client; when that fails the client is already gone when the
  handler is stored, and the descriptor, closed by then, cannot be added to the epoll set.
\<close>

definition new_client :: "int \<Rightarrow> io_result list \<Rightarrow> poll_result list \<Rightarrow> chat_client" where
  "new_client fd sends polls =
     \<lparr>cl_socket = \<lparr>sk_fd = fd, sk_sends = sends, sk_polls = polls, sk_sent = []\<rparr>, cl_connection = None\<rparr>"

definition finish_start :: "int \<Rightarrow> int \<Rightarrow> chat_client \<Rightarrow> chat_connection \<Rightarrow> chat_server \<Rightarrow> (bool \<times> chat_server) outcome" where
  "finish_start answer fd client cn sv =
     (case map_of (sv_clients sv) fd of
        None \<Rightarrow>
          and_then (destroy_clients None [client\<lparr>cl_connection := Some cn\<rparr>] sv) (\<lambda>sv'. Runs (False, sv'))
      | Some c \<Rightarrow>
          (let sv1 = put_client fd (c\<lparr>cl_connection := Some cn\<rparr>) sv in
           case add_to_epoll answer fd of (ops, ok) \<Rightarrow>
             if ok then Runs (True, log_ops ops sv1)
             else
               (case disconnect_client fd sv1 of (gone, sv2) \<Rightarrow>
                  and_then (destroy_clients None gone sv2) (\<lambda>sv'. Runs (False, sv')))))"

definition start_connection_handler ::
  "heap \<Rightarrow> io_result list \<Rightarrow> poll_result list \<Rightarrow> int \<Rightarrow> int \<Rightarrow> chat_server \<Rightarrow> (bool \<times> chat_server) outcome"
where
  "start_connection_handler h sends polls answer fd sv =
     (let client = new_client fd sends polls in
      if map_of (sv_clients sv) fd \<noteq> None
      then (case close_connection client of (ops, c') \<Rightarrow> Runs (False, log_ops ops sv))
      else
        (let sv1 = sv\<lparr>sv_clients := (fd, client) # sv_clients sv\<rparr> in
         case connection_make fd h of
           None \<Rightarrow> Terminates
         | Some (Inl e) \<Rightarrow> (case disconnect_client fd sv1 of (gone, sv2) \<Rightarrow> Runs (False, sv2))
         | Some (Inr (calls, cn)) \<Rightarrow>
             and_then (perform_all None calls sv1) (finish_start answer fd client cn)))"

text \<open>The answers of \<open>accept4\<close>: an accepted descriptor comes with the answers its handler will get.\<close>

datatype accept_answer =
    Accepted nat heap "io_result list" "poll_result list" int
  | Accept_interrupted
  | Accept_would_block
  | Accept_error

function handle_incoming_connections :: "accept_answer list \<Rightarrow> chat_server \<Rightarrow> (unit throws \<times> chat_server) outcome" where
  "handle_incoming_connections answers sv =
     (case retry (\<lambda>a. a = Accept_interrupted) Accept_would_block answers of (answer, rest) \<Rightarrow>
        (case answer of
           Accepted fd h sends polls add \<Rightarrow>
             and_then (start_connection_handler h sends polls add (int fd) (log_ops [Open_fd (int fd)] sv))
               (\<lambda>(ok, sv'). handle_incoming_connections rest sv')
         | Accept_would_block \<Rightarrow> Runs (Inr (), sv)
         | _ \<Rightarrow> Runs (Inl (std_runtime_error ''failed to accept connection''), sv)))"
  by pat_completeness auto
termination
proof (relation "measure (\<lambda>(answers, sv). length answers)", goal_cases)
  case (2 answers sv answer rest fd h sends polls add ok sv')
  then have "length rest < length answers"
    by (intro retry_shorter [of "\<lambda>a. a = Accept_interrupted" Accept_would_block answers answer rest]) auto
  then show ?case by simp
qed simp

declare handle_incoming_connections.simps [simp del]

section \<open>Events of clients\<close>

text \<open>The handler's \<open>receive_data\<close> as one call of the event loop: \<open>None\<close> when the write waits for space.\<close>

definition deliver :: "byte list \<Rightarrow> chat_connection \<Rightarrow> (chat_connection throws) option" where
  "deliver data cn =
     (case connection_receive_data data (span_size data) cn of
        None \<Rightarrow> Some (Inr cn)
      | Some (Write_returns n) \<Rightarrow> Some (Inr cn)
      | Some (Write_starts bytes) \<Rightarrow>
          (case write_outer 3 False bytes 0 (cn_pipe cn) of
             Some (WR_returns n, p) \<Rightarrow>
               Some (Inr (cn\<lparr>cn_sys := \<lparr>ps_pipe = p, ps_in = ps_in (cn_sys cn) @ bytes, ps_out = ps_out (cn_sys cn)\<rparr>\<rparr>))
           | Some (WR_throws e, p) \<Rightarrow> Some (Inl e)
           | _ \<Rightarrow> None))"

definition disconnect_and_destroy :: "int \<Rightarrow> chat_server \<Rightarrow> chat_server outcome" where
  "disconnect_and_destroy fd sv =
     (case disconnect_client fd sv of (gone, sv') \<Rightarrow> destroy_clients None gone sv')"

text \<open>\<open>process_client_event\<close>; a client without a handler would be a null pointer.\<close>

definition process_client_event :: "recv_answer list \<Rightarrow> int \<Rightarrow> 32 word \<Rightarrow> chat_server \<Rightarrow> chat_server outcome" where
  "process_client_event answers fd events sv =
     (case find_client fd sv of
        None \<Rightarrow> Runs sv
      | Some c \<Rightarrow>
          (let hangup = events AND (EPOLLERR OR EPOLLHUP OR EPOLLRDHUP) \<noteq> 0 in
           if events AND EPOLLIN = 0 then (if hangup then disconnect_and_destroy fd sv else Runs sv)
           else
             (case cl_connection c of
                None \<Rightarrow> Terminates
              | Some cn \<Rightarrow>
                  (case receive_loop (\<lambda>_. sk_fd (cl_socket c)) 0 answers deliver cn of
                     None \<Rightarrow> Hangs
                   | Some (res, cn') \<Rightarrow>
                       (let sv1 = put_client fd (c\<lparr>cl_connection := Some cn'\<rparr>) sv in
                        case res of
                          Inl e \<Rightarrow> disconnect_and_destroy fd sv1
                        | Inr alive \<Rightarrow>
                            if alive \<and> \<not> hangup then Runs sv1 else disconnect_and_destroy fd sv1)))))"

section \<open>Shutting down\<close>

fun close_all :: "int \<Rightarrow> (int \<times> chat_client) list \<Rightarrow> fd_op list \<times> chat_client list" where
  "close_all epoll_fd [] = ([], [])"
| "close_all epoll_fd ((fd, c) # cs) =
     (case close_connection c of (ops, c') \<Rightarrow>
        (case close_all epoll_fd cs of (ops', cs') \<Rightarrow>
           ((if epoll_fd \<ge> 0 then [Epoll_del fd] else []) @ ops @ ops', c' # cs')))"

definition cleanup :: "chat_server \<Rightarrow> chat_server outcome" where
  "cleanup sv =
     (case close_all (sv_epoll_fd sv) (sv_clients sv) of (ops, clients) \<Rightarrow>
        (let sv1 = log_ops (ops @ close_server_fds (sv_listen_fd sv) (sv_epoll_fd sv))
                     (sv\<lparr>sv_clients := [], sv_listen_fd := - 1, sv_epoll_fd := - 1\<rparr>)
         in destroy_clients None clients sv1))"

section \<open>The event loop\<close>

definition shutdown_message :: "byte list" where
  "shutdown_message =
     bytes_of ''['' @ megaphone @ bytes_of '': I'' @ [0x27] @ bytes_of ''m shutting down... Bye! '' @ waving_hand
     @ bytes_of '']'' @ [newline]"

text \<open>One event of \<open>epoll_wait\<close> with the answers of the calls its handling makes.\<close>

record loop_event =
  le_fd :: int
  le_events :: "32 word"
  le_accepts :: "accept_answer list"
  le_input :: "recv_answer list"

text \<open>How the handling of the events ends: the next wait, the return of \<open>run\<close>, or an exception.\<close>

datatype loop_end = Next_wait | Run_returns | Run_throws cpp_exception

definition handle_event :: "loop_event \<Rightarrow> chat_server \<Rightarrow> (loop_end \<times> chat_server) outcome" where
  "handle_event ev sv =
     (if le_fd ev = sv_listen_fd sv then
        and_then (handle_incoming_connections (le_accepts ev) sv)
          (\<lambda>(res, sv'). Runs (case res of Inl e \<Rightarrow> Run_throws e | Inr _ \<Rightarrow> Next_wait, sv'))
      else if le_fd ev = 0 then
        (case enter_pressed (le_input ev) of
           Inl e \<Rightarrow> Runs (Run_throws e, sv)
         | Inr pressed \<Rightarrow>
             if pressed then and_then (broadcast None shutdown_message sv) (\<lambda>sv'. Runs (Run_returns, sv'))
             else Runs (Next_wait, sv))
      else and_then (process_client_event (le_input ev) (le_fd ev) (le_events ev) sv) (\<lambda>sv'. Runs (Next_wait, sv')))"

fun handle_events :: "loop_event list \<Rightarrow> chat_server \<Rightarrow> (loop_end \<times> chat_server) outcome" where
  "handle_events [] sv = Runs (Next_wait, sv)"
| "handle_events (ev # evs) sv =
     and_then (handle_event ev sv)
       (\<lambda>(res, sv'). case res of Next_wait \<Rightarrow> handle_events evs sv' | _ \<Rightarrow> Runs (res, sv'))"

text \<open>\<open>run\<close> over the results of \<open>epoll_wait\<close>: \<open>None\<close> is a failing wait.  At the end of the list the loop
  waits for the next events.\<close>

fun server_run :: "loop_event list option list \<Rightarrow> chat_server \<Rightarrow> (loop_end \<times> chat_server) outcome" where
  "server_run [] sv = Runs (Next_wait, sv)"
| "server_run (None # waits) sv = Runs (Run_throws (std_runtime_error ''epoll_wait failed''), sv)"
| "server_run (Some evs # waits) sv =
     and_then (handle_events evs sv)
       (\<lambda>(res, sv'). case res of Next_wait \<Rightarrow> server_run waits sv' | _ \<Rightarrow> Runs (res, sv'))"

section \<open>The history of descriptors\<close>

text \<open>
  \<open>replay\<close> runs a history from a set of open descriptors and fails at the first call on a descriptor
  that is not open, or at an opening of one that is.  \<open>fresh_opens\<close> is what the system guarantees: it
  never hands out a descriptor that is open.
\<close>

fun replay :: "fd_op list \<Rightarrow> int set \<Rightarrow> int set option" where
  "replay [] S = Some S"
| "replay (Open_fd fd # ops) S = (if fd \<in> S then None else replay ops (insert fd S))"
| "replay (Close_fd fd # ops) S = (if fd \<in> S then replay ops (S - {fd}) else None)"
| "replay (Shutdown_fd fd # ops) S = (if fd \<in> S then replay ops S else None)"
| "replay (Epoll_add fd # ops) S = (if fd \<in> S then replay ops S else None)"
| "replay (Epoll_del fd # ops) S = (if fd \<in> S then replay ops S else None)"

fun fresh_opens :: "fd_op list \<Rightarrow> int set \<Rightarrow> bool" where
  "fresh_opens [] S \<longleftrightarrow> True"
| "fresh_opens (Open_fd fd # ops) S \<longleftrightarrow> fd \<notin> S \<and> fresh_opens ops (insert fd S)"
| "fresh_opens (Close_fd fd # ops) S \<longleftrightarrow> fresh_opens ops (S - {fd})"
| "fresh_opens (_ # ops) S \<longleftrightarrow> fresh_opens ops S"

lemma replay_append: "replay (xs @ ys) S = (case replay xs S of None \<Rightarrow> None | Some T \<Rightarrow> replay ys T)"
  by (induction xs S rule: replay.induct) auto

lemma fresh_opens_replay: "replay xs S = Some T \<Longrightarrow> fresh_opens (xs @ ys) S \<longleftrightarrow> fresh_opens ys T"
  by (induction xs S rule: replay.induct) (auto split: if_splits)

section \<open>The registry is consistent\<close>

abbreviation keys :: "chat_server \<Rightarrow> int set" where
  "keys sv \<equiv> fst ` set (sv_clients sv)"

definition own_fds :: "chat_server \<Rightarrow> int set" where
  "own_fds sv = {0, sv_listen_fd sv, sv_epoll_fd sv}"

definition client_ok :: "int set \<Rightarrow> int \<times> chat_client \<Rightarrow> bool" where
  "client_ok own e \<longleftrightarrow>
     sk_fd (cl_socket (snd e)) = fst e \<and> fst e \<ge> 0 \<and> fst e \<notin> own
     \<and> (\<forall>cn. cl_connection (snd e) = Some cn \<longrightarrow> cn_unique_id cn = fst e)"

definition registry_ok :: "chat_server \<Rightarrow> bool" where
  "registry_ok sv \<longleftrightarrow>
     distinct (map fst (sv_clients sv)) \<and> list_all (client_ok (own_fds sv)) (sv_clients sv)
     \<and> replay (sv_ops sv) {0} = Some (own_fds sv \<union> keys sv)"

definition connected :: "chat_server \<Rightarrow> bool" where
  "connected sv \<longleftrightarrow> list_all (\<lambda>e. cl_connection (snd e) \<noteq> None) (sv_clients sv)"

text \<open>An operation on the registry only removes clients, keeps the handlers of the others and adds to
  the history.\<close>

definition shrinks :: "chat_server \<Rightarrow> chat_server \<Rightarrow> bool" where
  "shrinks sv sv' \<longleftrightarrow>
     own_fds sv' = own_fds sv \<and> sv_listen_fd sv' = sv_listen_fd sv \<and> sv_epoll_fd sv' = sv_epoll_fd sv
     \<and> (\<exists>ops. sv_ops sv' = sv_ops sv @ ops \<and> opens ops = [])
     \<and> (\<forall>k c'. (k, c') \<in> set (sv_clients sv') \<longrightarrow>
           (\<exists>c. (k, c) \<in> set (sv_clients sv) \<and> cl_connection c' = cl_connection c))"

lemma fd_ops_more_simps [simp]:
  "opens (Shutdown_fd fd # ops) = opens ops" "opens (Epoll_del fd # ops) = opens ops"
  by (simp_all add: opens_def map_filter_def)

lemma shrinks_refl [simp]: "shrinks sv sv"
  unfolding shrinks_def by (intro conjI exI [of _ "[]"]) auto

lemma shrinks_trans: "shrinks a b \<Longrightarrow> shrinks b c \<Longrightarrow> shrinks a c"
  unfolding shrinks_def by (elim conjE exE, intro conjI) (auto, metis)

lemma shrinks_connected: "shrinks sv sv' \<Longrightarrow> connected sv \<Longrightarrow> connected sv'"
  unfolding shrinks_def connected_def list_all_iff by fastforce

lemma shrinks_keys: "shrinks sv sv' \<Longrightarrow> keys sv' \<subseteq> keys sv"
  unfolding shrinks_def by force

lemma registry_lookup:
  assumes "registry_ok sv" and "map_of (sv_clients sv) fd = Some c"
  shows "sk_fd (cl_socket c) = fd" and "fd \<ge> 0" and "fd \<notin> own_fds sv" and "(fd, c) \<in> set (sv_clients sv)"
    and "cl_connection c = Some cn \<Longrightarrow> cn_unique_id cn = fd"
proof -
  show "(fd, c) \<in> set (sv_clients sv)" using assms(2) by (rule map_of_SomeD)
  then have "client_ok (own_fds sv) (fd, c)" using assms(1) by (auto simp: registry_ok_def list_all_iff)
  then show "sk_fd (cl_socket c) = fd" "fd \<ge> 0" "fd \<notin> own_fds sv" "cl_connection c = Some cn \<Longrightarrow> cn_unique_id cn = fd"
    by (auto simp: client_ok_def)
qed

text \<open>Storing a client again under its key.\<close>

lemma put_client_keys [simp]: "map fst (sv_clients (put_client fd c sv)) = map fst (sv_clients sv)"
  by (simp add: put_client_def case_prod_beta comp_def)

lemma put_client_ok:
  assumes "registry_ok sv" and "client_ok (own_fds sv) (fd, c)"
  shows "registry_ok (put_client fd c sv)"
proof -
  have k: "keys (put_client fd c sv) = keys sv" by (metis list.set_map put_client_keys)
  have o: "own_fds (put_client fd c sv) = own_fds sv" "sv_ops (put_client fd c sv) = sv_ops sv"
    by (simp_all add: put_client_def own_fds_def)
  have "list_all (client_ok (own_fds sv)) (sv_clients (put_client fd c sv))"
    using assms by (auto simp: put_client_def list_all_iff registry_ok_def split: if_splits)
  then show ?thesis using assms(1) k o unfolding registry_ok_def by (simp del: set_map)
qed

lemma put_client_shrinks:
  assumes "map_of (sv_clients sv) fd = Some d" and "cl_connection c = cl_connection d"
    and "distinct (map fst (sv_clients sv))"
  shows "shrinks sv (put_client fd c sv)"
proof -
  have "\<exists>c0. (k, c0) \<in> set (sv_clients sv) \<and> cl_connection c' = cl_connection c0"
    if "(k, c') \<in> set (sv_clients (put_client fd c sv))" for k c'
    using that assms(2) map_of_SomeD [OF assms(1)] by (auto simp: put_client_def split: if_splits)
  then show ?thesis
    unfolding shrinks_def by (intro conjI exI [of _ "[]"]) (auto simp: put_client_def own_fds_def)
qed

lemma disconnect_ok:
  assumes reg: "registry_ok sv" and d: "disconnect_client fd sv = (gone, sv')"
  shows "registry_ok sv' \<and> shrinks sv sv'
    \<and> (\<forall>g cn. g \<in> set gone \<and> cl_connection g = Some cn \<longrightarrow> cn_unique_id cn = fd \<and> fd \<in> keys sv)"
proof (cases "map_of (sv_clients sv) fd")
  case None
  then show ?thesis using assms by (simp add: disconnect_client_def)
next
  case (Some c)
  note l = registry_lookup [OF reg Some]
  let ?cs = "filter (\<lambda>(k, d). k \<noteq> fd) (sv_clients sv)"
  let ?ops = "[Epoll_del fd, Shutdown_fd fd, Close_fd fd]"
  have sv': "sv' = sv\<lparr>sv_clients := ?cs, sv_ops := sv_ops sv @ ?ops\<rparr>"
      "gone = [c\<lparr>cl_socket := (cl_socket c)\<lparr>sk_fd := - 1\<rparr>, cl_connection := map_option connection_close (cl_connection c)\<rparr>]"
    using d Some l(1,2) by (auto simp: disconnect_client_def close_connection_def log_ops_def Let_def)
  have keys: "fst ` set ?cs = keys sv - {fd}" by force
  have own: "own_fds sv' = own_fds sv" by (simp add: sv' own_fds_def)
  have fdk: "fd \<in> keys sv" using l(4) by force
  have "replay (sv_ops sv') {0} = Some ((own_fds sv \<union> keys sv) - {fd})"
    using reg fdk by (simp add: registry_ok_def replay_append sv')
  also have "(own_fds sv \<union> keys sv) - {fd} = own_fds sv \<union> (keys sv - {fd})" using l(3) by auto
  finally have "replay (sv_ops sv') {0} = Some (own_fds sv' \<union> keys sv')" using keys own by (simp add: sv')
  moreover have "distinct (map fst ?cs)"
    using reg by (simp add: registry_ok_def distinct_map filter_empty_conv inj_on_def)
  moreover have "list_all (client_ok (own_fds sv')) ?cs"
    using reg own by (auto simp: registry_ok_def list_all_iff)
  ultimately have "registry_ok sv'" by (simp add: registry_ok_def) (simp add: sv')
  moreover have "shrinks sv sv'"
    unfolding shrinks_def by (intro conjI exI [of _ ?ops]) (auto simp: sv' own_fds_def)
  moreover have "cn_unique_id (connection_close cn) = cn_unique_id cn" for cn
    by (simp add: connection_close_def set_pipe_def)
  ultimately show ?thesis using sv'(2) l(5) fdk by auto
qed

text \<open>The clients that were removed had their handlers' ids among the keys.\<close>

definition gone_from :: "int set \<Rightarrow> chat_client list \<Rightarrow> bool" where
  "gone_from K gone \<longleftrightarrow> (\<forall>g cn. g \<in> set gone \<and> cl_connection g = Some cn \<longrightarrow> cn_unique_id cn \<in> K)"

lemma gone_from_append [simp]: "gone_from K (xs @ ys) \<longleftrightarrow> gone_from K xs \<and> gone_from K ys"
  by (auto simp: gone_from_def)

lemma gone_from_Nil [simp]: "gone_from K []"
  by (simp add: gone_from_def)

lemma gone_from_mono: "gone_from K gone \<Longrightarrow> K \<subseteq> L \<Longrightarrow> gone_from L gone"
  by (auto simp: gone_from_def)

lemma send_data_fd: "send_data m s = (ok, s') \<Longrightarrow> sk_fd s' = sk_fd s"
  by (auto simp: send_data_def split: if_splits prod.splits)

lemma store_sent_ok:
  assumes reg: "registry_ok sv" and c: "map_of (sv_clients sv) fd = Some c" and s: "send_data m (cl_socket c) = (ok, s)"
  shows "registry_ok (put_client fd (c\<lparr>cl_socket := s\<rparr>) sv)" and "shrinks sv (put_client fd (c\<lparr>cl_socket := s\<rparr>) sv)"
proof -
  have "client_ok (own_fds sv) (fd, c\<lparr>cl_socket := s\<rparr>)"
    using registry_lookup [OF reg c] send_data_fd [OF s] by (simp add: client_ok_def)
  then show "registry_ok (put_client fd (c\<lparr>cl_socket := s\<rparr>) sv)" using reg by (intro put_client_ok)
  show "shrinks sv (put_client fd (c\<lparr>cl_socket := s\<rparr>) sv)"
    using reg c by (intro put_client_shrinks) (auto simp: registry_ok_def)
qed

lemma send_or_disconnect_ok:
  assumes reg: "registry_ok sv" and s: "send_or_disconnect m fd sv = (gone, sv')"
  shows "registry_ok sv' \<and> shrinks sv sv' \<and> gone_from (keys sv) gone"
proof (cases "map_of (sv_clients sv) fd")
  case None
  then show ?thesis using assms by (simp add: send_or_disconnect_def)
next
  case (Some c)
  obtain ok sk where sd: "send_data m (cl_socket c) = (ok, sk)" by fastforce
  let ?sv = "put_client fd (c\<lparr>cl_socket := sk\<rparr>) sv"
  note put = store_sent_ok [OF reg Some sd]
  show ?thesis
  proof (cases ok)
    case True
    then show ?thesis using s Some sd put by (simp add: send_or_disconnect_def Let_def)
  next
    case False
    then have "disconnect_client (sk_fd sk) ?sv = (gone, sv')"
      using s Some sd by (simp add: send_or_disconnect_def Let_def)
    note d = disconnect_ok [OF put(1) this]
    then have "gone_from (keys ?sv) gone" unfolding gone_from_def by metis
    moreover have "registry_ok sv'" "shrinks ?sv sv'" using d by simp_all
    ultimately show ?thesis
      using shrinks_trans [OF put(2)] gone_from_mono [OF _ shrinks_keys [OF put(2)]] by blast
  qed
qed

lemma send_each_ok:
  "registry_ok sv \<Longrightarrow> send_each m fds sv = (gone, sv') \<Longrightarrow> registry_ok sv' \<and> shrinks sv sv' \<and> gone_from (keys sv) gone"
proof (induction fds arbitrary: sv gone sv')
  case (Cons fd fds)
  obtain g1 sv1 g2 where s: "send_or_disconnect m fd sv = (g1, sv1)" "send_each m fds sv1 = (g2, sv')" "gone = g1 @ g2"
    using Cons.prems by (auto split: prod.splits)
  note first = send_or_disconnect_ok [OF Cons.prems(1) s(1)]
  then have "registry_ok sv' \<and> shrinks sv1 sv' \<and> gone_from (keys sv1) g2" using Cons.IH [OF _ s(2)] by blast
  with first show ?case
    using s(3) shrinks_trans [of sv sv1 sv'] gone_from_mono [of "keys sv1" g2 "keys sv"] shrinks_keys [of sv sv1] by auto
qed simp

lemma destroy_clients_ok:
  "registry_ok sv \<Longrightarrow> destroy_clients self cs sv = Runs sv' \<Longrightarrow> registry_ok sv' \<and> shrinks sv sv'"
proof (induction self cs sv rule: destroy_clients.induct)
  case (2 self c cs sv)
  show ?case
  proof (cases "cl_connection c")
    case None
    then show ?thesis using 2 by simp
  next
    case (Some cn)
    then have ne: "self \<noteq> Some (cn_unique_id cn)" using 2(4) by (auto split: if_splits)
    obtain gone sv1 where s: "send_everyone (left_message (cn_name cn)) sv = (gone, sv1)" by fastforce
    then have a: "registry_ok sv1" "shrinks sv sv1" using send_each_ok [OF 2(3)] by (auto simp: send_everyone_def)
    have "destroy_clients self (gone @ cs) sv1 = Runs sv'" using 2(4) Some ne s by simp
    from 2(2) [OF Some ne s [symmetric] a(1) this] show ?thesis using shrinks_trans [OF a(2)] by blast
  qed
qed simp

text \<open>Destruction comes to an end of its own: it runs, unless it reaches the handler of its own thread.\<close>

lemma destroy_clients_runs:
  assumes "registry_ok sv" and "case self of None \<Rightarrow> True | Some i \<Rightarrow> i \<notin> keys sv \<and> gone_from (- {i}) cs"
  shows "\<exists>sv'. destroy_clients self cs sv = Runs sv'"
  using assms
proof (induction self cs sv rule: destroy_clients.induct)
  case (2 self c cs sv)
  show ?case
  proof (cases "cl_connection c")
    case None
    then show ?thesis using 2 by (auto simp: gone_from_def split: option.splits)
  next
    case (Some cn)
    have ne: "self \<noteq> Some (cn_unique_id cn)"
    proof
      assume "self = Some (cn_unique_id cn)"
      then have "gone_from (- {cn_unique_id cn}) (c # cs)" using 2(4) by simp
      then show False using Some unfolding gone_from_def by (metis Compl_iff list.set_intros(1) singletonI)
    qed
    obtain gone sv1 where s: "send_everyone (left_message (cn_name cn)) sv = (gone, sv1)" by fastforce
    then have a: "registry_ok sv1" "shrinks sv sv1" "gone_from (keys sv) gone"
      using send_each_ok [OF 2(3)] by (auto simp: send_everyone_def)
    have "case self of None \<Rightarrow> True | Some i \<Rightarrow> i \<notin> keys sv1 \<and> gone_from (- {i}) (gone @ cs)"
      using 2(4) a(3) shrinks_keys [OF a(2)] gone_from_mono [OF a(3)]
      by (auto simp: gone_from_def split: option.splits)
    from 2(2) [OF Some ne s [symmetric] a(1) this] show ?thesis using Some ne s by simp
  qed
qed simp

lemma destroy_own_terminates:
  assumes "c \<in> set cs" and "cl_connection c = Some cn" and "cn_unique_id cn = i"
  shows "destroy_clients (Some i) cs sv = Terminates"
  using assms(1)
proof (induction "Some i" cs sv rule: destroy_clients.induct)
  case (2 d cs sv)
  show ?case
  proof (cases "cl_connection d")
    case None
    then show ?thesis using 2 assms(2) by auto
  next
    case (Some dn)
    obtain gone sv1 where s: "send_everyone (left_message (cn_name dn)) sv = (gone, sv1)" by fastforce
    show ?thesis
    proof (cases "cn_unique_id dn = i")
      case True
      then show ?thesis using Some by simp
    next
      case False
      then have "c \<in> set (gone @ cs)" using 2(3) Some assms(2,3) by auto
      moreover have "Some i \<noteq> Some (cn_unique_id dn)" using False by simp
      ultimately show ?thesis using 2(2) [OF Some _ s [symmetric]] Some s by simp
    qed
  qed
qed simp

section \<open>The operations keep the registry\<close>

lemma broadcast_ok:
  assumes reg: "registry_ok sv" and b: "broadcast self m sv = Runs sv'"
  shows "registry_ok sv' \<and> shrinks sv sv'"
proof -
  obtain gone sv1 where s: "send_everyone m sv = (gone, sv1)" by fastforce
  then have a: "registry_ok sv1" "shrinks sv sv1" using send_each_ok [OF reg] by (auto simp: send_everyone_def)
  have "destroy_clients self gone sv1 = Runs sv'" using b s by (simp add: broadcast_def)
  from destroy_clients_ok [OF a(1) this] show ?thesis using shrinks_trans [OF a(2)] by blast
qed

lemma reply_ok:
  assumes reg: "registry_ok sv" and r: "reply self fd m sv = Runs sv'"
  shows "registry_ok sv' \<and> shrinks sv sv'"
proof (cases "find_client fd sv")
  case None
  then show ?thesis using assms by (simp add: reply_def)
next
  case (Some c)
  then have c: "map_of (sv_clients sv) fd = Some c" by (simp add: find_client_def)
  obtain ok sk where sd: "send_data m (cl_socket c) = (ok, sk)" by fastforce
  let ?sv = "put_client fd (c\<lparr>cl_socket := sk\<rparr>) sv"
  note put = store_sent_ok [OF reg c sd]
  obtain gone sv1 where d: "disconnect_client fd ?sv = (gone, sv1)" by fastforce
  note dis = disconnect_ok [OF put(1) d]
  show ?thesis
  proof (cases ok)
    case True
    then show ?thesis using r Some sd put by (simp add: reply_def Let_def)
  next
    case False
    then have "destroy_clients self gone sv1 = Runs sv'" using r Some sd d by (simp add: reply_def Let_def)
    then show ?thesis using destroy_clients_ok dis put(2) shrinks_trans by blast
  qed
qed

lemma user_quit_ok:
  assumes "registry_ok sv"
  shows "registry_ok (user_quit fd sv) \<and> shrinks sv (user_quit fd sv)"
proof (cases "map_of (sv_clients sv) fd")
  case None
  then show ?thesis using assms by (simp add: user_quit_def find_client_def)
next
  case (Some c)
  note l = registry_lookup [OF assms Some]
  let ?sv = "log_ops [Shutdown_fd fd] sv"
  have e: "user_quit fd sv = ?sv" using Some l(1,2) by (simp add: user_quit_def find_client_def)
  have "fd \<in> keys sv" using l(4) by force
  then have "registry_ok ?sv" using assms by (simp add: registry_ok_def log_ops_def own_fds_def replay_append)
  moreover have "shrinks sv ?sv"
    unfolding shrinks_def by (intro conjI exI [of _ "[Shutdown_fd fd]"]) (auto simp: log_ops_def own_fds_def)
  ultimately show ?thesis by (simp add: e)
qed

lemma perform_all_ok:
  "registry_ok sv \<Longrightarrow> perform_all self calls sv = Runs sv' \<Longrightarrow> registry_ok sv' \<and> shrinks sv sv'"
proof (induction calls arbitrary: sv)
  case (Cons call calls)
  obtain sv1 where p: "perform self call sv = Runs sv1" "perform_all self calls sv1 = Runs sv'"
    using Cons.prems(2) by (cases "perform self call sv") auto
  have s: "registry_ok sv1 \<and> shrinks sv sv1"
  proof (cases call)
    case (Reply fd m)
    then show ?thesis using p(1) reply_ok [OF Cons.prems(1)] by simp
  next
    case (Broadcast m)
    then show ?thesis using p(1) broadcast_ok [OF Cons.prems(1)] by simp
  next
    case (User_quit fd)
    then show ?thesis using p(1) user_quit_ok [OF Cons.prems(1), of fd] by simp
  qed
  then have "registry_ok sv' \<and> shrinks sv1 sv'" using Cons.IH [OF _ p(2)] by blast
  with s shrinks_trans [of sv sv1 sv'] show ?case by blast
qed simp

section \<open>The history only grows\<close>

definition grows :: "chat_server \<Rightarrow> chat_server \<Rightarrow> bool" where
  "grows sv sv' \<longleftrightarrow>
     sv_listen_fd sv' = sv_listen_fd sv \<and> sv_epoll_fd sv' = sv_epoll_fd sv \<and> (\<exists>ops. sv_ops sv' = sv_ops sv @ ops)"

lemma grows_refl [simp]: "grows sv sv"
  by (simp add: grows_def)

lemma grows_trans [trans]: "grows a b \<Longrightarrow> grows b c \<Longrightarrow> grows a c"
  by (auto simp: grows_def)

lemma grows_log [simp]: "grows sv (log_ops ops sv)"
  by (simp add: grows_def log_ops_def)

lemma grows_put [simp]: "grows sv (put_client fd c sv)"
  by (simp add: grows_def put_client_def)

lemma grows_clients [simp]: "grows sv (sv\<lparr>sv_clients := cs\<rparr>)"
  by (simp add: grows_def)

lemma grows_disconnect: "disconnect_client fd sv = (gone, sv') \<Longrightarrow> grows sv sv'"
  by (auto simp: disconnect_client_def grows_def log_ops_def split: option.splits prod.splits)

lemma grows_send_or_disconnect: "send_or_disconnect m fd sv = (gone, sv') \<Longrightarrow> grows sv sv'"
  using grows_trans [OF grows_put grows_disconnect]
  by (auto simp: send_or_disconnect_def Let_def split: option.splits prod.splits if_splits)

lemma grows_send_each: "send_each m fds sv = (gone, sv') \<Longrightarrow> grows sv sv'"
proof (induction fds arbitrary: sv gone sv')
  case (Cons fd fds)
  obtain g1 sv1 g2 where s: "send_or_disconnect m fd sv = (g1, sv1)" "send_each m fds sv1 = (g2, sv')"
    using Cons.prems by (auto split: prod.splits)
  show ?case using grows_trans [OF grows_send_or_disconnect [OF s(1)] Cons.IH [OF s(2)]] .
qed simp

lemma grows_destroy: "destroy_clients self cs sv = Runs sv' \<Longrightarrow> grows sv sv'"
proof (induction self cs sv rule: destroy_clients.induct)
  case (2 self c cs sv)
  show ?case
  proof (cases "cl_connection c")
    case None
    then show ?thesis using 2 by simp
  next
    case (Some cn)
    then have ne: "self \<noteq> Some (cn_unique_id cn)" using 2(3) by (auto split: if_splits)
    obtain gone sv1 where s: "send_everyone (left_message (cn_name cn)) sv = (gone, sv1)" by fastforce
    then have "grows sv sv1" using grows_send_each by (auto simp: send_everyone_def)
    moreover have "destroy_clients self (gone @ cs) sv1 = Runs sv'" using 2(3) Some ne s by simp
    ultimately show ?thesis using 2(2) [OF Some ne s [symmetric]] grows_trans by blast
  qed
qed simp

lemma grows_perform: "perform self call sv = Runs sv' \<Longrightarrow> grows sv sv'"
proof (cases call)
  case (Reply fd m)
  assume "perform self call sv = Runs sv'"
  with Reply show ?thesis
    using grows_trans [OF grows_put grows_trans [OF grows_disconnect grows_destroy]]
    by (auto simp: reply_def Let_def split: option.splits prod.splits if_splits)
next
  case (Broadcast m)
  assume "perform self call sv = Runs sv'"
  with Broadcast show ?thesis
    using grows_trans [OF grows_send_each grows_destroy]
    by (auto simp: broadcast_def send_everyone_def split: prod.splits)
next
  case (User_quit fd)
  assume "perform self call sv = Runs sv'"
  with User_quit show ?thesis by (auto simp: user_quit_def Let_def split: option.splits)
qed

lemma grows_perform_all: "perform_all self calls sv = Runs sv' \<Longrightarrow> grows sv sv'"
proof (induction calls arbitrary: sv)
  case (Cons call calls)
  obtain sv1 where p: "perform self call sv = Runs sv1" "perform_all self calls sv1 = Runs sv'"
    using Cons.prems by (cases "perform self call sv") auto
  show ?case using grows_trans [OF grows_perform [OF p(1)] Cons.IH [OF p(2)]] .
qed simp

lemma and_then_Runs: "and_then r f = Runs y \<longleftrightarrow> (\<exists>x. r = Runs x \<and> f x = Runs y)"
  by (cases r) auto

lemma grows_finish_start:
  assumes "finish_start answer fd client cn sv = Runs (ok, sv')"
  shows "grows sv sv'"
proof (cases "map_of (sv_clients sv) fd")
  case None
  then show ?thesis using assms grows_destroy by (auto simp: finish_start_def and_then_Runs simp del: destroy_clients.simps)
next
  case (Some c)
  let ?sv = "put_client fd (c\<lparr>cl_connection := Some cn\<rparr>) sv"
  obtain ops ok1 where a: "add_to_epoll answer fd = (ops, ok1)" by fastforce
  obtain gone sv2 where d: "disconnect_client fd ?sv = (gone, sv2)" by fastforce
  have g: "grows sv ?sv" "grows ?sv sv2" using grows_disconnect [OF d] by simp_all
  show ?thesis
  proof (cases ok1)
    case True
    then show ?thesis using assms Some a grows_trans [OF g(1) grows_log] by (auto simp: finish_start_def)
  next
    case False
    then have "destroy_clients None gone sv2 = Runs sv'"
      using assms Some a d by (auto simp: finish_start_def and_then_Runs simp del: destroy_clients.simps)
    then show ?thesis using grows_trans [OF g(1) grows_trans [OF g(2) grows_destroy]] by blast
  qed
qed

lemma grows_start:
  assumes "start_connection_handler h sends polls answer fd sv = Runs (ok, sv')"
  shows "grows sv sv'"
proof -
  let ?sv1 = "sv\<lparr>sv_clients := (fd, new_client fd sends polls) # sv_clients sv\<rparr>"
  have g1: "grows sv ?sv1" by simp
  consider "sv' = log_ops [Shutdown_fd fd, Close_fd fd] sv" | "sv' = sv"
    | gone where "disconnect_client fd ?sv1 = (gone, sv')"
    | calls cn sv2 where "perform_all None calls ?sv1 = Runs sv2"
        "finish_start answer fd (new_client fd sends polls) cn sv2 = Runs (ok, sv')"
    using assms
    by (auto simp: start_connection_handler_def Let_def close_connection_def new_client_def log_ops_def and_then_Runs
        split: if_splits option.splits sum.splits prod.splits)
  then show ?thesis
  proof cases
    case (3 gone)
    then show ?thesis using grows_trans [OF g1 grows_disconnect] by blast
  next
    case (4 calls cn sv2)
    then show ?thesis using grows_trans [OF g1 grows_trans [OF grows_perform_all grows_finish_start]] by blast
  qed simp_all
qed

lemma grows_incoming: "handle_incoming_connections answers sv = Runs (res, sv') \<Longrightarrow> grows sv sv'"
proof (induction answers sv rule: handle_incoming_connections.induct)
  case (1 answers sv)
  obtain a rest where r: "retry (\<lambda>a. a = Accept_interrupted) Accept_would_block answers = (a, rest)" by fastforce
  show ?case
  proof (cases a)
    case (Accepted fd h sends polls add)
    let ?sv = "log_ops [Open_fd (int fd)] sv"
    obtain ok sv1 where s: "start_connection_handler h sends polls add (int fd) ?sv = Runs (ok, sv1)"
        "handle_incoming_connections rest sv1 = Runs (res, sv')"
      using 1(2) r Accepted by (subst (asm) (1) handle_incoming_connections.simps) (auto simp: and_then_Runs)
    have "grows sv1 sv'" using 1(1) [OF r [symmetric] Accepted s(2)] .
    then show ?thesis using grows_trans [OF grows_log grows_trans [OF grows_start [OF s(1)]]] by blast
  qed (use 1(2) r in \<open>subst (asm) handle_incoming_connections.simps, simp\<close>)+
qed

section \<open>The event loop keeps the registry\<close>

definition server_ok :: "chat_server \<Rightarrow> bool" where
  "server_ok sv \<longleftrightarrow>
     registry_ok sv \<and> connected sv \<and> sv_listen_fd sv > 0 \<and> sv_epoll_fd sv > 0 \<and> sv_listen_fd sv \<noteq> sv_epoll_fd sv"

lemma server_ok_shrinks: "server_ok sv \<Longrightarrow> registry_ok sv' \<Longrightarrow> shrinks sv sv' \<Longrightarrow> server_ok sv'"
  using shrinks_connected [of sv sv'] by (auto simp: server_ok_def shrinks_def)

lemma connection_make_id: "connection_make fd h = Some (Inr (calls, cn)) \<Longrightarrow> cn_unique_id cn = fd"
  by (auto simp: connection_make_def Let_def split: option.splits sum.splits)

text \<open>While a connection is started, its client alone may be without a handler.\<close>

definition starting_ok :: "int \<Rightarrow> chat_server \<Rightarrow> bool" where
  "starting_ok fd sv \<longleftrightarrow>
     registry_ok sv \<and> list_all (\<lambda>(k, c). k \<noteq> fd \<longrightarrow> cl_connection c \<noteq> None) (sv_clients sv)
     \<and> sv_listen_fd sv > 0 \<and> sv_epoll_fd sv > 0 \<and> sv_listen_fd sv \<noteq> sv_epoll_fd sv"

lemma starting_shrinks:
  assumes ok: "starting_ok fd sv" and reg: "registry_ok sv'" and sh: "shrinks sv sv'"
  shows "starting_ok fd sv'"
proof -
  have "cl_connection c' \<noteq> None" if c': "(k, c') \<in> set (sv_clients sv')" "k \<noteq> fd" for k c'
  proof -
    obtain c where "(k, c) \<in> set (sv_clients sv)" "cl_connection c' = cl_connection c"
      using sh c'(1) unfolding shrinks_def by blast
    then show ?thesis using ok c'(2) by (force simp: starting_ok_def list_all_iff)
  qed
  then show ?thesis using ok reg sh by (auto simp: starting_ok_def shrinks_def list_all_iff)
qed

lemma starting_gone: "starting_ok fd sv \<Longrightarrow> fd \<notin> keys sv \<Longrightarrow> server_ok sv"
  by (force simp: starting_ok_def server_ok_def connected_def list_all_iff)

lemma starting_new:
  assumes ok: "server_ok sv" and fresh: "fd \<notin> own_fds sv \<union> keys sv" "fd \<ge> 0"
  shows "starting_ok fd ((log_ops [Open_fd fd] sv)\<lparr>sv_clients := (fd, new_client fd sends polls) # sv_clients sv\<rparr>)"
proof -
  let ?sv1 = "(log_ops [Open_fd fd] sv)\<lparr>sv_clients := (fd, new_client fd sends polls) # sv_clients sv\<rparr>"
  have reg: "registry_ok sv" using ok by (simp add: server_ok_def)
  have "own_fds ?sv1 = own_fds sv" by (simp add: own_fds_def log_ops_def)
  moreover have "fd \<notin> fst ` set (sv_clients sv)" using fresh(1) by blast
  moreover have "replay (sv_ops ?sv1) {0} = Some (own_fds sv \<union> insert fd (keys sv))"
    using reg fresh(1) by (simp add: registry_ok_def replay_append log_ops_def)
  ultimately have "registry_ok ?sv1"
    using reg fresh by (simp add: registry_ok_def log_ops_def client_ok_def new_client_def)
  then show ?thesis using ok by (auto simp: starting_ok_def server_ok_def connected_def list_all_iff log_ops_def)
qed

lemma finish_start_ok:
  assumes st: "starting_ok fd sv" and cn: "cn_unique_id cn = fd"
    and fin: "finish_start answer fd client cn sv = Runs (b, sv')"
  shows "server_ok sv'"
proof (cases "map_of (sv_clients sv) fd")
  case None
  then have "server_ok sv" using starting_gone [OF st] by (simp add: map_of_eq_None_iff)
  moreover have "destroy_clients None [client\<lparr>cl_connection := Some cn\<rparr>] sv = Runs sv'"
    using fin None by (auto simp: finish_start_def and_then_Runs simp del: destroy_clients.simps)
  ultimately show ?thesis using destroy_clients_ok server_ok_shrinks by (metis server_ok_def)
next
  case (Some c)
  let ?sv3 = "put_client fd (c\<lparr>cl_connection := Some cn\<rparr>) sv"
  have reg: "registry_ok sv" using st by (simp add: starting_ok_def)
  then have "client_ok (own_fds sv) (fd, c\<lparr>cl_connection := Some cn\<rparr>)"
    using registry_lookup [OF reg Some] cn by (simp add: client_ok_def)
  then have reg3: "registry_ok ?sv3" using reg by (intro put_client_ok)
  moreover have "connected ?sv3" using st by (auto simp: starting_ok_def connected_def put_client_def list_all_iff)
  ultimately have ok3: "server_ok ?sv3" using st by (simp add: server_ok_def starting_ok_def put_client_def)
  have kin: "fd \<in> own_fds ?sv3 \<union> keys ?sv3" using registry_lookup(4) [OF reg Some] by (force simp: put_client_def)
  obtain ops added where a: "add_to_epoll answer fd = (ops, added)" by fastforce
  show ?thesis
  proof (cases added)
    case True
    then have sv': "sv' = log_ops [Epoll_add fd] ?sv3"
      using fin Some a by (auto simp: finish_start_def add_to_epoll_def split: if_splits)
    have "replay (sv_ops sv') {0} = Some (own_fds ?sv3 \<union> keys ?sv3)"
      using reg3 kin by (simp add: sv' registry_ok_def replay_append log_ops_def)
    then show ?thesis using ok3 by (simp add: sv' server_ok_def registry_ok_def connected_def log_ops_def own_fds_def)
  next
    case False
    obtain gone sv4 where d: "disconnect_client fd ?sv3 = (gone, sv4)" by fastforce
    then have "destroy_clients None gone sv4 = Runs sv'"
      using fin Some a False by (auto simp: finish_start_def and_then_Runs simp del: destroy_clients.simps)
    moreover have "server_ok sv4" using disconnect_ok [OF reg3 d] server_ok_shrinks [OF ok3] by blast
    ultimately show ?thesis using destroy_clients_ok server_ok_shrinks by (metis server_ok_def)
  qed
qed

text \<open>A newly opened descriptor enters the registry or is closed.\<close>

lemma start_ok:
  assumes ok: "server_ok sv" and fresh: "fd \<notin> own_fds sv \<union> keys sv" "fd \<ge> 0"
    and s: "start_connection_handler h sends polls answer fd (log_ops [Open_fd fd] sv) = Runs (b, sv')"
  shows "server_ok sv'"
proof -
  let ?sv1 = "(log_ops [Open_fd fd] sv)\<lparr>sv_clients := (fd, new_client fd sends polls) # sv_clients sv\<rparr>"
  have st: "starting_ok fd ?sv1" using starting_new [OF ok fresh] .
  then have reg: "registry_ok ?sv1" by (simp add: starting_ok_def)
  have same: "sv_clients (log_ops [Open_fd fd] sv) = sv_clients sv" by (simp add: log_ops_def)
  have none: "map_of (sv_clients sv) fd = None" using fresh(1) by (auto simp: map_of_eq_None_iff)
  obtain r where r: "connection_make fd h = Some r"
    using s none by (auto simp: start_connection_handler_def same Let_def split: option.splits)
  show ?thesis
  proof (cases r)
    case (Inl e)
    obtain gone where d: "disconnect_client fd ?sv1 = (gone, sv')"
      using s none r Inl by (auto simp: start_connection_handler_def same Let_def split: prod.splits)
    then have "fd \<notin> keys sv'" by (auto simp: disconnect_client_def log_ops_def split: prod.splits)
    then show ?thesis using disconnect_ok [OF reg d] starting_shrinks [OF st] starting_gone by blast
  next
    case (Inr calls_cn)
    then obtain calls cn where cc: "connection_make fd h = Some (Inr (calls, cn))" using r by (cases calls_cn) auto
    obtain sv2 where p: "perform_all None calls ?sv1 = Runs sv2"
        "finish_start answer fd (new_client fd sends polls) cn sv2 = Runs (b, sv')"
      using s none cc by (auto simp: start_connection_handler_def same Let_def and_then_Runs)
    have "starting_ok fd sv2" using perform_all_ok [OF reg p(1)] starting_shrinks [OF st] by blast
    then show ?thesis using finish_start_ok connection_make_id [OF cc] p(2) by blast
  qed
qed

lemma incoming_ok:
  "server_ok sv \<Longrightarrow> handle_incoming_connections answers sv = Runs (res, sv') \<Longrightarrow> fresh_opens (sv_ops sv') {0} \<Longrightarrow> server_ok sv'"
proof (induction answers sv rule: handle_incoming_connections.induct)
  case (1 answers sv)
  obtain a rest where r: "retry (\<lambda>a. a = Accept_interrupted) Accept_would_block answers = (a, rest)" by fastforce
  show ?case
  proof (cases a)
    case (Accepted fd h sends polls add)
    let ?sv = "log_ops [Open_fd (int fd)] sv"
    obtain ok sv1 where s: "start_connection_handler h sends polls add (int fd) ?sv = Runs (ok, sv1)"
        "handle_incoming_connections rest sv1 = Runs (res, sv')"
      using 1(3) r Accepted by (subst (asm) (1) handle_incoming_connections.simps) (auto simp: and_then_Runs)
    obtain ops where ops: "sv_ops sv' = sv_ops sv @ Open_fd (int fd) # ops"
      using grows_trans [OF grows_start [OF s(1)] grows_incoming [OF s(2)]] by (auto simp: grows_def log_ops_def)
    have "replay (sv_ops sv) {0} = Some (own_fds sv \<union> keys sv)" using 1(2) by (simp add: server_ok_def registry_ok_def)
    then have "int fd \<notin> own_fds sv \<union> keys sv" using 1(4) fresh_opens_replay ops by (metis fresh_opens.simps(2))
    then have "server_ok sv1" using start_ok [OF 1(2) _ _ s(1)] by simp
    then show ?thesis using 1(1) [OF r [symmetric] Accepted _ s(2) 1(4)] by blast
  qed (use 1(2,3) r in \<open>subst (asm) handle_incoming_connections.simps, simp\<close>)+
qed

lemma deliver_id: "deliver data cn = Some (Inr cn') \<Longrightarrow> cn_unique_id cn' = cn_unique_id cn"
  by (auto simp: deliver_def split: option.splits write_call.splits write_result.splits prod.splits)

lemma receive_loop_id:
  "receive_loop fd i answers deliver cn = Some (res, cn') \<Longrightarrow> cn_unique_id cn' = cn_unique_id cn"
proof (induction answers arbitrary: i cn)
  case Nil
  then show ?case by (subst (asm) receive_loop.simps) (auto split: if_splits)
next
  case (Cons a answers)
  have skip: "receive_loop fd i (Rx_interrupted # answers) deliver cn = receive_loop fd i answers deliver cn"
    by (subst (1 2) receive_loop.simps) simp
  have step: "receive_loop fd i (Rx data # answers) deliver cn =
      (if fd i < 0 then Some (Inr False, cn)
       else if data \<noteq> [] then
         (case deliver data cn of None \<Rightarrow> None | Some (Inl e) \<Rightarrow> Some (Inl e, cn)
          | Some (Inr c') \<Rightarrow> receive_loop fd (Suc i) answers deliver c')
       else Some (Inr False, cn))" for data
    by (subst receive_loop.simps) simp
  show ?case
  proof (cases a)
    case (Rx data)
    consider "cn' = cn" | c' where "deliver data cn = Some (Inr c')" "receive_loop fd (Suc i) answers deliver c' = Some (res, cn')"
      using Cons.prems unfolding Rx step by (auto split: if_splits option.splits sum.splits)
    then show ?thesis
    proof cases
      case (2 c')
      then show ?thesis using Cons.IH [OF 2(2)] deliver_id [OF 2(1)] by simp
    qed simp
  next
    case Rx_interrupted
    then show ?thesis using Cons skip by simp
  next
    case Rx_would_block
    then show ?thesis using Cons.prems by (subst (asm) receive_loop.simps) (auto split: if_splits)
  next
    case Rx_error
    then show ?thesis using Cons.prems by (subst (asm) receive_loop.simps) (auto split: if_splits)
  qed
qed

lemma disconnect_and_destroy_ok:
  assumes ok: "server_ok sv" and d: "disconnect_and_destroy fd sv = Runs sv'"
  shows "server_ok sv'"
proof -
  obtain gone sv1 where dc: "disconnect_client fd sv = (gone, sv1)" by fastforce
  have "registry_ok sv" using ok by (simp add: server_ok_def)
  then have "server_ok sv1" using disconnect_ok [OF _ dc] server_ok_shrinks [OF ok] by blast
  moreover have "destroy_clients None gone sv1 = Runs sv'" using d dc by (simp add: disconnect_and_destroy_def)
  ultimately show ?thesis using destroy_clients_ok server_ok_shrinks by (metis server_ok_def)
qed

lemma process_client_event_cases:
  assumes p: "process_client_event answers fd events sv = Runs sv'"
  obtains (same) "sv' = sv" | (drop) "disconnect_and_destroy fd sv = Runs sv'"
    | (received) c cn res cn' where "map_of (sv_clients sv) fd = Some c" "cl_connection c = Some cn"
        "receive_loop (\<lambda>_. sk_fd (cl_socket c)) 0 answers deliver cn = Some (res, cn')"
        "sv' = put_client fd (c\<lparr>cl_connection := Some cn'\<rparr>) sv
         \<or> disconnect_and_destroy fd (put_client fd (c\<lparr>cl_connection := Some cn'\<rparr>) sv) = Runs sv'"
proof (cases "find_client fd sv")
  case None
  then show thesis using p same by (simp add: process_client_event_def)
next
  case (Some c)
  then have c: "map_of (sv_clients sv) fd = Some c" by (simp add: find_client_def)
  show thesis
  proof (cases "events AND EPOLLIN = 0")
    case True
    then have "sv' = sv \<or> disconnect_and_destroy fd sv = Runs sv'"
      using p Some by (auto simp: process_client_event_def Let_def split: if_splits)
    then show thesis using same drop by blast
  next
    case False
    then obtain cn res cn' where r: "cl_connection c = Some cn"
        "receive_loop (\<lambda>_. sk_fd (cl_socket c)) 0 answers deliver cn = Some (res, cn')"
      using p Some by (auto simp: process_client_event_def Let_def split: option.splits)
    from p Some False r show thesis
      by (intro received [OF c r]) (auto simp: process_client_event_def Let_def split: sum.splits if_splits)
  qed
qed

lemma process_client_event_ok:
  assumes ok: "server_ok sv" and p: "process_client_event answers fd events sv = Runs sv'"
  shows "server_ok sv'"
  using p
proof (cases rule: process_client_event_cases)
  case (received c cn res cn')
  let ?sv = "put_client fd (c\<lparr>cl_connection := Some cn'\<rparr>) sv"
  have reg: "registry_ok sv" using ok by (simp add: server_ok_def)
  have "client_ok (own_fds sv) (fd, c\<lparr>cl_connection := Some cn'\<rparr>)"
    using registry_lookup [OF reg received(1)] received(2) receive_loop_id [OF received(3)] by (simp add: client_ok_def)
  then have "registry_ok ?sv" using reg by (intro put_client_ok)
  moreover have "connected ?sv" using ok by (auto simp: server_ok_def connected_def list_all_iff put_client_def)
  ultimately have "server_ok ?sv" using ok by (simp add: server_ok_def put_client_def)
  then show ?thesis using received(4) disconnect_and_destroy_ok by blast
qed (use ok disconnect_and_destroy_ok in auto)

lemma handle_event_cases:
  assumes h: "handle_event ev sv = Runs (r, sv')"
  obtains (accept) res where "handle_incoming_connections (le_accepts ev) sv = Runs (res, sv')"
    | (same) "sv' = sv"
    | (bye) "broadcast None shutdown_message sv = Runs sv'"
    | (client) "process_client_event (le_input ev) (le_fd ev) (le_events ev) sv = Runs sv'"
proof (cases "le_fd ev = sv_listen_fd sv")
  case True
  then show thesis using h accept by (auto simp: handle_event_def and_then_Runs)
next
  case False
  then show thesis
    using h same bye client by (auto simp: handle_event_def and_then_Runs split: if_splits sum.splits)
qed

lemma handle_event_ok:
  assumes ok: "server_ok sv" and h: "handle_event ev sv = Runs (r, sv')" and fresh: "fresh_opens (sv_ops sv') {0}"
  shows "server_ok sv'"
  using h
proof (cases rule: handle_event_cases)
  case (accept res)
  then show ?thesis using incoming_ok [OF ok _ fresh] by blast
next
  case same
  then show ?thesis using ok by simp
next
  case bye
  have "registry_ok sv" using ok by (simp add: server_ok_def)
  then show ?thesis using bye broadcast_ok server_ok_shrinks [OF ok] by blast
next
  case client
  then show ?thesis using process_client_event_ok [OF ok] by blast
qed

section \<open>Shutting down closes everything\<close>

lemma close_all_replay:
  assumes "epoll_fd \<ge> 0" and "distinct (map fst cs)" and "list_all (client_ok own) cs" and "fst ` set cs \<subseteq> S"
  shows "replay (fst (close_all epoll_fd cs) @ rest) S = replay rest (S - fst ` set cs)"
  using assms(2-)
proof (induction cs arbitrary: S)
  case (Cons e cs)
  obtain fd c where e: "e = (fd, c)" by fastforce
  have fd: "sk_fd (cl_socket c) = fd" "fd \<ge> 0" "fd \<in> S" "fd \<notin> fst ` set cs"
    using Cons.prems e by (auto simp: client_ok_def)
  obtain ops cs' where r: "close_all epoll_fd cs = (ops, cs')" by fastforce
  have sub: "fst ` set cs \<subseteq> S - {fd}" using Cons.prems(3) fd(4) by auto
  have "fst (close_all epoll_fd (e # cs)) = [Epoll_del fd, Shutdown_fd fd, Close_fd fd] @ ops"
    using e fd assms(1) r by (simp add: close_connection_def Let_def)
  moreover have "replay (ops @ rest) (S - {fd}) = replay rest (S - {fd} - fst ` set cs)"
    using Cons.IH [OF _ _ sub] Cons.prems r by simp
  moreover have "S - {fd} - fst ` set cs = S - fst ` set (e # cs)" using e by auto
  ultimately show ?case using fd(3) by simp
qed simp

lemma destroy_unregistered: "sv_clients sv = [] \<Longrightarrow> destroy_clients None cs sv = Runs sv"
  by (induction cs) (auto simp: send_everyone_def split: option.splits)

lemma cleanup_ok:
  assumes "server_ok sv"
  shows "\<exists>sv'. cleanup sv = Runs sv' \<and> replay (sv_ops sv') {0} = Some {0} \<and> sv_clients sv' = []"
proof -
  obtain ops cs where c: "close_all (sv_epoll_fd sv) (sv_clients sv) = (ops, cs)" by fastforce
  let ?fds = "close_server_fds (sv_listen_fd sv) (sv_epoll_fd sv)"
  let ?sv = "log_ops (ops @ ?fds) (sv\<lparr>sv_clients := [], sv_listen_fd := - 1, sv_epoll_fd := - 1\<rparr>)"
  have reg: "registry_ok sv" and fds: "sv_listen_fd sv > 0" "sv_epoll_fd sv > 0" "sv_listen_fd sv \<noteq> sv_epoll_fd sv"
    using assms by (auto simp: server_ok_def)
  have disj: "(own_fds sv \<union> keys sv) - keys sv = own_fds sv"
    using reg by (auto simp: registry_ok_def list_all_iff client_ok_def)
  have run: "cleanup sv = Runs ?sv"
    unfolding cleanup_def c using destroy_unregistered [of ?sv cs] by (simp add: Let_def log_ops_def)
  have "replay (ops @ ?fds) (own_fds sv \<union> keys sv) = replay ?fds (own_fds sv)"
    using close_all_replay [of "sv_epoll_fd sv" "sv_clients sv" "own_fds sv" "own_fds sv \<union> keys sv" ?fds] reg fds c disj
    by (simp add: registry_ok_def)
  also have "\<dots> = Some {0}" using fds by (auto simp: close_server_fds_def own_fds_def)
  finally have "replay (sv_ops ?sv) {0} = Some {0}" using reg by (simp add: registry_ok_def replay_append log_ops_def)
  with run show ?thesis by (auto simp: log_ops_def)
qed

section \<open>Every interleaving\<close>

text \<open>
  The event loop handles events; the thread of any handler makes calls on the server in between.  A
  step is possible only when the system hands out fresh descriptors.
\<close>

datatype server_event = Sv_loop loop_event | Sv_calls int "server_call list"

inductive server_step :: "chat_server \<Rightarrow> server_event \<Rightarrow> chat_server \<Rightarrow> bool" where
  sv_loop: "handle_event ev sv = Runs (r, sv') \<Longrightarrow> fresh_opens (sv_ops sv') {0} \<Longrightarrow> server_step sv (Sv_loop ev) sv'"
| sv_calls: "perform_all (Some i) calls sv = Runs sv' \<Longrightarrow> server_step sv (Sv_calls i calls) sv'"

inductive_cases server_step_cases: "server_step sv l sv'"

definition server_init :: "nat \<Rightarrow> chat_server \<Rightarrow> bool" where
  "server_init port sv \<longleftrightarrow>
     (\<exists>a ops listen_fd epoll_fd. server_setup port a = (ops, Inr (listen_fd, epoll_fd)) \<and> fresh_opens ops {0}
        \<and> sv = \<lparr>sv_listen_fd = listen_fd, sv_epoll_fd = epoll_fd, sv_clients = [], sv_ops = ops\<rparr>)"

lemma setup_ops:
  assumes "server_setup port a = (ops, Inr (listen_fd, epoll_fd))"
  shows "ops = [Open_fd listen_fd, Open_fd epoll_fd, Epoll_add listen_fd, Epoll_add 0]" and "listen_fd \<ge> 0" and "epoll_fd \<ge> 0"
  using assms
  by (auto simp: server_setup_def create_listen_socket_def add_to_epoll_def opened_fd_def Let_def split: if_splits)

interpretation server: inductive_invariant "server_init port" server_step "\<lambda>_. True" server_ok for port
proof unfold_locales
  fix sv
  assume "server_init port sv"
  then obtain a ops l e where s: "server_setup port a = (ops, Inr (l, e))" "fresh_opens ops {0}"
      "sv = \<lparr>sv_listen_fd = l, sv_epoll_fd = e, sv_clients = [], sv_ops = ops\<rparr>"
    by (auto simp: server_init_def)
  note o = setup_ops [OF s(1)]
  have "l \<noteq> 0" "e \<noteq> 0" "l \<noteq> e" using s(2) o(1) by auto
  then show "server_ok sv"
    using o s(3) by (auto simp: server_ok_def registry_ok_def connected_def own_fds_def)
next
  fix sv l sv'
  assume ok: "server_ok sv" and step: "server_step sv l sv'"
  from step show "server_ok sv'"
  proof (cases rule: server_step.cases)
    case (sv_loop ev r)
    then show ?thesis using handle_event_ok [OF ok] by blast
  next
    case (sv_calls i calls)
    have "registry_ok sv" using ok by (simp add: server_ok_def)
    then show ?thesis using perform_all_ok [OF _ sv_calls(2)] server_ok_shrinks [OF ok] by blast
  qed
qed

section \<open>The event loop does not terminate the program\<close>

lemma destroy_None_runs: "\<exists>sv'. destroy_clients None cs sv = Runs sv'"
proof (induction "None :: int option" cs sv rule: destroy_clients.induct)
  case (2 c cs sv)
  then show ?case by (auto split: option.splits prod.splits)
qed simp

lemma perform_None_runs: "\<exists>sv'. perform None call sv = Runs sv'"
  using destroy_None_runs by (cases call) (auto simp: reply_def broadcast_def Let_def split: option.splits prod.splits)

lemma perform_all_None_runs: "\<exists>sv'. perform_all None calls sv = Runs sv'"
proof (induction calls arbitrary: sv)
  case (Cons call calls)
  obtain sv1 where "perform None call sv = Runs sv1" using perform_None_runs by blast
  then show ?case using Cons [of sv1] by simp
qed simp

lemma finish_start_runs: "\<exists>r. finish_start answer fd client cn sv = Runs r"
proof -
  have d: "\<exists>r. and_then (destroy_clients None cs x) (\<lambda>sv'. Runs (False, sv')) = Runs r" for cs x
    using destroy_None_runs [of cs x] by auto
  show ?thesis
    unfolding finish_start_def Let_def using d by (auto split: option.split prod.split simp del: destroy_clients.simps)
qed

lemma connection_make_runs: "\<exists>calls cn. connection_make uid h = Some (Inr (calls, cn))"
  by (simp add: connection_make_def pipeline_make_def validate_options_def default_pipe_options_def
      pipeline_construct_def make_allocator_def fixed_pool_make_def Let_def)

lemma start_runs: "\<exists>ok sv'. start_connection_handler h sends polls answer fd sv = Runs (ok, sv')"
proof (cases "map_of (sv_clients sv) fd")
  case None
  let ?client = "new_client fd sends polls"
  let ?sv1 = "sv\<lparr>sv_clients := (fd, ?client) # sv_clients sv\<rparr>"
  obtain calls cn where c: "connection_make fd h = Some (Inr (calls, cn))" using connection_make_runs by blast
  obtain sv2 where p: "perform_all None calls ?sv1 = Runs sv2" using perform_all_None_runs by blast
  obtain r where "finish_start answer fd ?client cn sv2 = Runs r" using finish_start_runs by blast
  then show ?thesis using None c p by (cases r) (simp add: start_connection_handler_def Let_def)
qed (auto simp: start_connection_handler_def Let_def split: prod.splits)

lemma incoming_runs: "\<exists>r. handle_incoming_connections answers sv = Runs r"
proof (induction answers sv rule: handle_incoming_connections.induct)
  case (1 answers sv)
  obtain a rest where r: "retry (\<lambda>a. a = Accept_interrupted) Accept_would_block answers = (a, rest)" by fastforce
  show ?case
  proof (cases a)
    case (Accepted fd h sends polls add)
    obtain ok sv1 where s: "start_connection_handler h sends polls add (int fd) (log_ops [Open_fd (int fd)] sv) = Runs (ok, sv1)"
      using start_runs by blast
    have "\<exists>r. handle_incoming_connections rest sv1 = Runs r" using 1 [OF r [symmetric] Accepted] by blast
    then show ?thesis using r Accepted s by (subst handle_incoming_connections.simps) simp
  qed (use r in \<open>subst handle_incoming_connections.simps, simp\<close>)+
qed

lemma process_client_event_not_terminates:
  assumes "connected sv"
  shows "process_client_event answers fd events sv \<noteq> Terminates"
proof -
  have d: "disconnect_and_destroy k x \<noteq> Terminates" for k x
    unfolding disconnect_and_destroy_def using destroy_None_runs by (auto split: prod.split) (metis outcome.distinct(1))
  have "cl_connection c \<noteq> None" if "find_client fd sv = Some c" for c
    using assms map_of_SomeD [of "sv_clients sv" fd c] that by (force simp: connected_def list_all_iff find_client_def)
  then show ?thesis
    using d by (auto simp: process_client_event_def Let_def split: option.split sum.split)
qed

lemma handle_event_not_terminates: "connected sv \<Longrightarrow> handle_event ev sv \<noteq> Terminates"
proof -
  assume c: "connected sv"
  have b: "\<exists>x. broadcast None m sv = Runs x" for m using perform_None_runs [of "Broadcast m" sv] by simp
  obtain r where i: "handle_incoming_connections (le_accepts ev) sv = Runs r" using incoming_runs by blast
  obtain x where x: "broadcast None shutdown_message sv = Runs x" using b by blast
  have p: "and_then (process_client_event a fd e sv) (\<lambda>sv'. Runs (Next_wait, sv')) \<noteq> Terminates" for a fd e
    using process_client_event_not_terminates [OF c, of a fd e] by (cases "process_client_event a fd e sv") auto
  show ?thesis
    using i x p by (cases r) (simp add: handle_event_def split: sum.split)
qed

section \<open>A failing send removes its own client\<close>

lemma put_client_lookup:
  "map_of (sv_clients (put_client fd c sv)) k =
     (if k = fd then map_option (\<lambda>_. c) (map_of (sv_clients sv) fd) else map_of (sv_clients sv) k)"
proof -
  have "map_of (map (\<lambda>(k, d). (k, if k = fd then c else d)) xs) k =
     (if k = fd then map_option (\<lambda>_. c) (map_of xs fd) else map_of xs k)" for xs :: "(int \<times> chat_client) list"
    by (induction xs) auto
  then show ?thesis by (simp add: put_client_def)
qed

definition has_handler :: "int \<Rightarrow> chat_client list \<Rightarrow> bool" where
  "has_handler i cs \<longleftrightarrow> (\<exists>g cn. g \<in> set cs \<and> cl_connection g = Some cn \<and> cn_unique_id cn = i)"

lemma has_handler_append [simp]: "has_handler i (xs @ ys) \<longleftrightarrow> has_handler i xs \<or> has_handler i ys"
  by (auto simp: has_handler_def)

lemma disconnect_has_handler:
  assumes c: "map_of (sv_clients sv) fd = Some c" and cn: "cl_connection c = Some cn"
  shows "has_handler (cn_unique_id cn) (fst (disconnect_client fd sv))"
proof -
  have id: "cn_unique_id (connection_close cn) = cn_unique_id cn" by (simp add: connection_close_def set_pipe_def)
  obtain ops c' where cc: "close_connection c = (ops, c')" by fastforce
  then have "cl_connection c' = Some cn \<or> cl_connection c' = Some (connection_close cn)"
    using cn by (auto simp: close_connection_def Let_def split: if_splits)
  then show ?thesis using c cc id by (auto simp: disconnect_client_def has_handler_def)
qed

lemma send_or_disconnect_fails:
  assumes reg: "registry_ok sv" and c: "map_of (sv_clients sv) fd = Some c" and cn: "cl_connection c = Some cn"
    and fails: "\<not> fst (send_data m (cl_socket c))"
  shows "has_handler fd (fst (send_or_disconnect m fd sv))"
proof -
  obtain sk where sd: "send_data m (cl_socket c) = (False, sk)" using fails by (cases "send_data m (cl_socket c)") auto
  let ?c = "c\<lparr>cl_socket := sk\<rparr>"
  have "sk_fd sk = fd" using send_data_fd [OF sd] registry_lookup(1) [OF reg c] by simp
  then have "send_or_disconnect m fd sv = disconnect_client fd (put_client fd ?c sv)"
    using c sd by (simp add: send_or_disconnect_def Let_def)
  then show ?thesis
    using disconnect_has_handler [of "put_client fd ?c sv" fd ?c cn] c cn registry_lookup(5) [OF reg c cn]
    by (simp add: put_client_lookup)
qed

lemma disconnect_other:
  "k \<noteq> fd \<Longrightarrow> disconnect_client k sv = (gone, sv') \<Longrightarrow> map_of (sv_clients sv') fd = map_of (sv_clients sv) fd"
proof -
  assume k: "k \<noteq> fd" and d: "disconnect_client k sv = (gone, sv')"
  have "map_of (filter (\<lambda>(j, d). j \<noteq> k) xs) fd = map_of xs fd" for xs :: "(int \<times> chat_client) list"
    using k by (induction xs) auto
  then show ?thesis
    using d by (auto simp: disconnect_client_def log_ops_def split: option.splits prod.splits)
qed

lemma send_or_disconnect_other:
  assumes reg: "registry_ok sv" and k: "k \<noteq> fd" and s: "send_or_disconnect m k sv = (gone, sv')"
  shows "map_of (sv_clients sv') fd = map_of (sv_clients sv) fd"
proof (cases "map_of (sv_clients sv) k")
  case None
  then show ?thesis using s by (simp add: send_or_disconnect_def)
next
  case (Some c)
  obtain ok sk where sd: "send_data m (cl_socket c) = (ok, sk)" by fastforce
  have "sk_fd sk = k" using send_data_fd [OF sd] registry_lookup(1) [OF reg Some] by simp
  then have "sv' = put_client k (c\<lparr>cl_socket := sk\<rparr>) sv
      \<or> disconnect_client k (put_client k (c\<lparr>cl_socket := sk\<rparr>) sv) = (gone, sv')"
    using s Some sd by (auto simp: send_or_disconnect_def Let_def split: if_splits)
  then show ?thesis
    using disconnect_other [OF k] k put_client_lookup [of k "c\<lparr>cl_socket := sk\<rparr>" sv fd] by auto
qed

lemma send_each_fails:
  assumes "registry_ok sv" and "map_of (sv_clients sv) fd = Some c" and "cl_connection c = Some cn"
    and "\<not> fst (send_data m (cl_socket c))" and "fd \<in> set fds"
  shows "has_handler fd (fst (send_each m fds sv))"
  using assms(1,2,5)
proof (induction fds arbitrary: sv)
  case (Cons k fds)
  obtain g1 sv1 where s: "send_or_disconnect m k sv = (g1, sv1)" by fastforce
  show ?case
  proof (cases "k = fd")
    case True
    then have "has_handler fd g1"
      using send_or_disconnect_fails [OF Cons.prems(1,2) assms(3,4)] s by simp
    then show ?thesis using s by (simp split: prod.split)
  next
    case False
    have "map_of (sv_clients sv1) fd = Some c" using send_or_disconnect_other [OF Cons.prems(1) False s] Cons.prems(2) by simp
    moreover have "registry_ok sv1" using send_or_disconnect_ok [OF Cons.prems(1) s] by simp
    ultimately have "has_handler fd (fst (send_each m fds sv1))" using Cons.IH [of sv1] Cons.prems(3) False by auto
    then show ?thesis using s by (auto split: prod.split)
  qed
qed simp

text \<open>Sending to clients that all take the message reaches each of them and removes none.\<close>

definition sent_to :: "byte list \<Rightarrow> chat_client \<Rightarrow> chat_client" where
  "sent_to m c = c\<lparr>cl_socket := snd (send_data m (cl_socket c))\<rparr>"

lemma put_sent:
  assumes "distinct (map fst cs)" and "map_of cs k = Some c"
  shows "map (\<lambda>(j, d). (j, if j = k then f c else d)) cs = map (\<lambda>(j, d). (j, if j = k then f d else d)) cs"
proof -
  have "d = c" if "(k, d) \<in> set cs" for d using that assms by (metis map_of_eq_Some_iff option.inject)
  then show ?thesis by auto
qed

lemma send_each_reaches:
  assumes "distinct fds" and "distinct (map fst (sv_clients sv))"
    and "\<And>k. k \<in> set fds \<Longrightarrow> \<exists>c. map_of (sv_clients sv) k = Some c \<and> fst (send_data m (cl_socket c))"
  shows "send_each m fds sv =
     ([], sv\<lparr>sv_clients := map (\<lambda>(k, c). (k, if k \<in> set fds then sent_to m c else c)) (sv_clients sv)\<rparr>)"
  using assms
proof (induction fds arbitrary: sv)
  case Nil
  then show ?case by (simp add: case_prod_beta)
next
  case (Cons k fds)
  obtain c where c: "map_of (sv_clients sv) k = Some c" "fst (send_data m (cl_socket c))"
    using Cons.prems(3) [of k] by auto
  obtain sk where sd: "send_data m (cl_socket c) = (True, sk)" using c(2) by (cases "send_data m (cl_socket c)") auto
  let ?sv = "put_client k (sent_to m c) sv"
  have first: "send_or_disconnect m k sv = ([], ?sv)" using c(1) sd by (simp add: send_or_disconnect_def Let_def sent_to_def)
  have "send_each m fds ?sv =
     ([], ?sv\<lparr>sv_clients := map (\<lambda>(k, c). (k, if k \<in> set fds then sent_to m c else c)) (sv_clients ?sv)\<rparr>)"
  proof (rule Cons.IH)
    show "distinct fds" using Cons.prems(1) by simp
    show "distinct (map fst (sv_clients ?sv))" using Cons.prems(2) by simp
    fix j
    assume "j \<in> set fds"
    then show "\<exists>c. map_of (sv_clients ?sv) j = Some c \<and> fst (send_data m (cl_socket c))"
      using Cons.prems(1,3) by (auto simp: put_client_lookup)
  qed
  moreover have "sv_clients ?sv = map (\<lambda>(j, d). (j, if j = k then sent_to m d else d)) (sv_clients sv)"
    using put_sent [OF Cons.prems(2) c(1), of "sent_to m"] by (simp add: put_client_def)
  ultimately show ?case
    using first Cons.prems(1) by (auto simp: put_client_def case_prod_beta intro!: map_cong)
qed

section \<open>Properties\<close>


text \<open>C38: A handler thread that fails to send to its own client brings the whole server down.  Whether it is a
  reply or a broadcast, the thread disconnects the client, drops the last pointer to it and so runs
  the destructor of its own handler, whose \<open>join\<close> on the current thread throws out of the destructor.
  The same failure in the event loop only disconnects the client.\<close>

theorem own_thread_disconnect_terminates:
  assumes reg: "registry_ok sv" and c: "map_of (sv_clients sv) fd = Some c" and cn: "cl_connection c = Some cn"
    and fails: "\<not> fst (send_data message (cl_socket c))"
  shows "reply (Some fd) fd message sv = Terminates \<and> broadcast (Some fd) message sv = Terminates
    \<and> (\<exists>sv'. reply None fd message sv = Runs sv') \<and> (\<exists>sv'. broadcast None message sv = Runs sv')"
proof -
  obtain sk where sd: "send_data message (cl_socket c) = (False, sk)"
    using fails by (cases "send_data message (cl_socket c)") auto
  let ?c = "c\<lparr>cl_socket := sk\<rparr>"
  let ?sv = "put_client fd ?c sv"
  have own: "destroy_clients (Some fd) gone x = Terminates" if "has_handler fd gone" for gone x
    using that destroy_own_terminates unfolding has_handler_def by blast
  have "has_handler fd (fst (disconnect_client fd ?sv))"
    using disconnect_has_handler [of ?sv fd ?c cn] c cn registry_lookup(5) [OF reg c cn] by (simp add: put_client_lookup)
  then have "reply (Some fd) fd message sv = Terminates"
    using c sd own by (auto simp: reply_def find_client_def Let_def split: prod.split)
  moreover have "fd \<in> set (map fst (sv_clients sv))" using registry_lookup(4) [OF reg c] by force
  from send_each_fails [OF reg c cn fails this] have "broadcast (Some fd) message sv = Terminates"
    using own by (auto simp: broadcast_def send_everyone_def split: prod.split)
  ultimately show ?thesis
    using perform_None_runs [of "Reply fd message" sv] perform_None_runs [of "Broadcast message" sv] by simp
qed

text \<open>A broadcast reaches everyone: when the socket of every registered client takes the message, the
  message is appended to what each of them was sent, nobody is disconnected, no descriptor is touched
  and the broadcast returns, whichever thread makes it.\<close>

lemma broadcast_reaches_everyone:
  assumes "registry_ok sv" and "list_all (\<lambda>(fd, c). fst (send_data message (cl_socket c))) (sv_clients sv)"
  shows "\<exists>sv'. broadcast self message sv = Runs sv' \<and> sv_ops sv' = sv_ops sv
    \<and> map fst (sv_clients sv') = map fst (sv_clients sv)
    \<and> map (\<lambda>(fd, c). sk_sent (cl_socket c)) (sv_clients sv')
        = map (\<lambda>(fd, c). sk_sent (cl_socket c) @ message) (sv_clients sv)"
proof -
  let ?cs = "sv_clients sv"
  have d: "distinct (map fst ?cs)" using assms(1) by (simp add: registry_ok_def)
  have "\<exists>c. map_of ?cs k = Some c \<and> fst (send_data message (cl_socket c))" if "k \<in> set (map fst ?cs)" for k
    using that d assms(2) by (auto simp: list_all_iff map_of_eq_Some_iff)
  from send_each_reaches [OF d d this] have run: "send_everyone message sv =
      ([], sv\<lparr>sv_clients := map (\<lambda>(k, c). (k, if k \<in> set (map fst ?cs) then sent_to message c else c)) ?cs\<rparr>)"
    by (simp add: send_everyone_def)
  have "sk_sent (cl_socket (sent_to message c)) = sk_sent (cl_socket c) @ message" if "(k, c) \<in> set ?cs" for k c
  proof -
    have "sk_fd (cl_socket c) \<ge> 0"
      using that assms(1) by (auto simp: registry_ok_def list_all_iff client_ok_def)
    moreover have "fst (send_data message (cl_socket c))" using that assms(2) by (auto simp: list_all_iff)
    ultimately show ?thesis
      using send_loop_prefix [of "sk_sends (cl_socket c)" "sk_polls (cl_socket c)" message]
      by (auto simp: sent_to_def send_data_def split: prod.splits)
  qed
  then have "map (\<lambda>(fd, c). sk_sent (cl_socket c)) (map (\<lambda>(k, c). (k, if k \<in> set (map fst ?cs) then sent_to message c else c)) ?cs)
      = map (\<lambda>(fd, c). sk_sent (cl_socket c) @ message) ?cs" by (force intro!: map_cong)
  with run show ?thesis by (simp add: broadcast_def case_prod_beta comp_def)
qed

section \<open>A server with two clients\<close>

definition demo_connection :: "int \<Rightarrow> chat_connection" where
  "demo_connection uid = \<lparr>cn_unique_id = uid, cn_name = initial_name uid, cn_closed = False, cn_stop = False,
     cn_sys = demo_init, cn_pc = H_reading, cn_calls = []\<rparr>"

definition demo_client :: "int \<Rightarrow> io_result list \<Rightarrow> int \<times> chat_client" where
  "demo_client fd sends = (fd, (new_client fd sends [])\<lparr>cl_connection := Some (demo_connection fd)\<rparr>)"

definition demo_server :: "io_result list \<Rightarrow> chat_server" where
  "demo_server sends = \<lparr>sv_listen_fd = 3, sv_epoll_fd = 4, sv_clients = [demo_client 5 sends, demo_client 6 [Io 9, Io 9]],
     sv_ops = [Open_fd 3, Open_fd 4, Open_fd 5, Open_fd 6]\<rparr>"

lemmas demo_server_defs = demo_server_def demo_client_def new_client_def demo_connection_def

lemma demo_server_ok: "registry_ok (demo_server sends)"
  by (auto simp: registry_ok_def demo_server_defs client_ok_def own_fds_def)

lemma send_one:
  assumes "message \<noteq> []" and "length message \<le> n"
  shows "send_loop (Io n # sends) polls message = (True, message, sends, polls)"
proof -
  have "n > 0" using assms by (cases message) auto
  have "send_loop sends polls [] = (True, [], sends, polls)" by (subst send_loop.simps) simp
  then show ?thesis using assms \<open>n > 0\<close> by (subst send_loop.simps) simp
qed

lemma broadcast_reaches_everyone_witness:
  "\<exists>sv'. broadcast (Some 5) [104, 105] (demo_server [Io 9]) = Runs sv' \<and> map fst (sv_clients sv') = [5, 6]
     \<and> map (\<lambda>(fd, c). sk_sent (cl_socket c)) (sv_clients sv') = [[104, 105], [104, 105]]"
proof -
  have "list_all (\<lambda>(fd, c). fst (send_data [104, 105] (cl_socket c))) (sv_clients (demo_server [Io 9]))"
    by (simp add: demo_server_defs send_data_def send_one)
  from broadcast_reaches_everyone [OF demo_server_ok this, of "Some 5"]
  obtain sv' where sv': "broadcast (Some 5) [104, 105] (demo_server [Io 9]) = Runs sv'"
      "map fst (sv_clients sv') = map fst (sv_clients (demo_server [Io 9]))"
      "map (\<lambda>(fd, c). sk_sent (cl_socket c)) (sv_clients sv')
         = map (\<lambda>(fd, c). sk_sent (cl_socket c) @ [104, 105]) (sv_clients (demo_server [Io 9]))" by blast
  show ?thesis by (rule exI [of _ sv'], simp only: sv') (simp add: demo_server_defs)
qed

lemma own_thread_disconnect_terminates_witness:
  "broadcast (Some 5) [104, 105] (demo_server [Io_error]) = Terminates
   \<and> (\<exists>sv'. broadcast None [104, 105] (demo_server [Io_error]) = Runs sv')"
proof -
  let ?c = "snd (demo_client 5 [Io_error])"
  have "map_of (sv_clients (demo_server [Io_error])) 5 = Some ?c" "cl_connection ?c = Some (demo_connection 5)"
    by (simp_all add: demo_server_defs)
  moreover have "\<not> fst (send_data [104, 105] (cl_socket ?c))"
    by (simp add: demo_client_def new_client_def send_data_def send_loop.simps)
  ultimately show ?thesis using own_thread_disconnect_terminates [OF demo_server_ok, of "[Io_error]" 5 ?c] by blast
qed

definition demo_setup :: setup_answers where
  "demo_setup = \<lparr>sa_socket = 3, sa_setsockopt = 0, sa_bind = 0, sa_listen = 0, sa_epoll_create = 4, sa_add_listen = 0,
     sa_add_stdin = 0\<rparr>"

definition demo_fresh :: chat_server where
  "demo_fresh = \<lparr>sv_listen_fd = 3, sv_epoll_fd = 4, sv_clients = [],
     sv_ops = [Open_fd 3, Open_fd 4, Epoll_add 3, Epoll_add 0]\<rparr>"

lemma demo_fresh_init: "server_init 9090 demo_fresh"
  unfolding server_init_def
  by (intro exI [of _ demo_setup] exI [of _ "sv_ops demo_fresh"] exI [of _ 3] exI [of _ 4])
    (simp add: demo_setup_def demo_fresh_def server_setup_def create_listen_socket_def add_to_epoll_def opened_fd_def)

text \<open>One connection arrives and is greeted.\<close>

definition demo_accept :: loop_event where
  "demo_accept = \<lparr>le_fd = 3, le_events = EPOLLIN,
     le_accepts = [Accept_interrupted, Accepted 5 heap_empty [Io 999, Io 999] [] 0], le_input = []\<rparr>"

lemma greetings_short:
  "MOTD (initial_name 5) \<noteq> []" "length (MOTD (initial_name 5)) \<le> 999"
  "joined_message (initial_name 5) \<noteq> []" "length (joined_message (initial_name 5)) \<le> 999"
  by (simp_all add: MOTD_def joined_message_def initial_name_def bytes_of_def sparkles_def int_dec_def dec.simps speech_bubble_def
      blossom_def info_sign_def megaphone_def)

lemma connection_make_calls:
  "connection_make uid h = Some (Inr (calls, cn))
   \<Longrightarrow> calls = [Reply uid (MOTD (initial_name uid)), Broadcast (joined_message (initial_name uid))]"
  by (auto simp: connection_make_def Let_def split: option.splits sum.splits)

lemma demo_accept_step:
  "\<exists>sv. server_step demo_fresh (Sv_loop demo_accept) sv \<and> map fst (sv_clients sv) = [5]"
proof -
  obtain cn where cn: "connection_make 5 heap_empty
      = Some (Inr ([Reply 5 (MOTD (initial_name 5)), Broadcast (joined_message (initial_name 5))], cn))"
    using connection_make_runs [of 5 heap_empty] connection_make_calls by blast
  let ?sv = "log_ops [Open_fd 5] demo_fresh"
  have "\<exists>sv. start_connection_handler heap_empty [Io 999, Io 999] [] 0 5 ?sv = Runs (True, sv)
      \<and> map fst (sv_clients sv) = [5] \<and> sv_ops sv = sv_ops demo_fresh @ [Open_fd 5, Epoll_add 5]"
    by (simp add: start_connection_handler_def Let_def cn demo_fresh_def log_ops_def new_client_def reply_def find_client_def
        send_data_def send_one greetings_short put_client_def broadcast_def send_everyone_def send_or_disconnect_def
        finish_start_def add_to_epoll_def)
  then obtain sv where sv: "start_connection_handler heap_empty [Io 999, Io 999] [] 0 5 ?sv = Runs (True, sv)"
      "map fst (sv_clients sv) = [5]" "sv_ops sv = sv_ops demo_fresh @ [Open_fd 5, Epoll_add 5]" by auto
  have stop: "handle_incoming_connections [] sv = Runs (Inr (), sv)"
    by (subst handle_incoming_connections.simps) simp
  have "handle_incoming_connections (le_accepts demo_accept) demo_fresh = Runs (Inr (), sv)"
    by (subst handle_incoming_connections.simps) (simp add: demo_accept_def sv(1) stop)
  then have "handle_event demo_accept demo_fresh = Runs (Next_wait, sv)"
    by (simp add: handle_event_def demo_accept_def demo_fresh_def)
  moreover have "fresh_opens (sv_ops sv) {0}" by (simp add: sv(3) demo_fresh_def)
  ultimately show ?thesis by (intro exI [of _ sv] conjI sv_loop sv(2))
qed


end
