(* ===== verification/Chat_Main.thy ===== *)
theory Chat_Main
  imports Chat_Server Logger Otel_Native
begin

text \<open>
  \<open>samples/chat.cpp\<close>: the program around the chat server.  It registers four sinks, parses the port,
  and runs the server in a block whose end runs the server's destructor.  Every exception is caught and
  becomes the exit code 1.  A heartbeat thread logs once a second beside it.  The answers of
  the system are parameters, as in the theories of the parts.
\<close>

section \<open>The sinks\<close>

definition chat_log_opts :: log_sink_opts where
  "chat_log_opts = default_log_sink_opts\<lparr>lo_min_log_level := information\<rparr>"

definition chat_plain_opts :: "string \<Rightarrow> file_sink_opts" where
  "chat_plain_opts exe =
     \<lparr>fo_min_log_level = information, fo_file_path = exe @ ''.plain.log'', fo_use_local_time = True, fo_flush_on_write = True\<rparr>"

definition chat_trace_opts :: "string \<Rightarrow> file_sink_opts" where
  "chat_trace_opts exe =
     \<lparr>fo_min_log_level = trace, fo_file_path = exe @ ''.trace.log'', fo_use_local_time = False, fo_flush_on_write = True\<rparr>"

definition chat_otel_opts :: otel_sink_opts where
  "chat_otel_opts =
     \<lparr>oo_min_log_level = trace, oo_endpoint = ''http://localhost:4318/v1/logs'', oo_auth_token = [],
      oo_service_namespace = ''chat-app'', oo_service_name = ''chat-app'', oo_service_version = ''1.0.0'',
      oo_service_instance_id = ''instance-1'', oo_environment_name = ''development'',
      oo_batch_size = 100, oo_use_local_time = False\<rparr>"

text \<open>The four registrations, in order; a constructor that throws ends them.  \<open>exe\<close> is what reading the
  link \<open>/proc/self/exe\<close> gives, \<open>plain_fd\<close> and \<open>trace_fd\<close> the answers of \<open>open\<close>.\<close>

definition chat_sinks ::
  "(string \<Rightarrow> string) \<Rightarrow> (string \<Rightarrow> bool) \<Rightarrow> int \<Rightarrow> int \<Rightarrow> string throws \<Rightarrow> 'a logger \<Rightarrow> 'a logger throws"
where
  "chat_sinks parent dir_exists plain_fd trace_fd exe lg =
     (case exe of
        Inl e \<Rightarrow> Inl e
      | Inr exe_fullpath \<Rightarrow>
          (let lg1 = add_sink (Text_sink (log_sink_make chat_log_opts False) []) lg in
           case snd (file_sink_make parent dir_exists plain_fd (chat_plain_opts exe_fullpath)) of
             Inl e \<Rightarrow> Inl e
           | Inr plain \<Rightarrow>
               (let lg2 = add_sink (Text_sink plain []) lg1 in
                case snd (file_sink_make parent dir_exists trace_fd (chat_trace_opts exe_fullpath)) of
                  Inl e \<Rightarrow> Inl e
                | Inr trace_sink \<Rightarrow>
                    (let lg3 = add_sink (Text_sink trace_sink []) lg2 in
                     case otel_sink_make chat_otel_opts of
                       Inl e \<Rightarrow> Inl e
                     | Inr otel \<Rightarrow> Inr (add_sink (Exporter otel) lg3)))))"

section \<open>The heartbeat\<close>

text \<open>The turns of the heartbeat thread: whether a stop is requested at the head of the loop and after the
  wait of a second, and the message of the turn.\<close>

fun heartbeat :: "(bool \<times> bool \<times> 'a log_message) list \<Rightarrow> 'a logger \<Rightarrow> 'a logger" where
  "heartbeat [] lg = lg"
| "heartbeat ((stop_at_head, stop_after_wait, message) # turns) lg =
     (if stop_at_head then lg else if stop_after_wait then lg else heartbeat turns (Logger.log message lg))"

section \<open>The port\<close>

definition chat_port :: "string list \<Rightarrow> nat throws" where
  "chat_port argv =
     (case stoi (if length argv > 1 then argv ! 1 else ''9090'') of
        Inl e \<Rightarrow> Inl e
      | Inr (port, parsed) \<Rightarrow>
          if port < 1 \<or> port > 65535 then Inl (std_invalid_argument ''invalid port'') else Inr (nat port))"

section \<open>The program\<close>

text \<open>The life of the server: the events of its loop with the calls of the handlers' threads in between.\<close>

fun server_life :: "server_event list \<Rightarrow> chat_server \<Rightarrow> (loop_end \<times> chat_server) outcome" where
  "server_life [] sv = Runs (Next_wait, sv)"
| "server_life (Sv_loop ev # evs) sv =
     and_then (handle_event ev sv) (\<lambda>(res, sv'). case res of Next_wait \<Rightarrow> server_life evs sv' | _ \<Rightarrow> Runs (res, sv'))"
| "server_life (Sv_calls i calls # evs) sv = and_then (perform_all (Some i) calls sv) (server_life evs)"

text \<open>\<open>main\<close>: the exit code, \<open>None\<close> when the server still waits for events, and the history of the
  descriptors.\<close>

definition chat_main ::
  "'a logger throws \<Rightarrow> string list \<Rightarrow> setup_answers \<Rightarrow> server_event list \<Rightarrow> (int option \<times> fd_op list) outcome"
where
  "chat_main sinks argv sa evs =
     (case sinks of
        Inl e \<Rightarrow> Runs (Some 1, [])
      | Inr lg \<Rightarrow>
          (case chat_port argv of
             Inl e \<Rightarrow> Runs (Some 1, [])
           | Inr port \<Rightarrow>
               (case server_setup port sa of
                  (ops, Inl e) \<Rightarrow> Runs (Some 1, ops)
                | (ops, Inr (listen_fd, epoll_fd)) \<Rightarrow>
                    and_then
                      (server_life evs \<lparr>sv_listen_fd = listen_fd, sv_epoll_fd = epoll_fd, sv_clients = [], sv_ops = ops\<rparr>)
                      (\<lambda>(res, sv). case res of
                         Next_wait \<Rightarrow> Runs (None, sv_ops sv)
                       | Run_returns \<Rightarrow> and_then (cleanup sv) (\<lambda>sv'. Runs (Some 0, sv_ops sv'))
                       | Run_throws e \<Rightarrow> and_then (cleanup sv) (\<lambda>sv'. Runs (Some 1, sv_ops sv'))))))"

section \<open>The sinks can be made\<close>

lemma chat_otel_valid: "otel_sink_opts_validate chat_otel_opts = Inr ()"
  by (simp add: otel_sink_opts_validate_def chat_otel_opts_def validate_required_string_def
      validate_optional_non_whitespace_string_def isspace_def)

text \<open>The heartbeat logs the messages of the turns before the stop request, and none after it.\<close>

lemma heartbeat_until_stop:
  "heartbeat turns lg =
     fold Logger.log (map (snd \<circ> snd) (takeWhile (\<lambda>(head, after, m). \<not> head \<and> \<not> after) turns)) lg"
  by (induction turns lg rule: heartbeat.induct) auto

section \<open>The history grows\<close>

lemma grows_disconnect_and_destroy: "disconnect_and_destroy fd sv = Runs sv' \<Longrightarrow> grows sv sv'"
  using grows_trans [OF grows_disconnect grows_destroy]
  by (auto simp: disconnect_and_destroy_def simp del: destroy_clients.simps split: prod.splits)

lemma grows_process_client_event:
  assumes "process_client_event rx fd events sv = Runs sv'"
  shows "grows sv sv'"
  using assms
proof (cases rule: process_client_event_cases)
  case (received c cn res cn')
  then show ?thesis using grows_put grows_trans [OF grows_put grows_disconnect_and_destroy] by blast
qed (auto intro: grows_disconnect_and_destroy)

lemma grows_handle_event:
  assumes "handle_event ev sv = Runs (r, sv')"
  shows "grows sv sv'"
  using assms
proof (cases rule: handle_event_cases)
  case bye
  then show ?thesis using grows_perform [of None "Broadcast shutdown_message"] by simp
qed (auto intro: grows_incoming grows_process_client_event)

lemma fresh_opens_prefix: "fresh_opens (xs @ ys) S \<Longrightarrow> fresh_opens xs S"
  by (induction xs S rule: fresh_opens.induct) auto

lemma grows_fresh: "grows sv sv' \<Longrightarrow> fresh_opens (sv_ops sv') S \<Longrightarrow> fresh_opens (sv_ops sv) S"
  using fresh_opens_prefix by (auto simp: grows_def)

lemma server_life_grows: "server_life evs sv = Runs (r, sv') \<Longrightarrow> grows sv sv'"
proof (induction evs sv rule: server_life.induct)
  case (2 ev evs sv)
  obtain r1 sv1 where h: "handle_event ev sv = Runs (r1, sv1)" using 2(2) by (auto simp: and_then_Runs)
  show ?case
    using 2 h grows_handle_event [OF h] grows_trans by (cases r1) (auto simp: and_then_Runs)
next
  case (3 i calls evs sv)
  then show ?case using grows_trans [OF grows_perform_all] by (auto simp: and_then_Runs)
qed simp

lemma server_life_ok: "server_life evs sv = Runs (r, sv') \<Longrightarrow> server_ok sv \<Longrightarrow> fresh_opens (sv_ops sv') {0} \<Longrightarrow> server_ok sv'"
proof (induction evs sv rule: server_life.induct)
  case (2 ev evs sv)
  obtain r1 sv1 where h: "handle_event ev sv = Runs (r1, sv1)" using 2(2) by (auto simp: and_then_Runs)
  show ?case
  proof (cases "r1 = Next_wait")
    case True
    then have s: "server_life evs sv1 = Runs (r, sv')" using 2(2) h by simp
    have "server_ok sv1" using handle_event_ok [OF 2(3) h grows_fresh [OF server_life_grows [OF s] 2(4)]] .
    then show ?thesis using 2(1) h True s 2(4) by auto
  next
    case False
    then have "sv' = sv1" using 2(2) h by (cases r1) auto
    then show ?thesis using handle_event_ok [OF 2(3) h] 2(4) by simp
  qed
next
  case (3 i calls evs sv)
  obtain sv1 where p: "perform_all (Some i) calls sv = Runs sv1" "server_life evs sv1 = Runs (r, sv')"
    using 3(2) by (auto simp: and_then_Runs)
  have "server_ok sv1"
    using perform_all_ok [OF _ p(1)] server_ok_shrinks [OF 3(3)] 3(3) by (auto simp: server_ok_def)
  then show ?case using 3(1) p 3(4) by simp
qed simp

lemma chat_port_range: "chat_port argv = Inr port \<Longrightarrow> 1 \<le> port \<and> port \<le> 65535"
  by (auto simp: chat_port_def split: sum.splits prod.splits if_splits)

text \<open>When the two files can be opened, all sinks are registered: the console and the files on the
  channel of the logger, the exporter with its own.\<close>

lemma chat_sinks_ok:
  assumes "plain_fd \<ge> 0" and "trace_fd \<ge> 0"
  shows "\<exists>lg'. chat_sinks parent dir_exists plain_fd trace_fd (Inr exe) logger_make = Inr lg'
    \<and> length (lg_sinks lg') = 3 \<and> length (lg_own_channel_sinks lg') = 1"
proof -
  have path: "file_sink_opts_validate (chat_plain_opts exe) = Inr ()" "file_sink_opts_validate (chat_trace_opts exe) = Inr ()"
    by (simp_all add: file_sink_opts_validate_def validate_required_iff has_non_whitespace_iff chat_plain_opts_def
        chat_trace_opts_def isspace_def)
  show ?thesis
    using assms
    by (simp add: chat_sinks_def file_sink_make_def path open_file_def Let_def otel_sink_make_def chat_otel_valid
        add_sink_def logger_make_def log_sink_make_def)
qed

lemma server_life_returns:
  "server_life evs sv = Runs (Run_returns, sv') \<Longrightarrow> \<exists>ev. Sv_loop ev \<in> set evs \<and> le_fd ev = 0 \<and> enter_pressed (le_input ev) = Inr True"
proof (induction evs sv rule: server_life.induct)
  case (2 ev evs sv)
  obtain r1 sv1 where h: "handle_event ev sv = Runs (r1, sv1)" using 2(2) by (auto simp: and_then_Runs)
  show ?case
  proof (cases "r1 = Next_wait")
    case True
    then show ?thesis using 2 h by auto
  next
    case False
    then have "r1 = Run_returns" using 2(2) h by (cases r1) auto
    then have "le_fd ev \<noteq> sv_listen_fd sv"
      using h by (auto simp: handle_event_def and_then_Runs) (metis loop_end.distinct(1,5) sum.case_eq_if)
    with \<open>r1 = Run_returns\<close> show ?thesis
      using h by (intro exI [of _ ev]) (auto simp: handle_event_def and_then_Runs split: if_splits sum.splits)
  qed
qed (auto simp: and_then_Runs)

lemma cleanup_grows:
  assumes "cleanup sv = Runs sv'"
  shows "\<exists>ops. sv_ops sv' = sv_ops sv @ ops"
proof -
  obtain ops cs where c: "close_all (sv_epoll_fd sv) (sv_clients sv) = (ops, cs)" by fastforce
  from assms show ?thesis
    using grows_destroy by (fastforce simp: cleanup_def c Let_def grows_def log_ops_def simp del: destroy_clients.simps)
qed

lemma setup_failure_closes:
  assumes "server_setup port sa = (ops, Inl e)" and "fresh_opens ops {0}"
  shows "replay ops {0} = Some {0}"
  using assms
  by (auto simp: server_setup_def create_listen_socket_def add_to_epoll_def close_server_fds_def opened_fd_def Let_def
      split: if_splits)

lemma setup_server_ok:
  assumes "server_setup port sa = (ops, Inr (listen_fd, epoll_fd))" and "fresh_opens ops {0}"
  shows "server_ok \<lparr>sv_listen_fd = listen_fd, sv_epoll_fd = epoll_fd, sv_clients = [], sv_ops = ops\<rparr>"
  by (rule server.inv_init [of port]) (use assms in \<open>auto simp: server_init_def\<close>)

text \<open>How \<open>main\<close> can return: before the server exists, because it cannot be set up, or after its life.\<close>

lemma chat_main_cases [consumes 1, case_names early no_setup served]:
  assumes main: "chat_main sinks argv sa evs = Runs (Some code, ops)"
  obtains "ops = []" "code = 1"
    | port e where "chat_port argv = Inr port" "server_setup port sa = (ops, Inl e)" "code = 1"
    | port ops0 l e res sv sv' where "chat_port argv = Inr port" "server_setup port sa = (ops0, Inr (l, e))"
        "server_life evs \<lparr>sv_listen_fd = l, sv_epoll_fd = e, sv_clients = [], sv_ops = ops0\<rparr> = Runs (res, sv)"
        "cleanup sv = Runs sv'" "ops = sv_ops sv'" "code = (if res = Run_returns then 0 else 1)"
proof (cases sinks; cases "chat_port argv")
  fix lg port
  assume o: "sinks = Inr lg" "chat_port argv = Inr port"
  obtain ops0 r where st: "server_setup port sa = (ops0, r)" by fastforce
  show thesis
  proof (cases r)
    case (Inl e)
    then show thesis using main o st that(2) by (simp add: chat_main_def)
  next
    case (Inr le)
    obtain l e where le: "le = (l, e)" by fastforce
    let ?sv0 = "\<lparr>sv_listen_fd = l, sv_epoll_fd = e, sv_clients = [], sv_ops = ops0\<rparr>"
    obtain res sv where v: "server_life evs ?sv0 = Runs (res, sv)"
      using main o st Inr le by (auto simp: chat_main_def and_then_Runs)
    show thesis
      using main o st Inr le v that(3) [OF o(2) st [unfolded Inr le] v]
      by (cases res) (auto simp: chat_main_def and_then_Runs)
  qed
qed (use main that(1) in \<open>auto simp: chat_main_def\<close>)


section \<open>Enter at once\<close>

definition demo_enter :: server_event where
  "demo_enter = Sv_loop \<lparr>le_fd = 0, le_events = EPOLLIN, le_accepts = [], le_input = [Rx [newline]]\<rparr>"

lemma demo_main:
  "chat_main (Inr logger_make) [''chat''] demo_setup [demo_enter]
     = Runs (Some 0, [Open_fd 3, Open_fd 4, Epoll_add 3, Epoll_add 0, Close_fd 3, Close_fd 4])"
proof -
  have port: "chat_port [''chat''] = Inr 9090" by code_simp
  let ?sv = "\<lparr>sv_listen_fd = 3, sv_epoll_fd = 4, sv_clients = [], sv_ops = [Open_fd 3, Open_fd 4, Epoll_add 3, Epoll_add 0]\<rparr>"
  have up: "server_setup 9090 demo_setup = (sv_ops ?sv, Inr (3, 4))"
    by (simp add: demo_setup_def server_setup_def create_listen_socket_def add_to_epoll_def opened_fd_def)
  have "enter_pressed [Rx [newline]] = Inr True" by (simp add: enter_pressed_def newline_def)
  then have "server_life [demo_enter] ?sv = Runs (Run_returns, ?sv)"
    by (simp add: demo_enter_def handle_event_def broadcast_def send_everyone_def)
  moreover have "cleanup ?sv = Runs (?sv\<lparr>sv_listen_fd := - 1, sv_epoll_fd := - 1, sv_ops := sv_ops ?sv @ [Close_fd 3, Close_fd 4]\<rparr>)"
    by (simp add: cleanup_def Let_def log_ops_def close_server_fds_def)
  ultimately show ?thesis using port up by (simp add: chat_main_def)
qed


end
