(* ===== verification/Spec2Isabelle.thy ===== *)
theory Spec2Isabelle
  imports Pipeline_Properties Channel_System Cache_System Logger Otel_Native Otel_Curl Pipe_Utils
    Sample_Properties Sample_Channel Chat_Main
begin

text \<open>
  A verification of \<open>xtd\<close>, a C++ library of building blocks for concurrent programs: a byte pipeline
  with backpressure, a message channel, a sharded cache with expiring entries, and a logger on top of
  the channel, with a chat server and three smaller programs as samples.

  \<^bold>\<open>Parts and theories.\<close>  Paths are under \<open>src/src/\<close>, those of the samples under \<open>src/samples/\<close>.

  \<^item> \<open>Xtd_Prelude\<close>: bytes, \<open>std::size_t\<close> as 64-bit words, exceptions as values, spans, runs of step
    relations, the locale \<open>inductive_invariant\<close> that every step system of the development uses, and
    its extension \<open>bounded_runs\<close> for systems that come to an end.
  \<^item> \<open>Position\<close>: \<open>pipeline/position.h\<close>.
  \<^item> \<open>Memory_Resource\<close>: \<open>pipeline/custom_allocators/\<close>, the fixed pool and the arena ring, over an
    explicit heap of live blocks.  The locale \<open>fifo_resource\<close> is the contract of a memory resource
    whose client returns buffers in the order it obtained them; both resources are interpretations.
  \<^item> \<open>Data_Segment\<close>: \<open>pipeline/data_segment.h\<close>, a buffer with a readable and a writable part; the
    locale \<open>byte_queue\<close> is its contract.
  \<^item> \<open>Segmented_Byte_View\<close>: \<open>pipeline/segmented_byte_view.h\<close>, slicing, indexing, searching and copying
    over a list of spans; the locale \<open>byte_sequence\<close> says that a view behaves as its flat bytes.
  \<^item> \<open>Pipeline\<close>: \<open>pipeline/pipeline_impl.h\<close>, \<open>read_result.h\<close>, \<open>pipe_reader.h\<close>, \<open>pipe_writer.h\<close>.
    \<open>Pipeline_Correct\<close> holds the invariant, its preservation by every operation and the step
    relation of a reader and a writer; \<open>Pipeline_Properties\<close> states what follows.  \<open>Pipeline_Pause\<close>
    relates the pause flag of the writer to the bytes in the segments, for programs that must not stop.
  \<^item> \<open>Pipe_Utils\<close>: \<open>pipeline/pipe_utils.h\<close>, the threads that copy a file or a socket into a pipeline.
  \<^item> \<open>Line_Reader\<close>: reading lines out of a view, with the locale \<open>line_loop\<close> for the loop that three of
    the samples share.
  \<^item> \<open>Channel\<close>: \<open>channel/\<close>, one definition per operation, with the locale \<open>message_queue\<close>.
    \<open>Channel_System\<close> lets any number of threads interleave, with both condition variables, stop
    tokens and spurious wake-ups.
  \<^item> \<open>Cache\<close>: \<open>cache/concurrent_cache.h\<close>, with the locale \<open>expiring_map\<close> as the contract the shards
    implement together.  \<open>Cache_System\<close> interleaves threads inside \<open>get_or_create\<close>, one critical
    section per step, with promises and futures.
  \<^item> \<open>Text_Format\<close> and \<open>Json\<close>: decimal numbers and character search as the standard library has them, and
    a reference parser and printer for JSON, which the library itself does not contain.
  \<^item> \<open>Log_Message\<close>: \<open>logging/log_message.h\<close>, with the owned arguments and the texts formatted once.
    \<open>Log_Sink\<close>: \<open>logging/sinks/log_sink.h\<close>, \<open>file_sink.h\<close> and the validation in \<open>sinks_opts.h\<close>.
    \<open>Otel_Serializer\<close>: \<open>logging/sinks/otel_serializer.h\<close>.  \<open>Otel_Sink\<close>: \<open>logging/sinks/otel_sink.h\<close>, the
    exporter with its worker thread.  \<open>Logger\<close>: \<open>logging/logging.h\<close>, the logger over its sinks.
  \<^item> \<open>Otel_Native\<close> and \<open>Otel_Curl\<close>: the two transports in \<open>logging/sinks/otel_transports/\<close>.
  \<^item> \<open>Chat_Commands\<close>, \<open>Chat_Connection\<close>, \<open>Chat_Socket\<close>, \<open>Chat_Descriptor\<close>, \<open>Chat_Server\<close>, \<open>Chat_Main\<close>:
    the chat sample, in order \<open>chat/commands_parser.h\<close>, \<open>chat/connection_handler.h\<close>, and of
    \<open>chat/server.h\<close> the system calls, the protocol of a client's descriptor and the registry with the
    event loop; then \<open>chat.cpp\<close>.
  \<^item> \<open>Sample_Pipelines\<close> and \<open>Sample_Properties\<close>: \<open>pipeline.cpp\<close> and \<open>stdin.cpp\<close>, with the locale
    \<open>line_sample\<close> for what they share.  \<open>Sample_Channel\<close>: \<open>channel.cpp\<close>.

  \<^bold>\<open>How the parts interact.\<close>  The pipeline allocates its segments from a memory resource and shows
  them to the reader as a view; the writer waits when too much is buffered and the reader's advance
  wakes it.  The logger and the exporter each own a channel and a worker thread that empties it; the
  exporter hands request bodies to a transport.  The chat server gives every client a connection with a
  pipeline of its own: the event loop writes what it receives into it, the thread of the connection reads
  lines out of it and calls back into the server.

  \<^bold>\<open>How the code is represented.\<close>  A class is a record with its fields, an operation is a function
  on the record.  Code under a mutex is atomic; an operation that waits on a condition variable is
  split into the part before the wait and the test repeated at each wake-up, and an outcome
  \<open>Blocks\<close> stands for a thread inside the wait.  Thrown exceptions are values (\<open>Inl\<close>); \<open>None\<close> is
  undefined behaviour or a failed assertion, and the safety properties show that it is not reached.
  \<open>std::size_t\<close> arithmetic is 64-bit with wrap-around.  Clock readings, stop tokens, the hash function,
  the factory, \<open>std::format\<close> on the caller's arguments and the host name are parameters.  System calls
  and libcurl are lists or functions of answers, and the calls made are recorded.  Memory is a heap of
  blocks, so that overlapping or freed buffers are visible; descriptors are tracked the same way.

  \<^bold>\<open>What is shown.\<close>  For the pipeline: the byte stream is first-in first-out in every reachable state,
  no operation reaches undefined behaviour, memory stays below the pause threshold, each operation
  has its exact effect, and a write comes to an end or waits.  For the view: slices are well-formed and
  every operation agrees with its meaning on the flat bytes.  For the resources: every first-in first-out
  client is served with disjoint buffers and no assertion fails.  For the channel: order, capacity,
  exact waiter counters, and no lost wake-up.  For the cache: sharding is invisible, scans are exact, at
  most one factory runs per key, nobody waits in vain.  For logging: every sink gets the messages of its
  level in the order of the calls, the exporter's requests hold them in order, parse as JSON and are
  drained on completion, the native transport puts the whole request on the wire or reports it.  For the
  chat: a session is the concatenation of its lines however the bytes arrive, the registry and the
  descriptors agree, a descriptor is closed once, and \<open>main\<close> releases what it opened.  For the samples:
  \<open>pipeline.cpp\<close> counts every line, \<open>channel.cpp\<close> delivers every value and terminates.

  Where the code does not do what it means to, the behaviour is stated and proved: a resume threshold
  that is never met, a write that spins on a stop request, a notification that is skipped or swallowed, a
  lookup that removes the live entry, an expiry time that overflows, resource attributes that are not
  escaped, a line that blocks the chat server, a handler that joins its own thread, an echo that loses the
  start of a split line.

  \<^bold>\<open>Fuel.\<close>  Only \<open>write_outer\<close>, the outer loop of \<open>pipeline::write\<close>, takes fuel, because that loop may
  run forever after a stop request; without one, two turns are enough, which is part of the property.
  The connection of the chat uses it with three turns.  Loops over the answers of the system end with the
  answers.  \<open>count_lines\<close>, \<open>echo_lines\<close> and the loop of the connection are partial functions, and their
  lemmas show that they return.

  \<^bold>\<open>Not modelled.\<close>  Statistics printing (\<open>PRINT_STATS\<close>) and the debug output of the transports, console
  output, moves versus copies of messages, alignment beyond the assertions, and exhaustion of memory.
  The log calls inside the chat server are left out, since they do not affect it.  The benchmarks only
  measure times, and the tests exercise what is modelled here.
\<close>

end
